(* ===== verification/Dart_Prelude.thy ===== *)
theory Dart_Prelude
  imports Main "HOL-Library.Word"
begin

text \<open>
  Shared vocabulary of the development.

  \<^item> Outcomes.  A C++ function that may loop forever or run into undefined behaviour is modelled
    with the type \<open>'a exec\<close>: \<open>None\<close> is a run that never returns, \<open>Some (Inl f)\<close> a run that
    commits the fault \<open>f\<close> (an access the C++ program must not make), \<open>Some (Inr x)\<close> a run that
    returns \<open>x\<close>.  \<open>ret\<close>, \<open>raise_fault\<close> and \<open>ebind\<close> compose such runs in program order.
    \<open>ASSERT\<close> is not executed in the modelled (release) build; where an \<open>ASSERT\<close> states a fact the
    code relies on, that fact appears in a lemma.
  \<^item> \<open>tmod\<close> is the C++ remainder on signed integers, which takes the sign of the dividend, and
    \<open>tdiv\<close> the C++ quotient.
  \<^item> Generic lemmas on lists (counting, updating, cyclic positions) that the container theories
    share.
\<close>

section \<open>Outcomes of a run\<close>

datatype fault =
    OutOfBounds     \<comment> \<open>an array access outside the array\<close>
  | NullDeref       \<comment> \<open>a member access through a null pointer\<close>
  | UseAfterFree    \<comment> \<open>an access to an object that was deleted\<close>
  | Unreachable     \<comment> \<open>UNREACHABLE(), FATAL\<close>
  | DivByZero       \<comment> \<open>an integer division by zero\<close>
  | BadShift        \<comment> \<open>a shift by at least the width of the shifted value\<close>
  | OutOfMemory     \<comment> \<open>the exception thrown when an allocation fails\<close>

type_synonym 'a exec = "(fault + 'a) option"

definition ret :: "'a \<Rightarrow> 'a exec" where
  "ret x = Some (Inr x)"

definition raise_fault :: "fault \<Rightarrow> 'a exec" where
  "raise_fault f = Some (Inl f)"

definition ebind :: "'a exec \<Rightarrow> ('a \<Rightarrow> 'b exec) \<Rightarrow> 'b exec" where
  "ebind m k = (case m of None \<Rightarrow> None | Some (Inl f) \<Rightarrow> Some (Inl f) | Some (Inr x) \<Rightarrow> k x)"

text \<open>A run that neither loops nor faults, and its value.\<close>

definition returns :: "'a exec \<Rightarrow> ('a \<Rightarrow> bool) \<Rightarrow> bool" where
  "returns m P \<longleftrightarrow> (\<exists>x. m = ret x \<and> P x)"

lemma ret_inject [simp]: "ret x = ret y \<longleftrightarrow> x = y"
  by (simp add: ret_def)

lemma ret_neq_fault [simp]:
  "ret x \<noteq> raise_fault f" "raise_fault f \<noteq> ret x" "ret x \<noteq> None" "None \<noteq> ret x"
  "raise_fault f \<noteq> None" "None \<noteq> raise_fault f"
  by (simp_all add: ret_def raise_fault_def)

lemma raise_fault_inject [simp]: "raise_fault f = raise_fault g \<longleftrightarrow> f = g"
  by (simp add: raise_fault_def)

lemma ebind_simps [simp]:
  "ebind (ret x) k = k x" "ebind (raise_fault f) k = raise_fault f" "ebind None k = None"
  by (simp_all add: ebind_def ret_def raise_fault_def)

lemma ebind_assoc: "ebind (ebind m f) g = ebind m (\<lambda>x. ebind (f x) g)"
  by (simp add: ebind_def split: option.splits sum.splits)

lemma ebind_eq_ret: "ebind m k = ret y \<longleftrightarrow> (\<exists>x. m = ret x \<and> k x = ret y)"
  by (auto simp: ebind_def ret_def split: option.splits sum.splits)

lemma exec_cases [case_names diverges fault returned]:
  fixes m :: "'a exec"
  obtains "m = None" | f where "m = raise_fault f" | x where "m = ret x"
  by (metis not_None_eq old.sum.exhaust raise_fault_def ret_def)

lemma returnsI [intro]: "m = ret x \<Longrightarrow> P x \<Longrightarrow> returns m P"
  by (auto simp: returns_def)

lemma returns_ret [simp]: "returns (ret x) P \<longleftrightarrow> P x"
  by (simp add: returns_def)

lemma returns_not [simp]: "\<not> returns (raise_fault f) P" "\<not> returns None P"
  by (simp_all add: returns_def)

lemma returns_code [code]:
  "returns m P = (case m of Some (Inr x) \<Rightarrow> P x | _ \<Rightarrow> False)"
  by (auto simp: returns_def ret_def split: option.splits sum.splits)

lemma returns_ebind: "returns (ebind m k) P \<longleftrightarrow> returns m (\<lambda>x. returns (k x) P)"
  by (cases m rule: exec_cases) simp_all

lemma returns_mono: "returns m P \<Longrightarrow> (\<And>x. P x \<Longrightarrow> Q x) \<Longrightarrow> returns m Q"
  by (auto simp: returns_def)

lemma returnsE [elim]: "returns m P \<Longrightarrow> (\<And>x. m = ret x \<Longrightarrow> P x \<Longrightarrow> R) \<Longrightarrow> R"
  by (auto simp: returns_def)

lemma ebind_bind:
  "ebind m k = Option.bind m (\<lambda>r. case r of Inl f \<Rightarrow> Some (Inl f) | Inr x \<Rightarrow> k x)"
  by (cases m) (simp_all add: ebind_def)

lemma ebind_partial_mono [partial_function_mono]:
  assumes "mono_option B" and "\<And>y. mono_option (\<lambda>f. C y f)"
  shows "mono_option (\<lambda>f. ebind (B f) (\<lambda>y. C y f))"
  unfolding ebind_bind
proof (rule bind_mono [OF assms(1)])
  fix r
  show "mono_option (\<lambda>f. case r of Inl x \<Rightarrow> Some (Inl x) | Inr x \<Rightarrow> C x f)"
    using assms(2) by (cases r) (simp_all add: monotone_on_def flat_ord_def)
qed

section \<open>C++ integer remainder\<close>

definition tmod :: "int \<Rightarrow> int \<Rightarrow> int" where
  "tmod a b = sgn a * (\<bar>a\<bar> mod \<bar>b\<bar>)"

lemma tmod_nonneg [simp]: "0 \<le> a \<Longrightarrow> 0 < b \<Longrightarrow> tmod a b = a mod b"
  by (cases "a = 0") (simp_all add: tmod_def)

lemma tmod_neg: "a < 0 \<Longrightarrow> 0 < b \<Longrightarrow> tmod a b = - ((- a) mod b)"
  by (simp add: tmod_def)

text \<open>The C++ quotient rounds towards zero.\<close>

definition tdiv :: "int \<Rightarrow> int \<Rightarrow> int" where
  "tdiv a b = sgn a * sgn b * (\<bar>a\<bar> div \<bar>b\<bar>)"

lemma tdiv_nonneg: "0 \<le> a \<Longrightarrow> 0 < b \<Longrightarrow> tdiv a b = a div b"
  by (cases "a = 0") (simp_all add: tdiv_def)

lemma tdiv_minus: "tdiv (- a) b = - tdiv a b" "tdiv a (- b) = - tdiv a b"
  by (simp_all add: tdiv_def)

lemma zle_div_iff: "0 < c \<Longrightarrow> a \<le> b div c \<longleftrightarrow> a * c \<le> b" for a b c :: int
proof
  assume "0 < c" "a \<le> b div c"
  then have "a * c \<le> (b div c) * c" by simp
  also have "\<dots> \<le> b" using \<open>0 < c\<close> pos_mod_sign [of c b] div_mult_mod_eq [of b c] by linarith
  finally show "a * c \<le> b" .
next
  assume "0 < c" "a * c \<le> b"
  then have "(a * c) div c \<le> b div c" by (intro zdiv_mono1)
  with \<open>0 < c\<close> show "a \<le> b div c" by simp
qed

lemma zdiv_lt_iff: "0 < c \<Longrightarrow> b div c < a \<longleftrightarrow> b < a * c" for a b c :: int
  using zle_div_iff [of c a b] by linarith

section \<open>Lists\<close>

lemma length_filter_update:
  assumes "i < length xs"
  shows "int (length (filter P (xs[i := x]))) =
         int (length (filter P xs)) - (if P (xs ! i) then 1 else 0) + (if P x then 1 else 0)"
  using assms
proof (induction xs arbitrary: i)
  case Nil
  then show ?case by simp
next
  case (Cons y ys)
  show ?case
  proof (cases i)
    case 0
    then show ?thesis by simp
  next
    case (Suc j)
    with Cons.prems Cons.IH [of j] show ?thesis by (simp split: if_splits)
  qed
qed

lemma filter_eq_Nil_iff_nth: "filter P xs = [] \<longleftrightarrow> (\<forall>i<length xs. \<not> P (xs ! i))"
  by (simp add: filter_empty_conv all_set_conv_all_nth)

lemma length_filter_pos_nth: "0 < length (filter P xs) \<longleftrightarrow> (\<exists>i<length xs. P (xs ! i))"
  using filter_eq_Nil_iff_nth [of P xs] by (metis length_greater_0_conv)

lemma length_filter_partition3:
  assumes "\<And>x. x \<in> set xs \<Longrightarrow> (P x \<and> \<not> Q x \<and> \<not> R x) \<or> (\<not> P x \<and> Q x \<and> \<not> R x) \<or> (\<not> P x \<and> \<not> Q x \<and> R x)"
  shows "length (filter P xs) + length (filter Q xs) + length (filter R xs) = length xs"
  using assms by (induction xs) auto

end
