(* ===== verification/Linear_Probing.thy ===== *)
theory Linear_Probing
  imports Dart_Prelude
begin

text \<open>
  The probing loops of the hash containers.  Every open-addressing container of the runtime walks
  its table with the same step \<open>index = (index + 1) % capacity\<close> until a cell stops the walk, and
  differs only in which cells stop it and in what it then returns.  The locale \<open>probe_loop\<close> states
  that interface; its lemmas say where such a walk ends, that it ends as soon as one cell of the
  table stops it, and that otherwise it does not return.  The containers interpret it once per
  loop.
\<close>

section \<open>Cyclic positions\<close>

definition cyc :: "nat \<Rightarrow> nat \<Rightarrow> nat \<Rightarrow> nat" where
  "cyc n h d = (h + d) mod n"

lemma cyc_less [simp]: "0 < n \<Longrightarrow> cyc n h d < n"
  by (simp add: cyc_def)

lemma cyc_0 [simp]: "h < n \<Longrightarrow> cyc n h 0 = h"
  by (simp add: cyc_def)

lemma cyc_Suc: "cyc n h (Suc d) = (cyc n h d + 1) mod n"
  by (simp add: cyc_def mod_Suc_eq)

lemma cyc_shift: "cyc n ((h + 1) mod n) d = cyc n h (Suc d)"
  by (simp add: cyc_def mod_add_left_eq)

lemma cyc_surj:
  assumes "j < n" "h < n"
  obtains d where "d < n" "cyc n h d = j"
proof (cases "h \<le> j")
  case True
  with assms show ?thesis by (intro that [of "j - h"]) (auto simp: cyc_def)
next
  case False
  with assms show ?thesis by (intro that [of "n - h + j"]) (auto simp: cyc_def)
qed

lemma cyc_inj:
  assumes "d < n" "d' < n" "cyc n h d = cyc n h d'"
  shows "d = d'"
proof -
  have *: "d = d'" if "d \<le> d'" "d' < n" "cyc n h d = cyc n h d'" for d d' :: nat
  proof -
    have "n dvd (h + d') - (h + d)"
      using that(3) unfolding cyc_def by (intro mod_eq_dvd_iff_nat [THEN iffD1]) (simp_all add: that)
    then have "n dvd d' - d" by simp
    with that show ?thesis using nat_dvd_not_less [of "d' - d" n] by fastforce
  qed
  from assms * [of d d'] * [of d' d] show ?thesis by (cases "d \<le> d'") auto
qed

section \<open>The interface of a probing loop\<close>

locale probe_loop =
  fixes loop :: "'t \<Rightarrow> nat \<Rightarrow> 'r option"
    and stop :: "'t \<Rightarrow> nat \<Rightarrow> bool"
    and result :: "'t \<Rightarrow> nat \<Rightarrow> 'r"
    and cap :: "'t \<Rightarrow> nat"
  assumes loop_unfold: "loop t i = (if stop t i then Some (result t i) else loop t ((i + 1) mod cap t))"
    and loop_stops: "loop t i = Some r \<Longrightarrow> i < cap t \<Longrightarrow> \<exists>j<cap t. stop t j"
begin

lemma loop_at:
  assumes "i < cap t" "\<And>d'. d' < d \<Longrightarrow> \<not> stop t (cyc (cap t) i d')" "stop t (cyc (cap t) i d)"
  shows "loop t i = Some (result t (cyc (cap t) i d))"
  using assms
proof (induction d arbitrary: i)
  case 0
  then show ?case by (subst loop_unfold) simp
next
  case (Suc d)
  have "\<not> stop t i" using Suc.prems(2) [of 0] Suc.prems(1) by simp
  then have "loop t i = loop t ((i + 1) mod cap t)" by (subst loop_unfold) simp
  also have "\<dots> = Some (result t (cyc (cap t) ((i + 1) mod cap t) d))"
  proof (rule Suc.IH)
    show "(i + 1) mod cap t < cap t" using Suc.prems(1) by simp
    show "\<not> stop t (cyc (cap t) ((i + 1) mod cap t) d')" if "d' < d" for d'
      using Suc.prems(2) [of "Suc d'"] that by (simp only: cyc_shift) simp
    show "stop t (cyc (cap t) ((i + 1) mod cap t) d)"
      using Suc.prems(3) by (simp only: cyc_shift)
  qed
  finally show ?case by (simp only: cyc_shift)
qed

text \<open>One stopping cell anywhere in the table makes the walk return, at the first stopping cell in
  cyclic order.\<close>

lemma loop_returns:
  assumes "i < cap t" "j < cap t" "stop t j"
  obtains d where "d < cap t" "loop t i = Some (result t (cyc (cap t) i d))"
    "stop t (cyc (cap t) i d)" "\<And>d'. d' < d \<Longrightarrow> \<not> stop t (cyc (cap t) i d')"
proof -
  obtain e where e: "e < cap t" "cyc (cap t) i e = j"
    using cyc_surj [OF assms(2,1)] .
  define d where "d = (LEAST d. stop t (cyc (cap t) i d))"
  have stop: "stop t (cyc (cap t) i d)"
    unfolding d_def by (rule LeastI [of _ e]) (simp add: e assms)
  have "d \<le> e" unfolding d_def by (rule Least_le) (simp add: e assms)
  have before: "\<not> stop t (cyc (cap t) i d')" if "d' < d" for d'
    using that not_less_Least unfolding d_def by blast
  from loop_at [OF assms(1) before stop] \<open>d \<le> e\<close> e(1) stop before show ?thesis
    by (intro that) auto
qed

lemma loop_diverges:
  assumes "i < cap t" "\<And>j. j < cap t \<Longrightarrow> \<not> stop t j"
  shows "loop t i = None"
proof (rule ccontr)
  assume "loop t i \<noteq> None"
  then obtain r where "loop t i = Some r" by auto
  from loop_stops [OF this assms(1)] assms(2) show False by blast
qed

end

end
