(* ===== verification/Port_Set.thy ===== *)
theory Port_Set
  imports Linear_Probing
begin

text \<open>
  \<open>runtime/vm/port_set.h\<close>: the open-addressing hash set of port entries that both the VM-wide port
  map and every message handler use.

  An entry of the C++ template parameter \<open>T\<close> is an \<open>entry\<close>: the port number and the further fields
  of \<open>T\<close> (\<open>content\<close>); \<open>dv\<close> is the content that \<open>T()\<close> initialises.  Port 0 marks a free cell, port 3
  a deleted one.  The table array is a list, its length is \<open>capacity_\<close>.  An iterator is the index it
  holds.  \<open>port % capacity_\<close> is the C++ remainder: for a negative port it is negative and the array
  access that follows is outside the array.

  The lemmas establish the table invariant \<open>port_set_ok\<close> (counters agree with the cells, every live
  entry is reachable from its home cell without crossing a free cell, at least one free cell),
  that every operation keeps it and returns, and that the operations implement a finite map
  (\<open>as_map\<close>) from ports to contents.
\<close>

section \<open>Data\<close>

definition kFreePort :: int where
  "kFreePort = 0"

definition kDeletedPort :: int where
  "kDeletedPort = 3"

definition ILLEGAL_PORT :: int where
  "ILLEGAL_PORT = 0"

record 'v entry =
  port :: int
  content :: 'v

record 'v port_set =
  ps_map :: "'v entry list"
  ps_capacity :: nat
  ps_used :: int
  ps_deleted :: int

definition default_entry :: "'v \<Rightarrow> 'v entry" where
  "default_entry dv = \<lparr>port = kFreePort, content = dv\<rparr>"

definition kInitialCapacity :: nat where
  "kInitialCapacity = 8"

definition PortSet :: "'v \<Rightarrow> 'v port_set" where
  "PortSet dv = \<lparr>ps_map = replicate kInitialCapacity (default_entry dv),
                 ps_capacity = kInitialCapacity, ps_used = 0, ps_deleted = 0\<rparr>"

definition IsEmpty :: "'v port_set \<Rightarrow> bool" where
  "IsEmpty ps \<longleftrightarrow> ps_used ps = 0"

section \<open>Iterators\<close>

definition live :: "'v entry \<Rightarrow> bool" where
  "live e \<longleftrightarrow> port e \<noteq> kFreePort \<and> port e \<noteq> kDeletedPort"

function seek_live :: "'v port_set \<Rightarrow> nat \<Rightarrow> nat" where
  "seek_live ps i =
     (if i < ps_capacity ps
      then (if port (ps_map ps ! i) = kFreePort \<or> port (ps_map ps ! i) = kDeletedPort
            then seek_live ps (i + 1) else i)
      else i)"
  by pat_completeness auto
termination
  by (relation "measure (\<lambda>(ps, i). ps_capacity ps - i)") auto

declare seek_live.simps [simp del]

definition begin_iter :: "'v port_set \<Rightarrow> nat" where
  "begin_iter ps = seek_live ps 0"

definition end_iter :: "'v port_set \<Rightarrow> nat" where
  "end_iter ps = ps_capacity ps"

definition next_iter :: "'v port_set \<Rightarrow> nat \<Rightarrow> nat" where
  "next_iter ps i = seek_live ps (i + 1)"

definition deref :: "'v port_set \<Rightarrow> nat \<Rightarrow> 'v entry exec" where
  "deref ps i = (if i < ps_capacity ps then ret (ps_map ps ! i) else raise_fault OutOfBounds)"

text \<open>Writing to the entry an iterator refers to, other than its port.\<close>

definition store :: "'v port_set \<Rightarrow> nat \<Rightarrow> 'v \<Rightarrow> 'v port_set" where
  "store ps i v = ps\<lparr>ps_map := (ps_map ps)[i := (ps_map ps ! i)\<lparr>content := v\<rparr>]\<rparr>"

definition delete_cell :: "'v \<Rightarrow> 'v port_set \<Rightarrow> nat \<Rightarrow> 'v port_set" where
  "delete_cell dv ps i =
     ps\<lparr>ps_map := (ps_map ps)[i := (default_entry dv)\<lparr>port := kDeletedPort\<rparr>],
        ps_used := ps_used ps - 1,
        ps_deleted := ps_deleted ps + 1\<rparr>"

definition Delete :: "'v \<Rightarrow> 'v port_set \<Rightarrow> nat \<Rightarrow> 'v port_set exec" where
  "Delete dv ps i =
     (if i < ps_capacity ps then ret (delete_cell dv ps i) else raise_fault OutOfBounds)"

section \<open>Lookup\<close>

partial_function (option) find_loop :: "'v port_set \<Rightarrow> int \<Rightarrow> nat \<Rightarrow> int option" where
  "find_loop ps p i =
     (if port (ps_map ps ! i) = kFreePort then Some (- 1)
      else if port (ps_map ps ! i) = p then Some (int i)
      else find_loop ps p ((i + 1) mod ps_capacity ps))"

definition FindIndexOfPort :: "'v port_set \<Rightarrow> int \<Rightarrow> int exec" where
  "FindIndexOfPort ps p =
     (if p = ILLEGAL_PORT then ret (- 1)
      else let index = tmod p (int (ps_capacity ps)) in
           if index < 0 then raise_fault OutOfBounds
           else (case find_loop ps p (nat index) of None \<Rightarrow> None | Some r \<Rightarrow> ret r))"

definition TryLookup :: "'v port_set \<Rightarrow> int \<Rightarrow> nat exec" where
  "TryLookup ps p =
     ebind (FindIndexOfPort ps p) (\<lambda>index.
       ret (if index \<ge> 0 then nat index else ps_capacity ps))"

definition Contains :: "'v port_set \<Rightarrow> int \<Rightarrow> bool exec" where
  "Contains ps p = ebind (FindIndexOfPort ps p) (\<lambda>index. ret (index \<ge> 0))"

section \<open>Rehashing and insertion\<close>

partial_function (option) place_loop :: "'v entry list \<Rightarrow> nat \<Rightarrow> nat option" where
  "place_loop new_ports i =
     (if port (new_ports ! i) \<noteq> 0 then place_loop new_ports ((i + 1) mod length new_ports)
      else Some i)"

lemma seek_live_ge: "i \<le> seek_live ps i"
proof (induction ps i rule: seek_live.induct)
  case (1 ps i)
  then show ?case by (subst seek_live.simps) (auto dest: Suc_leD)
qed

lemma next_iter_gt: "i < next_iter ps i"
  using seek_live_ge [of "i + 1" ps] by (simp add: next_iter_def)

function rehash_loop :: "'v port_set \<Rightarrow> nat \<Rightarrow> nat \<Rightarrow> 'v entry list \<Rightarrow> 'v entry list exec" where
  "rehash_loop ps new_capacity i new_ports =
     (if i < end_iter ps
      then let entry = ps_map ps ! i;
               new_index = tmod (port entry) (int new_capacity)
           in if new_index < 0 then raise_fault OutOfBounds
              else (case place_loop new_ports (nat new_index) of
                      None \<Rightarrow> None
                    | Some j \<Rightarrow> rehash_loop ps new_capacity (next_iter ps i) (new_ports[j := entry]))
      else ret new_ports)"
  by pat_completeness auto
termination
  by (relation "measure (\<lambda>(ps, c, i, n). end_iter ps - i)")
    (auto intro: diff_less_mono2 next_iter_gt)

declare rehash_loop.simps [simp del]

definition Rehash :: "'v \<Rightarrow> 'v port_set \<Rightarrow> nat \<Rightarrow> 'v port_set exec" where
  "Rehash dv ps new_capacity =
     ebind (rehash_loop ps new_capacity (begin_iter ps) (replicate new_capacity (default_entry dv)))
       (\<lambda>new_ports. ret (ps\<lparr>ps_map := new_ports, ps_capacity := new_capacity, ps_deleted := 0\<rparr>))"

definition MaintainInvariants :: "'v \<Rightarrow> 'v port_set \<Rightarrow> 'v port_set exec" where
  "MaintainInvariants dv ps =
     (let empty = int (ps_capacity ps) - ps_used ps - ps_deleted ps in
      if ps_used ps > int ((ps_capacity ps div 4) * 3) then Rehash dv ps (ps_capacity ps * 2)
      else if empty < ps_deleted ps then Rehash dv ps (ps_capacity ps)
      else ret ps)"

definition Rebalance :: "'v \<Rightarrow> 'v port_set \<Rightarrow> 'v port_set exec" where
  "Rebalance dv ps = MaintainInvariants dv ps"

partial_function (option) insert_loop :: "'v port_set \<Rightarrow> nat \<Rightarrow> nat option" where
  "insert_loop ps i =
     (if port (ps_map ps ! i) \<noteq> kFreePort \<and> port (ps_map ps ! i) \<noteq> kDeletedPort
      then insert_loop ps ((i + 1) mod ps_capacity ps)
      else Some i)"

definition Insert :: "'v \<Rightarrow> 'v port_set \<Rightarrow> 'v entry \<Rightarrow> 'v port_set exec" where
  "Insert dv ps e =
     (let index = tmod (port e) (int (ps_capacity ps)) in
      if index < 0 then raise_fault OutOfBounds
      else (case insert_loop ps (nat index) of
              None \<Rightarrow> None
            | Some i \<Rightarrow>
                (let ps1 = (if port (ps_map ps ! i) = kDeletedPort
                            then ps\<lparr>ps_deleted := ps_deleted ps - 1\<rparr> else ps);
                     ps2 = ps1\<lparr>ps_map := (ps_map ps1)[i := e]\<rparr>;
                     ps3 = ps2\<lparr>ps_used := ps_used ps2 + 1\<rparr>
                 in MaintainInvariants dv ps3)))"


declare find_loop.simps [code] place_loop.simps [code] insert_loop.simps [code]

section \<open>The probing loops\<close>

lemma find_loop_stops:
  assumes "find_loop ps p i = Some r" "i < ps_capacity ps"
  shows "\<exists>j<ps_capacity ps. port (ps_map ps ! j) = kFreePort \<or> port (ps_map ps ! j) = p"
proof -
  have "i < ps_capacity ps \<longrightarrow>
        (\<exists>j<ps_capacity ps. port (ps_map ps ! j) = kFreePort \<or> port (ps_map ps ! j) = p)"
  proof (rule find_loop.raw_induct [OF _ assms(1)])
    fix f ps p i r
    assume IH: "\<And>ps p i r. f ps p i = Some r \<Longrightarrow> i < ps_capacity ps \<longrightarrow>
        (\<exists>j<ps_capacity ps. port (ps_map ps ! j) = kFreePort \<or> port (ps_map ps ! j) = p)"
      and eq: "(if port (ps_map ps ! i) = kFreePort then Some (- 1)
           else if port (ps_map ps ! i) = p then Some (int i)
           else f ps p ((i + 1) mod ps_capacity ps)) = Some r"
    show "i < ps_capacity ps \<longrightarrow>
        (\<exists>j<ps_capacity ps. port (ps_map ps ! j) = kFreePort \<or> port (ps_map ps ! j) = p)"
      using eq IH [of ps p "(i + 1) mod ps_capacity ps" r] by (auto split: if_splits)
  qed
  with assms(2) show ?thesis by blast
qed

lemma insert_loop_stops:
  assumes "insert_loop ps i = Some r" "i < ps_capacity ps"
  shows "\<exists>j<ps_capacity ps. \<not> live (ps_map ps ! j)"
proof -
  have "i < ps_capacity ps \<longrightarrow> (\<exists>j<ps_capacity ps. \<not> live (ps_map ps ! j))"
  proof (rule insert_loop.raw_induct [OF _ assms(1)])
    fix f ps i r
    assume IH: "\<And>ps i r. f ps i = Some r \<Longrightarrow>
        i < ps_capacity ps \<longrightarrow> (\<exists>j<ps_capacity ps. \<not> live (ps_map ps ! j))"
      and eq: "(if port (ps_map ps ! i) \<noteq> kFreePort \<and> port (ps_map ps ! i) \<noteq> kDeletedPort
           then f ps ((i + 1) mod ps_capacity ps) else Some i) = Some r"
    show "i < ps_capacity ps \<longrightarrow> (\<exists>j<ps_capacity ps. \<not> live (ps_map ps ! j))"
      using eq IH [of ps "(i + 1) mod ps_capacity ps" r] by (auto simp: live_def split: if_splits)
  qed
  with assms(2) show ?thesis by blast
qed

lemma place_loop_stops:
  assumes "place_loop m i = Some r" "i < length m"
  shows "\<exists>j<length m. port (m ! j) = 0"
proof -
  have "i < length m \<longrightarrow> (\<exists>j<length m. port (m ! j) = 0)"
  proof (rule place_loop.raw_induct [OF _ assms(1)])
    fix f and m :: "'a entry list" and i r
    assume IH: "\<And>m i r. f m i = Some r \<Longrightarrow> i < length m \<longrightarrow> (\<exists>j<length m. port (m ! j) = 0)"
      and eq: "(if port (m ! i) \<noteq> 0 then f m ((i + 1) mod length m) else Some i) = Some r"
    show "i < length m \<longrightarrow> (\<exists>j<length m. port (m ! j) = 0)"
      using eq IH [of m "(i + 1) mod length m" r] by (cases "m = []") (auto split: if_splits)
  qed
  with assms(2) show ?thesis by blast
qed

interpretation find: probe_loop
  "\<lambda>t. find_loop (fst t) (snd t)"
  "\<lambda>t i. port (ps_map (fst t) ! i) = kFreePort \<or> port (ps_map (fst t) ! i) = snd t"
  "\<lambda>t i. if port (ps_map (fst t) ! i) = kFreePort then - 1 else int i"
  "\<lambda>t. ps_capacity (fst t)"
proof
  fix t :: "'a port_set \<times> int" and i
  show "find_loop (fst t) (snd t) i =
    (if port (ps_map (fst t) ! i) = kFreePort \<or> port (ps_map (fst t) ! i) = snd t
     then Some (if port (ps_map (fst t) ! i) = kFreePort then - 1 else int i)
     else find_loop (fst t) (snd t) ((i + 1) mod ps_capacity (fst t)))"
    by (subst find_loop.simps) simp
qed (rule find_loop_stops)

interpretation ins: probe_loop
  insert_loop "\<lambda>ps i. \<not> live (ps_map ps ! i)" "\<lambda>ps i. i" ps_capacity
proof
  fix ps :: "'a port_set" and i
  show "insert_loop ps i =
    (if \<not> live (ps_map ps ! i) then Some i else insert_loop ps ((i + 1) mod ps_capacity ps))"
    by (subst insert_loop.simps) (simp add: live_def)
qed (rule insert_loop_stops)

interpretation plc: probe_loop
  place_loop "\<lambda>m i. port (m ! i) = 0" "\<lambda>m i. i" length
proof
  fix m :: "'a entry list" and i
  show "place_loop m i = (if port (m ! i) = 0 then Some i else place_loop m ((i + 1) mod length m))"
    by (subst place_loop.simps) simp
qed (rule place_loop_stops)


section \<open>The table invariant\<close>

definition home :: "nat \<Rightarrow> int \<Rightarrow> nat" where
  "home n p = nat (p mod int n)"

text \<open>The entry in cell \<open>i\<close> is reachable: the walk from its home cell meets no free cell before
  \<open>i\<close>.\<close>

definition reach :: "'v entry list \<Rightarrow> nat \<Rightarrow> bool" where
  "reach m i \<longleftrightarrow>
     (\<exists>d<length m. cyc (length m) (home (length m) (port (m ! i))) d = i \<and>
       (\<forall>d'<d. port (m ! cyc (length m) (home (length m) (port (m ! i))) d') \<noteq> kFreePort))"

definition table_ok :: "'v entry list \<Rightarrow> bool" where
  "table_ok m \<longleftrightarrow>
     m \<noteq> [] \<and>
     (\<forall>i<length m. live (m ! i) \<longrightarrow> 0 < port (m ! i) \<and> reach m i) \<and>
     (\<forall>i<length m. \<forall>j<length m. live (m ! i) \<longrightarrow> live (m ! j) \<longrightarrow>
        port (m ! i) = port (m ! j) \<longrightarrow> i = j)"

abbreviation n_live :: "'v entry list \<Rightarrow> nat" where
  "n_live m \<equiv> length (filter live m)"

abbreviation n_deleted :: "'v entry list \<Rightarrow> nat" where
  "n_deleted m \<equiv> length (filter (\<lambda>e. port e = kDeletedPort) m)"

abbreviation n_free :: "'v entry list \<Rightarrow> nat" where
  "n_free m \<equiv> length (filter (\<lambda>e. port e = kFreePort) m)"

definition counters_ok :: "'v port_set \<Rightarrow> bool" where
  "counters_ok ps \<longleftrightarrow>
     table_ok (ps_map ps) \<and> ps_capacity ps = length (ps_map ps) \<and>
     8 dvd ps_capacity ps \<and>
     ps_used ps = int (n_live (ps_map ps)) \<and> ps_deleted ps = int (n_deleted (ps_map ps))"

definition port_set_ok :: "'v port_set \<Rightarrow> bool" where
  "port_set_ok ps \<longleftrightarrow>
     counters_ok ps \<and> (\<exists>i<length (ps_map ps). port (ps_map ps ! i) = kFreePort)"

text \<open>What \<open>MaintainInvariants\<close> restores: at most three quarters of the cells live, and at least as
  many free cells as deleted ones.\<close>

definition balanced :: "'v port_set \<Rightarrow> bool" where
  "balanced ps \<longleftrightarrow> ps_used ps \<le> int ((ps_capacity ps div 4) * 3) \<and>
     ps_deleted ps \<le> int (ps_capacity ps) - ps_used ps - ps_deleted ps"

text \<open>The finite map a table stands for.\<close>

definition contents :: "'v entry list \<Rightarrow> int \<Rightarrow> 'v option" where
  "contents m p = map_option content (find (\<lambda>e. live e \<and> port e = p) m)"

definition as_map :: "'v port_set \<Rightarrow> int \<Rightarrow> 'v option" where
  "as_map ps = contents (ps_map ps)"

lemma home_less [simp]: "0 < n \<Longrightarrow> home n p < n"
  by (simp add: home_def nat_less_iff)

lemma live_simps [simp]:
  "\<not> live (default_entry dv)" "\<not> live ((default_entry dv)\<lparr>port := kDeletedPort\<rparr>)"
  by (simp_all add: live_def default_entry_def kFreePort_def kDeletedPort_def)

lemma special_ports [simp]: "kFreePort \<noteq> kDeletedPort" "kDeletedPort \<noteq> kFreePort"
  by (simp_all add: kFreePort_def kDeletedPort_def)

lemma contents_None: "contents m p = None \<longleftrightarrow> (\<forall>i<length m. live (m ! i) \<longrightarrow> port (m ! i) \<noteq> p)"
  by (auto simp: contents_def find_None_iff in_set_conv_nth)

lemma contents_Some:
  assumes "table_ok m"
  shows "contents m p = Some v \<longleftrightarrow>
         (\<exists>i<length m. live (m ! i) \<and> port (m ! i) = p \<and> content (m ! i) = v)"
proof
  assume "contents m p = Some v"
  then show "\<exists>i<length m. live (m ! i) \<and> port (m ! i) = p \<and> content (m ! i) = v"
    by (auto simp: contents_def find_Some_iff)
next
  assume "\<exists>i<length m. live (m ! i) \<and> port (m ! i) = p \<and> content (m ! i) = v"
  then obtain i where i: "i < length m" "live (m ! i)" "port (m ! i) = p" "content (m ! i) = v"
    by blast
  then have "contents m p \<noteq> None" by (auto simp: contents_None)
  then obtain j where "j < length m" "live (m ! j)" "port (m ! j) = p"
      "contents m p = Some (content (m ! j))"
    by (auto simp: contents_def find_Some_iff)
  with i assms show "contents m p = Some v" by (metis table_ok_def)
qed

lemma live_home_path:
  assumes "table_ok m" "i < length m" "live (m ! i)"
  obtains d where "d < length m" "cyc (length m) (home (length m) (port (m ! i))) d = i"
    "\<And>d'. d' < d \<Longrightarrow> port (m ! cyc (length m) (home (length m) (port (m ! i))) d') \<noteq> kFreePort"
  using assms unfolding table_ok_def reach_def by blast

text \<open>Writing a non-free entry into a cell whose content does not count as a live entry keeps the
  other entries reachable.\<close>

lemma reach_update:
  assumes "reach m i" "j \<noteq> i" "j < length m" "port e \<noteq> kFreePort"
  shows "reach (m[j := e]) i"
proof -
  from assms(1) obtain d where d: "d < length m"
      "cyc (length m) (home (length m) (port (m ! i))) d = i"
      "\<And>d'. d' < d \<Longrightarrow> port (m ! cyc (length m) (home (length m) (port (m ! i))) d') \<noteq> kFreePort"
    unfolding reach_def by blast
  then have "port (m[j := e] ! cyc (length m) (home (length m) (port (m ! i))) d') \<noteq> kFreePort"
    if "d' < d" for d' using that assms(3,4) by (auto simp: nth_list_update)
  with d assms(2) show ?thesis unfolding reach_def by auto
qed

lemma table_ok_insert:
  assumes "table_ok m" "i < length m" "\<not> live (m ! i)" "live e" "0 < port e"
    "contents m (port e) = None"
    "cyc (length m) (home (length m) (port e)) d = i" "d < length m"
    "\<And>d'. d' < d \<Longrightarrow> port (m ! cyc (length m) (home (length m) (port e)) d') \<noteq> kFreePort"
  shows "table_ok (m[i := e])"
proof -
  have "reach (m[i := e]) i"
    using assms(2,7,8,9) assms(4) unfolding reach_def by (auto simp: nth_list_update live_def)
  moreover have "reach (m[i := e]) j" if "j < length m" "live (m ! j)" for j
    using that assms(1,2,3,4) reach_update [of m j i e] by (auto simp: table_ok_def live_def)
  moreover have "port (m ! j) \<noteq> port e" if "j < length m" "live (m ! j)" for j
    using assms(6) that by (simp add: contents_None)
  ultimately show ?thesis
    using assms(1-5) unfolding table_ok_def by (auto simp: nth_list_update) metis
qed

lemma contents_insert:
  assumes "table_ok m" "table_ok (m[i := e])" "i < length m" "\<not> live (m ! i)" "live e"
  shows "contents (m[i := e]) = (contents m)(port e \<mapsto> content e)"
proof
  fix p
  show "contents (m[i := e]) p = ((contents m)(port e \<mapsto> content e)) p"
  proof (cases "p = port e")
    case True
    with assms show ?thesis by (simp add: contents_Some) (metis nth_list_update_eq)
  next
    case False
    have "contents (m[i := e]) p = Some v \<longleftrightarrow> contents m p = Some v" for v
      using assms False by (auto simp: contents_Some nth_list_update)
    with False show ?thesis by (metis fun_upd_other not_Some_eq)
  qed
qed

lemma table_ok_delete:
  assumes "table_ok m" "i < length m" "port e = kDeletedPort"
  shows "table_ok (m[i := e])"
proof -
  have "\<not> live e" using assms(3) by (simp add: live_def)
  moreover have "reach (m[i := e]) j" if "j < length m" "live (m ! j)" "j \<noteq> i" for j
    using that assms reach_update [of m j i e] by (auto simp: table_ok_def)
  ultimately show ?thesis
    using assms unfolding table_ok_def by (auto simp: nth_list_update split: if_splits)
qed

lemma contents_delete:
  assumes "table_ok m" "i < length m" "live (m ! i)" "port e = kDeletedPort"
  shows "contents (m[i := e]) = (contents m)(port (m ! i) := None)"
proof
  fix p
  have e: "\<not> live e" using assms(4) by (simp add: live_def)
  have ok: "table_ok (m[i := e])" using assms by (simp add: table_ok_delete)
  show "contents (m[i := e]) p = ((contents m)(port (m ! i) := None)) p"
  proof (cases "p = port (m ! i)")
    case True
    with assms e show ?thesis
      by (auto simp: contents_None nth_list_update table_ok_def)
  next
    case False
    have "contents (m[i := e]) p = Some v \<longleftrightarrow> contents m p = Some v" for v
      using assms(1,2,3) ok e False by (auto simp: contents_Some nth_list_update)
    with False show ?thesis by (metis fun_upd_other not_Some_eq)
  qed
qed


section \<open>Lookup\<close>

lemmas find_loop_at = find.loop_at [where t = "(ps, p)" for ps p, simplified fst_conv snd_conv]

lemmas find_loop_returns =
  find.loop_returns [where t = "(ps, p)" for ps p, simplified fst_conv snd_conv]

lemma tmod_home:
  assumes "0 < p" "0 < n"
  shows "tmod p (int n) = int (home n p)" "\<not> tmod p (int n) < 0" "nat (tmod p (int n)) = home n p"
  using assms pos_mod_sign [of "int n" p] by (simp_all add: home_def not_less)

lemma port_set_okD:
  assumes "port_set_ok ps"
  shows "table_ok (ps_map ps)" "ps_capacity ps = length (ps_map ps)" "0 < length (ps_map ps)"
  using assms by (auto simp: port_set_ok_def counters_ok_def table_ok_def)

lemma find_loop_hit:
  assumes ok: "table_ok (ps_map ps)" and cap: "ps_capacity ps = length (ps_map ps)"
    and i: "i < length (ps_map ps)" and live: "live (ps_map ps ! i)"
  shows "find_loop ps (port (ps_map ps ! i)) (home (ps_capacity ps) (port (ps_map ps ! i))) = Some (int i)"
proof -
  let ?m = "ps_map ps" and ?p = "port (ps_map ps ! i)"
  let ?c = "cyc (length ?m) (home (length ?m) ?p)"
  obtain d where d: "d < length ?m" "?c d = i" "\<And>d'. d' < d \<Longrightarrow> port (?m ! ?c d') \<noteq> kFreePort"
    using live_home_path [OF ok i live] by blast
  have pos: "0 < length ?m" using i by linarith
  have other: "port (?m ! ?c d') \<noteq> ?p" if "d' < d" for d'
  proof
    assume eq: "port (?m ! ?c d') = ?p"
    with live have "live (?m ! ?c d')" by (simp add: live_def)
    with eq i live ok pos have "?c d' = i" by (simp add: table_ok_def)
    with d that have "d' = d" by (intro cyc_inj [of d' "length ?m" d "home (length ?m) ?p"]) auto
    with that show False by simp
  qed
  have "find_loop ps ?p (home (length ?m) ?p) =
        Some (if port (?m ! ?c d) = kFreePort then - 1 else int (?c d))"
    using find_loop_at [of "home (length ?m) ?p" ps d ?p] d other pos cap by simp
  with d(2) live cap show ?thesis by (simp add: live_def)
qed

lemma FindIndexOfPort_hit:
  assumes "port_set_ok ps" "i < ps_capacity ps" "live (ps_map ps ! i)"
  shows "FindIndexOfPort ps (port (ps_map ps ! i)) = ret (int i)"
proof -
  have "0 < port (ps_map ps ! i)" "i < length (ps_map ps)"
    using assms by (auto simp: port_set_ok_def counters_ok_def table_ok_def)
  with assms port_set_okD [OF assms(1)] find_loop_hit [of ps i] show ?thesis
    by (simp add: FindIndexOfPort_def ILLEGAL_PORT_def Let_def tmod_home del: tmod_nonneg)
qed

lemma FindIndexOfPort_miss:
  assumes ok: "port_set_ok ps" and "0 < p" "p \<noteq> kDeletedPort" and none: "as_map ps p = None"
  shows "FindIndexOfPort ps p = ret (- 1)"
proof -
  let ?m = "ps_map ps" and ?n = "ps_capacity ps"
  note D = port_set_okD [OF ok]
  have n: "0 < ?n" using D by simp
  have start: "home ?n p < ?n" using n by simp
  obtain j where j: "j < ?n" "port (?m ! j) = kFreePort"
    using ok D by (auto simp: port_set_ok_def)
  obtain d where d: "find_loop ps p (home ?n p) =
      Some (if port (?m ! cyc ?n (home ?n p) d) = kFreePort then - 1 else int (cyc ?n (home ?n p) d))"
    "port (?m ! cyc ?n (home ?n p) d) = kFreePort \<or> port (?m ! cyc ?n (home ?n p) d) = p"
    using find_loop_returns [OF start j(1), of p] j(2) by blast
  have "cyc ?n (home ?n p) d < length ?m" using n D(2) by (metis cyc_less)
  moreover have "live e" if "port e = p" for e :: "'a entry"
    using that assms(2,3) by (simp add: live_def kFreePort_def)
  ultimately have "port (?m ! cyc ?n (home ?n p) d) \<noteq> p"
    using none by (auto simp: as_map_def contents_None)
  with d have "find_loop ps p (home ?n p) = Some (- 1)" by simp
  with assms(2) n show ?thesis
    by (simp add: FindIndexOfPort_def ILLEGAL_PORT_def Let_def tmod_home del: tmod_nonneg)
qed

lemma TryLookup_hit:
  assumes "port_set_ok ps" "as_map ps p = Some v"
  obtains i where "TryLookup ps p = ret i" "i < ps_capacity ps" "live (ps_map ps ! i)"
    "port (ps_map ps ! i) = p" "content (ps_map ps ! i) = v"
proof -
  note D = port_set_okD [OF assms(1)]
  from assms(2) obtain i where i: "i < length (ps_map ps)" "live (ps_map ps ! i)"
      "port (ps_map ps ! i) = p" "content (ps_map ps ! i) = v"
    by (auto simp: as_map_def contents_Some [OF D(1)])
  with FindIndexOfPort_hit [OF assms(1), of i] D show ?thesis
    by (intro that [of i]) (simp_all add: TryLookup_def)
qed

lemma TryLookup_miss:
  assumes "port_set_ok ps" "0 \<le> p" "p \<noteq> kDeletedPort" "as_map ps p = None"
  shows "TryLookup ps p = ret (end_iter ps)"
proof (cases "p = 0")
  case True
  then show ?thesis by (simp add: TryLookup_def FindIndexOfPort_def ILLEGAL_PORT_def end_iter_def)
next
  case False
  with assms FindIndexOfPort_miss [OF assms(1), of p] show ?thesis
    by (simp add: TryLookup_def end_iter_def)
qed

lemma Contains_iff:
  assumes "port_set_ok ps" "0 \<le> p" "p \<noteq> kDeletedPort"
  shows "Contains ps p = ret (as_map ps p \<noteq> None)"
proof (cases "as_map ps p")
  case None
  show ?thesis
  proof (cases "p = 0")
    case True
    with None show ?thesis by (simp add: Contains_def FindIndexOfPort_def ILLEGAL_PORT_def)
  next
    case False
    with assms None FindIndexOfPort_miss [OF assms(1), of p] show ?thesis
      by (simp add: Contains_def)
  qed
next
  case (Some v)
  note D = port_set_okD [OF assms(1)]
  from Some obtain i where "i < length (ps_map ps)" "live (ps_map ps ! i)" "port (ps_map ps ! i) = p"
    by (auto simp: as_map_def contents_Some [OF D(1)])
  with FindIndexOfPort_hit [OF assms(1), of i] D Some show ?thesis by (simp add: Contains_def)
qed

text \<open>The deleted marker itself: the walk from its home cell meets a deleted cell before a free one.\<close>

definition marker_visible :: "'v port_set \<Rightarrow> bool" where
  "marker_visible ps \<longleftrightarrow>
     (\<exists>d<ps_capacity ps. port (ps_map ps ! cyc (ps_capacity ps) (home (ps_capacity ps) kDeletedPort) d) = kDeletedPort \<and>
       (\<forall>d'<d. port (ps_map ps ! cyc (ps_capacity ps) (home (ps_capacity ps) kDeletedPort) d') \<noteq> kFreePort))"

lemma FindIndexOfPort_marker:
  assumes ok: "port_set_ok ps"
  obtains i where "FindIndexOfPort ps kDeletedPort = ret i" "i < int (ps_capacity ps)" "0 \<le> i \<longleftrightarrow> marker_visible ps"
    "0 \<le> i \<Longrightarrow> port (ps_map ps ! nat i) = kDeletedPort"
proof -
  let ?m = "ps_map ps" and ?n = "ps_capacity ps"
  let ?c = "cyc ?n (home ?n kDeletedPort)"
  note D = port_set_okD [OF ok]
  have n: "0 < ?n" using D by simp
  then have start: "home ?n kDeletedPort < ?n" by simp
  obtain j where j: "j < ?n" "port (?m ! j) = kFreePort"
    using ok D by (auto simp: port_set_ok_def)
  obtain d where d: "d < ?n" "find_loop ps kDeletedPort (home ?n kDeletedPort) =
        Some (if port (?m ! ?c d) = kFreePort then - 1 else int (?c d))"
      "port (?m ! ?c d) = kFreePort \<or> port (?m ! ?c d) = kDeletedPort"
      "\<And>d'. d' < d \<Longrightarrow> port (?m ! ?c d') \<noteq> kFreePort \<and> port (?m ! ?c d') \<noteq> kDeletedPort"
    using find_loop_returns [OF start j(1), of kDeletedPort] j(2) by (metis (no_types, lifting))
  let ?i = "if port (?m ! ?c d) = kFreePort then - 1 else int (?c d)"
  have run: "FindIndexOfPort ps kDeletedPort = ret ?i"
    using d(2) n tmod_home [of kDeletedPort ?n]
    by (simp add: FindIndexOfPort_def ILLEGAL_PORT_def Let_def kDeletedPort_def del: tmod_nonneg)
  have vis: "port (?m ! ?c d) = kDeletedPort \<longleftrightarrow> marker_visible ps"
  proof
    assume "marker_visible ps"
    then obtain k where k: "port (?m ! ?c k) = kDeletedPort" "\<forall>d'<k. port (?m ! ?c d') \<noteq> kFreePort"
      unfolding marker_visible_def by blast
    have "d \<le> k" using d(4) [of k] k(1) by (cases "k < d") auto
    with k d(3) show "port (?m ! ?c d) = kDeletedPort" by (cases "d = k") auto
  qed (use d in \<open>auto simp: marker_visible_def\<close>)
  then have "0 \<le> ?i \<longleftrightarrow> marker_visible ps"
    using d(3) by auto
  with run n d(3) show thesis
    by (intro that [of ?i]) (auto simp: of_nat_less_iff split: if_splits)
qed

lemma no_marker:
  assumes "port_set_ok ps" and "ps_deleted ps = 0"
  shows "\<not> marker_visible ps"
proof -
  note D = port_set_okD [OF assms(1)]
  have "filter (\<lambda>e. port e = kDeletedPort) (ps_map ps) = []"
    using assms by (simp add: port_set_ok_def counters_ok_def)
  then have "port e \<noteq> kDeletedPort" if "e \<in> set (ps_map ps)" for e
    using that by (auto simp: filter_empty_conv)
  moreover have "ps_map ps ! cyc (ps_capacity ps) h d \<in> set (ps_map ps)" for h d
    using D(2,3) by (metis cyc_less nth_mem)
  ultimately show ?thesis
    unfolding marker_visible_def by blast
qed

lemma Contains_marker: "port_set_ok ps \<Longrightarrow> Contains ps kDeletedPort = ret (marker_visible ps)"
  by (rule FindIndexOfPort_marker [of ps]) (simp_all add: Contains_def)

lemma TryLookup_marker:
  assumes "port_set_ok ps"
  shows "returns (TryLookup ps kDeletedPort) (\<lambda>it. (it \<noteq> end_iter ps \<longleftrightarrow> marker_visible ps) \<and>
           (it \<noteq> end_iter ps \<longrightarrow> returns (deref ps it) (\<lambda>e. port e = kDeletedPort)))"
  using assms by (rule FindIndexOfPort_marker)
    (auto simp: TryLookup_def end_iter_def deref_def nat_less_iff)

section \<open>Rehashing\<close>

lemma seek_live_between: "i \<le> k \<Longrightarrow> k < seek_live ps i \<Longrightarrow> k < ps_capacity ps \<Longrightarrow> \<not> live (ps_map ps ! k)"
proof (induction ps i rule: seek_live.induct)
  case (1 ps i)
  note unf = seek_live.simps [of ps i]
  show ?case
  proof (cases "i < ps_capacity ps \<and> \<not> live (ps_map ps ! i)")
    case True
    with unf have "seek_live ps i = seek_live ps (i + 1)" by (auto simp: live_def)
    with "1.IH" "1.prems" True show ?thesis by (cases "k = i") (auto simp: live_def)
  next
    case False
    with unf "1.prems" show ?thesis by (auto simp: live_def split: if_splits)
  qed
qed

lemma seek_live_live: "seek_live ps i < ps_capacity ps \<Longrightarrow> live (ps_map ps ! seek_live ps i)"
proof (induction ps i rule: seek_live.induct)
  case (1 ps i)
  note unf = seek_live.simps [of ps i]
  show ?case
  proof (cases "i < ps_capacity ps \<and> \<not> live (ps_map ps ! i)")
    case True
    with unf have "seek_live ps i = seek_live ps (i + 1)" by (auto simp: live_def)
    with "1.IH" "1.prems" True show ?thesis by (auto simp: live_def)
  next
    case False
    with unf have "seek_live ps i = i" by (auto simp: live_def)
    with False "1.prems" show ?thesis by auto
  qed
qed

lemma seek_live_le: "i \<le> ps_capacity ps \<Longrightarrow> seek_live ps i \<le> ps_capacity ps"
proof (induction ps i rule: seek_live.induct)
  case (1 ps i)
  then show ?case by (subst seek_live.simps) auto
qed

lemma contents_snoc:
  "contents (xs @ [e]) p =
     (case contents xs p of None \<Rightarrow> (if live e \<and> port e = p then Some (content e) else None)
      | Some v \<Rightarrow> Some v)"
  by (induction xs) (auto simp: contents_def)

lemma contents_Nil [simp]: "contents [] = Map.empty"
  by (auto simp: contents_def)

lemma take_skip:
  assumes "i \<le> j" "j \<le> length m" "\<And>k. i \<le> k \<Longrightarrow> k < j \<Longrightarrow> \<not> live (m ! k)"
  shows "contents (take j m) = contents (take i m)" "n_live (take j m) = n_live (take i m)"
  using assms
proof (induction j)
  case 0
  { case 1 then show ?case by simp next case 2 then show ?case by simp }
next
  case (Suc j)
  { case 1 then show ?case using Suc.IH
      by (cases "i = Suc j") (auto simp: take_Suc_conv_app_nth contents_snoc split: option.splits)
  next
    case 2 then show ?case using Suc.IH
      by (cases "i = Suc j") (auto simp: take_Suc_conv_app_nth) }
qed


lemma place_ok:
  assumes "table_ok m" "\<exists>i<length m. port (m ! i) = kFreePort" "live e" "0 < port e"
    "contents m (port e) = None"
  obtains j where "place_loop m (home (length m) (port e)) = Some j" "j < length m"
    "port (m ! j) = kFreePort" "table_ok (m[j := e])"
    "contents (m[j := e]) = (contents m)(port e \<mapsto> content e)"
proof -
  let ?h = "home (length m) (port e)"
  have n: "0 < length m" using assms(1) by (simp add: table_ok_def)
  obtain i where i: "i < length m" "port (m ! i) = 0"
    using assms(2) by (auto simp: kFreePort_def)
  obtain d where d: "d < length m" "place_loop m ?h = Some (cyc (length m) ?h d)"
      "port (m ! cyc (length m) ?h d) = 0"
      "\<And>d'. d' < d \<Longrightarrow> port (m ! cyc (length m) ?h d') \<noteq> 0"
    using plc.loop_returns [OF home_less [OF n] i] by blast
  let ?j = "cyc (length m) ?h d"
  have j: "?j < length m" "\<not> live (m ! ?j)" using n d by (simp_all add: live_def kFreePort_def)
  have "table_ok (m[?j := e])"
    using assms j d by (intro table_ok_insert [where d = d]) (auto simp: kFreePort_def)
  with assms j d contents_insert [of m ?j e] show ?thesis
    by (intro that [of ?j]) (simp_all add: kFreePort_def)
qed

lemma free_cell_exists:
  assumes "n_live m < length m" "\<forall>e\<in>set m. port e \<noteq> kDeletedPort"
  shows "\<exists>i<length m. port (m ! i) = kFreePort"
proof -
  from assms(1) have "\<exists>e\<in>set m. \<not> live e"
    by (metis filter_True less_irrefl)
  with assms(2) show ?thesis by (metis in_set_conv_nth live_def)
qed

lemma n_live_insert:
  assumes "j < length m" "\<not> live (m ! j)" "live e"
  shows "n_live (m[j := e]) = Suc (n_live m)"
  using length_filter_update [OF assms(1), of live e] assms(2,3) by simp

lemma rehash_loop_ok:
  assumes "table_ok (ps_map ps)" "ps_capacity ps = length (ps_map ps)"
    "n_live (ps_map ps) < c" "length new = c" "table_ok new"
    "\<forall>e\<in>set new. port e \<noteq> kDeletedPort"
    "i \<le> ps_capacity ps" "i < ps_capacity ps \<Longrightarrow> live (ps_map ps ! i)"
    "contents new = contents (take i (ps_map ps))" "n_live new = n_live (take i (ps_map ps))"
  shows "returns (rehash_loop ps c i new) (\<lambda>m. length m = c \<and> table_ok m \<and>
    (\<forall>e\<in>set m. port e \<noteq> kDeletedPort) \<and> contents m = contents (ps_map ps) \<and>
    n_live m = n_live (ps_map ps))"
  using assms
proof (induction ps c i new rule: rehash_loop.induct)
  case (1 ps c i new)
  let ?m = "ps_map ps"
  note unf = rehash_loop.simps [of ps c i new]
  show ?case
  proof (cases "i < end_iter ps")
    case False
    with "1.prems" unf show ?thesis by (simp add: end_iter_def)
  next
    case True
    let ?e = "?m ! i"
    have i: "i < length ?m" "live ?e" using True "1.prems" by (simp_all add: end_iter_def)
    then have pos: "0 < port ?e" using "1.prems"(1) by (simp add: table_ok_def)
    have c: "0 < c" using "1.prems"(4,5) by (auto simp: table_ok_def)
    have fresh: "contents new (port ?e) = None"
    proof -
      have "port (take i ?m ! k) \<noteq> port ?e" if "k < length (take i ?m)" "live (take i ?m ! k)" for k
        using that i "1.prems"(1) unfolding table_ok_def by (metis length_take less_irrefl min_less_iff_conj nth_take)
      then show ?thesis by (simp add: "1.prems"(9) contents_None)
    qed
    have snoc: "take (Suc i) ?m = take i ?m @ [?e]" using i by (simp add: take_Suc_conv_app_nth)
    have "n_live (take (Suc i) ?m) \<le> n_live ?m"
      by (metis append_take_drop_id filter_append le_add1 length_append)
    then have "n_live new < length new"
      using "1.prems"(3,4,10) i by (simp add: snoc)
    then have free: "\<exists>i<length new. port (new ! i) = kFreePort"
      using "1.prems"(6) by (rule free_cell_exists)
    obtain j where j: "place_loop new (home (length new) (port ?e)) = Some j" "j < length new"
        "port (new ! j) = kFreePort" "table_ok (new[j := ?e])"
        "contents (new[j := ?e]) = (contents new)(port ?e \<mapsto> content ?e)"
      using place_ok [OF "1.prems"(5) free i(2) pos fresh] .
    let ?i' = "next_iter ps i" and ?new = "new[j := ?e]"
    have i': "Suc i \<le> ?i'" "?i' \<le> length ?m"
      using next_iter_gt [of i ps] seek_live_le [of "i + 1" ps] i "1.prems"(2)
      by (simp_all add: next_iter_def)
    have skip: "contents (take ?i' ?m) = contents (take (Suc i) ?m)"
      "n_live (take ?i' ?m) = n_live (take (Suc i) ?m)"
      using i' seek_live_between [of "i + 1" _ ps] "1.prems"(2)
      by (auto intro!: take_skip simp: next_iter_def)
    have "returns (rehash_loop ps c ?i' ?new) (\<lambda>m. length m = c \<and> table_ok m \<and>
      (\<forall>e\<in>set m. port e \<noteq> kDeletedPort) \<and> contents m = contents ?m \<and> n_live m = n_live ?m)"
    proof (rule "1.IH" [OF True refl refl])
      show "\<not> tmod (port (?m ! i)) (int c) < 0" using tmod_home [OF pos c] by simp
      show "place_loop new (nat (tmod (port (?m ! i)) (int c))) = Some j"
        using j(1) tmod_home [OF pos c] "1.prems"(4) by simp
      show "\<forall>e\<in>set ?new. port e \<noteq> kDeletedPort"
        using "1.prems"(6) i(2) set_update_subset_insert [of new j ?e] by (auto simp: live_def)
      show "?i' < ps_capacity ps \<Longrightarrow> live (?m ! ?i')"
        using seek_live_live [of ps "i + 1"] by (simp add: next_iter_def)
      show "contents ?new = contents (take ?i' ?m)"
        using j(5) "1.prems"(9) fresh i(2)
        by (auto simp: skip(1) snoc contents_snoc fun_eq_iff split: option.splits)
      show "n_live ?new = n_live (take ?i' ?m)"
        using n_live_insert [OF j(2), of ?e] j(3) i(2) "1.prems"(10)
        by (simp add: skip(2) snoc live_def [of "new ! j"])
    qed (use "1.prems" j i' in auto)
    with True unf j(1) tmod_home [OF pos c] "1.prems"(4) show ?thesis by simp
  qed
qed


lemma empty_table:
  assumes "0 < n"
  shows "table_ok (replicate n (default_entry dv))"
    "contents (replicate n (default_entry dv)) = Map.empty"
    "n_live (replicate n (default_entry dv)) = 0"
    "\<forall>e\<in>set (replicate n (default_entry dv)). port e \<noteq> kDeletedPort"
proof -
  show "table_ok (replicate n (default_entry dv))" using assms by (auto simp: table_ok_def)
  show "contents (replicate n (default_entry dv)) = Map.empty"
    by (auto simp: fun_eq_iff contents_None)
qed (auto simp: default_entry_def live_def)

lemma n_deleted_0: "\<forall>e\<in>set m. port e \<noteq> kDeletedPort \<Longrightarrow> n_deleted m = 0"
  by (simp add: filter_empty_conv)

lemma n_live_le: "n_live m \<le> length m"
  by simp

lemma cell_count: "n_live m + n_deleted m + n_free m = length m"
  by (rule length_filter_partition3) (auto simp: live_def)

lemma Rehash_ok:
  assumes "counters_ok ps" "n_live (ps_map ps) < c" "8 dvd c"
  shows "returns (Rehash dv ps c) (\<lambda>ps'. port_set_ok ps' \<and> as_map ps' = as_map ps \<and>
    ps_capacity ps' = c \<and> ps_used ps' = ps_used ps \<and> ps_deleted ps' = 0)"
proof -
  let ?m = "ps_map ps"
  have c: "0 < c" using assms(2) by simp
  have D: "table_ok ?m" "ps_capacity ps = length ?m"
    using assms(1) by (simp_all add: counters_ok_def)
  let ?b = "begin_iter ps" and ?new = "replicate c (default_entry dv)"
  have b: "?b \<le> ps_capacity ps" "?b < ps_capacity ps \<Longrightarrow> live (?m ! ?b)"
    using seek_live_le [of 0 ps] seek_live_live [of ps 0] by (simp_all add: begin_iter_def)
  have before: "\<not> live (?m ! k)" if "k < ?b" for k
    using seek_live_between [of 0 k ps] that b(1) by (simp add: begin_iter_def)
  have skip: "contents (take ?b ?m) = Map.empty" "n_live (take ?b ?m) = 0"
    using take_skip [of 0 ?b ?m] before b(1) D(2) by simp_all
  have "returns (rehash_loop ps c ?b ?new) (\<lambda>m.
    length m = c \<and> table_ok m \<and> (\<forall>e\<in>set m. port e \<noteq> kDeletedPort) \<and>
    contents m = contents ?m \<and> n_live m = n_live ?m)"
    by (rule rehash_loop_ok)
      (use D b skip assms(2) empty_table [OF c, of dv] in \<open>simp_all only: length_replicate\<close>)
  then obtain m where m: "rehash_loop ps c ?b ?new = ret m" "length m = c" "table_ok m"
      "\<forall>e\<in>set m. port e \<noteq> kDeletedPort" "contents m = contents ?m" "n_live m = n_live ?m"
    by (rule returnsE) simp
  have "\<exists>i<length m. port (m ! i) = kFreePort"
    using m assms(2) by (intro free_cell_exists) simp_all
  with m assms(1,3) show ?thesis
    by (simp add: Rehash_def port_set_ok_def counters_ok_def as_map_def n_deleted_0)
qed

lemma MaintainInvariants_ok:
  assumes "counters_ok ps"
  shows "returns (MaintainInvariants dv ps) (\<lambda>ps'. port_set_ok ps' \<and> balanced ps' \<and> as_map ps' = as_map ps)"
proof -
  let ?m = "ps_map ps" and ?n = "ps_capacity ps"
  have n: "?n = length ?m" "8 dvd ?n" "0 < ?n"
    and cnt: "ps_used ps = int (n_live ?m)" "ps_deleted ps = int (n_deleted ?m)"
    using assms by (auto simp: counters_ok_def table_ok_def)
  obtain k where k: "?n = 8 * k" using n(2) by (auto elim: dvdE)
  have le: "n_live ?m \<le> ?n" using n(1) n_live_le by metis
  consider (grow) "ps_used ps > int ((?n div 4) * 3)"
    | (flush) "\<not> ps_used ps > int ((?n div 4) * 3)" "int ?n - ps_used ps - ps_deleted ps < ps_deleted ps"
    | (keep) "balanced ps" unfolding balanced_def by linarith
  then show ?thesis
  proof cases
    case grow
    have "n_live ?m < ?n * 2" "8 dvd ?n * 2" using le n by (linarith, simp)
    from Rehash_ok [OF assms this, of dv] obtain ps' where ps': "Rehash dv ps (?n * 2) = ret ps'"
        "port_set_ok ps'" "as_map ps' = as_map ps" "ps_capacity ps' = ?n * 2"
        "ps_used ps' = ps_used ps" "ps_deleted ps' = 0"
      by (rule returnsE) simp
    have "balanced ps'"
      unfolding balanced_def ps'(4-6) cnt(1) using le k by simp
    with ps' grow show ?thesis by (simp add: MaintainInvariants_def)
  next
    case flush
    have "n_live ?m < ?n" using flush(1) cnt k n(3) by simp
    from Rehash_ok [OF assms this n(2), of dv] obtain ps' where ps': "Rehash dv ps ?n = ret ps'"
        "port_set_ok ps'" "as_map ps' = as_map ps" "ps_capacity ps' = ?n"
        "ps_used ps' = ps_used ps" "ps_deleted ps' = 0"
      by (rule returnsE) simp
    have "balanced ps'"
      unfolding balanced_def ps'(4-6) using flush(1) le cnt by simp
    with ps' flush show ?thesis by (simp add: MaintainInvariants_def)
  next
    case keep
    have "int (n_live ?m) \<le> int (6 * k)" "2 * int (n_deleted ?m) \<le> int (8 * k) - int (n_live ?m)"
      using keep cnt k by (simp_all add: balanced_def)
    then have "0 < n_free ?m"
      using k n(1,3) cell_count [of ?m] by linarith
    then have "port_set_ok ps"
      using assms unfolding port_set_ok_def length_filter_pos_nth by blast
    with keep show ?thesis by (simp add: MaintainInvariants_def balanced_def)
  qed
qed

section \<open>Insertion and deletion implement map update\<close>

lemma PortSet_ok: "port_set_ok (PortSet dv)" "balanced (PortSet dv)" "as_map (PortSet dv) = Map.empty"
proof -
  have "0 < kInitialCapacity" by (simp add: kInitialCapacity_def)
  note E = empty_table [OF this, of dv]
  show "port_set_ok (PortSet dv)"
    using E free_cell_exists [OF _ E(4)]
    by (simp add: port_set_ok_def counters_ok_def PortSet_def n_deleted_0)
      (simp add: kInitialCapacity_def)
  show "balanced (PortSet dv)" by (simp add: balanced_def PortSet_def kInitialCapacity_def)
  show "as_map (PortSet dv) = Map.empty" using E by (simp add: as_map_def PortSet_def)
qed

lemma Insert_ok:
  assumes ok: "port_set_ok ps" and e: "0 < port e" "port e \<noteq> kDeletedPort"
    and fresh: "as_map ps (port e) = None"
  shows "returns (Insert dv ps e) (\<lambda>ps'. port_set_ok ps' \<and> balanced ps' \<and>
    as_map ps' = (as_map ps)(port e \<mapsto> content e))"
proof -
  let ?m = "ps_map ps" and ?n = "ps_capacity ps"
  note D = port_set_okD [OF ok]
  have n: "0 < ?n" using D by simp
  have live: "live e" using e by (simp add: live_def kFreePort_def)
  obtain f where f: "f < ?n" "\<not> live (?m ! f)"
    using ok D by (auto simp: port_set_ok_def live_def)
  obtain d where d: "d < ?n" "insert_loop ps (home ?n (port e)) = Some (cyc ?n (home ?n (port e)) d)"
      "\<not> live (?m ! cyc ?n (home ?n (port e)) d)"
      "\<And>d'. d' < d \<Longrightarrow> \<not> \<not> live (?m ! cyc ?n (home ?n (port e)) d')"
    using ins.loop_returns [OF home_less [OF n, of "port e"] f(1,2)] by blast
  let ?i = "cyc ?n (home ?n (port e)) d" and ?s = "if port (?m ! cyc ?n (home ?n (port e)) d) = kDeletedPort then ps\<lparr>ps_deleted := ps_deleted ps - 1\<rparr> else ps"
  have i: "?i < length ?m" using n D by (metis cyc_less)
  have tbl: "table_ok (?m[?i := e])"
    using D i d live e fresh by (intro table_ok_insert [where d = d]) (auto simp: as_map_def live_def)
  have "counters_ok (?s\<lparr>ps_map := ?m[?i := e], ps_used := ps_used ps + 1\<rparr>)"
    using ok tbl i d(3) live length_filter_update [OF i, of live e]
      length_filter_update [OF i, of "\<lambda>e. port e = kDeletedPort" e]
    by (auto simp: port_set_ok_def counters_ok_def live_def)
  from MaintainInvariants_ok [OF this, of dv]
  have "returns (MaintainInvariants dv (?s\<lparr>ps_map := ?m[?i := e], ps_used := ps_used ps + 1\<rparr>))
    (\<lambda>ps'. port_set_ok ps' \<and> balanced ps' \<and> as_map ps' = (as_map ps)(port e \<mapsto> content e))"
    using contents_insert [OF D(1) tbl i d(3) live] by (simp add: as_map_def)
  moreover have "Insert dv ps e =
      MaintainInvariants dv (?s\<lparr>ps_map := ?m[?i := e], ps_used := ps_used ps + 1\<rparr>)"
    using tmod_home [OF e(1) n] d(2) by (simp add: Insert_def Let_def)
  ultimately show ?thesis by simp
qed

lemma Delete_ok:
  assumes ok: "port_set_ok ps" and i: "i < ps_capacity ps" "live (ps_map ps ! i)"
  shows "returns (Delete dv ps i) (\<lambda>ps'. port_set_ok ps' \<and>
    as_map ps' = (as_map ps)(port (ps_map ps ! i) := None) \<and> ps_capacity ps' = ps_capacity ps \<and>
    (\<forall>j. j \<noteq> i \<longrightarrow> ps_map ps' ! j = ps_map ps ! j) \<and> \<not> live (ps_map ps' ! i))"
proof -
  let ?m = "ps_map ps" and ?e = "(default_entry dv)\<lparr>port := kDeletedPort\<rparr>"
  note D = port_set_okD [OF ok]
  have i': "i < length ?m" using i D by simp
  have tbl: "table_ok (?m[i := ?e])" using D i' by (intro table_ok_delete) auto
  have cnt: "counters_ok (ps\<lparr>ps_map := ?m[i := ?e], ps_used := ps_used ps - 1, ps_deleted := ps_deleted ps + 1\<rparr>)"
    using ok tbl i(2) length_filter_update [OF i', of live ?e]
      length_filter_update [OF i', of "\<lambda>e. port e = kDeletedPort" ?e]
    by (auto simp: port_set_ok_def counters_ok_def live_def)
  obtain f where f: "f < length ?m" "port (?m ! f) = kFreePort"
    using ok by (auto simp: port_set_ok_def)
  moreover have "f \<noteq> i" using f i(2) by (auto simp: live_def)
  ultimately have "\<exists>f<length ?m. port (?m[i := ?e] ! f) = kFreePort"
    by (intro exI [of _ f]) simp
  with cnt have "port_set_ok (ps\<lparr>ps_map := ?m[i := ?e], ps_used := ps_used ps - 1, ps_deleted := ps_deleted ps + 1\<rparr>)"
    by (auto simp: port_set_ok_def)
  with i i' contents_delete [OF D(1) i' i(2), of ?e] show ?thesis
    by (simp add: Delete_def delete_cell_def as_map_def)
qed

lemma store_ok:
  assumes ok: "port_set_ok ps" and i: "i < ps_capacity ps" "live (ps_map ps ! i)"
  shows "port_set_ok (store ps i v)" and "balanced (store ps i v) = balanced ps"
    and "as_map (store ps i v) = (as_map ps)(port (ps_map ps ! i) \<mapsto> v)"
proof -
  let ?m = "ps_map ps" and ?e = "(ps_map ps ! i)\<lparr>content := v\<rparr>"
  note D = port_set_okD [OF ok]
  have i': "i < length ?m" using i D by simp
  have port_eq [simp]: "port (?m[i := ?e] ! j) = port (?m ! j)" for j
    using i' by (cases "j = i") simp_all
  have live_eq [simp]: "live (?m[i := ?e] ! j) = live (?m ! j)" for j
    by (simp add: live_def)
  have tbl: "table_ok (?m[i := ?e])"
    using D(1) by (simp add: table_ok_def reach_def)
  have "live ?e = live (?m ! i)" "port ?e = port (?m ! i)"
    by (simp_all add: live_def)
  then have "counters_ok (store ps i v)"
    using ok tbl length_filter_update [OF i', of live ?e]
      length_filter_update [OF i', of "\<lambda>e. port e = kDeletedPort" ?e]
    by (auto simp: port_set_ok_def counters_ok_def store_def)
  with ok show "port_set_ok (store ps i v)"
    by (simp add: port_set_ok_def store_def)
  show "balanced (store ps i v) = balanced ps"
    by (simp add: balanced_def store_def)
  have inj: "j = i" if "j < length ?m" "live (?m ! j)" "port (?m ! j) = port (?m ! i)" for j
    using D(1) i' i(2) that unfolding table_ok_def by blast
  have cell: "content (?m[i := ?e] ! j) = (if j = i then v else content (?m ! j))" for j
    using i' by simp
  have upd: "contents (?m[i := ?e]) q = Some u \<longleftrightarrow> (if q = port (?m ! i) then u = v else contents ?m q = Some u)" for q u
  proof (cases "q = port (?m ! i)")
    case True
    then show ?thesis
      unfolding contents_Some [OF tbl] port_eq live_eq cell length_list_update
      using inj i' i(2) by (auto intro: exI [of _ i])
  next
    case False
    then show ?thesis
      unfolding contents_Some [OF tbl] contents_Some [OF D(1)] port_eq live_eq cell length_list_update
      by auto
  qed
  have "contents (?m[i := ?e]) q = (if q = port (?m ! i) then Some v else contents ?m q)" for q
    using upd [of q v] upd [of q "the (contents ?m q)"] upd [of q "the (contents (?m[i := ?e]) q)"]
    by (cases "contents (?m[i := ?e]) q"; cases "contents ?m q"; cases "q = port (?m ! i)") simp_all
  then show "as_map (store ps i v) = (as_map ps)(port (?m ! i) \<mapsto> v)"
    by (simp add: fun_eq_iff as_map_def store_def)
qed

lemma finite_as_map: "finite (dom (as_map ps))"
proof (rule finite_subset)
  show "dom (as_map ps) \<subseteq> port ` set (ps_map ps)"
    by (auto simp: as_map_def contents_def find_Some_iff)
qed simp

lemma Rebalance_ok:
  assumes "port_set_ok ps"
  shows "returns (Rebalance dv ps) (\<lambda>ps'. port_set_ok ps' \<and> balanced ps' \<and> as_map ps' = as_map ps)"
  unfolding Rebalance_def by (rule MaintainInvariants_ok) (use assms in \<open>simp add: port_set_ok_def\<close>)


section \<open>The contract of a port table\<close>

text \<open>What the port map and the message handlers rely on: a port that is absent can be added, a port
  that is present can be removed, and both do to the table what the update of a finite map does.
  The client lemma is about whole sequences of such operations.\<close>

datatype 'v table_op = Put int 'v | Remove int

fun run_map :: "'v table_op list \<Rightarrow> (int \<rightharpoonup> 'v) \<Rightarrow> (int \<rightharpoonup> 'v)" where
  "run_map [] m = m"
| "run_map (Put p v # ops) m = run_map ops (m(p \<mapsto> v))"
| "run_map (Remove p # ops) m = run_map ops (m(p := None))"

fun legal_ops :: "'v table_op list \<Rightarrow> (int \<rightharpoonup> 'v) \<Rightarrow> bool" where
  "legal_ops [] m = True"
| "legal_ops (Put p v # ops) m =
     (0 < p \<and> p \<noteq> kDeletedPort \<and> m p = None \<and> legal_ops ops (m(p \<mapsto> v)))"
| "legal_ops (Remove p # ops) m = (m p \<noteq> None \<and> legal_ops ops (m(p := None)))"

fun run_table ::
  "('s \<Rightarrow> int \<Rightarrow> 'v \<Rightarrow> 's exec) \<Rightarrow> ('s \<Rightarrow> int \<Rightarrow> 's exec) \<Rightarrow> 'v table_op list \<Rightarrow> 's \<Rightarrow> 's exec" where
  "run_table put rem [] s = ret s"
| "run_table put rem (Put p v # ops) s = ebind (put s p v) (run_table put rem ops)"
| "run_table put rem (Remove p # ops) s = ebind (rem s p) (run_table put rem ops)"

locale port_table =
  fixes put :: "'s \<Rightarrow> int \<Rightarrow> 'v \<Rightarrow> 's exec"
    and rem :: "'s \<Rightarrow> int \<Rightarrow> 's exec"
    and alpha :: "'s \<Rightarrow> (int \<rightharpoonup> 'v)"
    and wf :: "'s \<Rightarrow> bool"
  assumes put_ok: "wf s \<Longrightarrow> 0 < p \<Longrightarrow> p \<noteq> kDeletedPort \<Longrightarrow> alpha s p = None \<Longrightarrow>
      returns (put s p v) (\<lambda>s'. wf s' \<and> alpha s' = (alpha s)(p \<mapsto> v))"
    and rem_ok: "wf s \<Longrightarrow> alpha s p = Some v \<Longrightarrow>
      returns (rem s p) (\<lambda>s'. wf s' \<and> alpha s' = (alpha s)(p := None))"
begin

lemma run_ok:
  "wf s \<Longrightarrow> legal_ops ops (alpha s) \<Longrightarrow>
   returns (run_table put rem ops s) (\<lambda>s'. wf s' \<and> alpha s' = run_map ops (alpha s))"
proof (induction ops arbitrary: s)
  case Nil
  then show ?case by simp
next
  case (Cons op ops)
  show ?case
  proof (cases op)
    case (Put p v)
    with Cons.prems put_ok [of s p v] obtain s' where s': "put s p v = ret s'" "wf s'"
        "alpha s' = (alpha s)(p \<mapsto> v)" by auto
    with Put Cons.prems have "legal_ops ops (alpha s')" by simp
    from Cons.IH [OF s'(2) this] show ?thesis
      unfolding Put run_table.simps s'(1) ebind_simps run_map.simps s'(3) .
  next
    case (Remove p)
    with Cons.prems rem_ok [of s p] obtain s' where s': "rem s p = ret s'" "wf s'"
        "alpha s' = (alpha s)(p := None)" by auto
    with Remove Cons.prems have "legal_ops ops (alpha s')" by simp
    from Cons.IH [OF s'(2) this] show ?thesis
      unfolding Remove run_table.simps s'(1) ebind_simps run_map.simps s'(3) .
  qed
qed

end

text \<open>The two client idioms of \<open>PortSet\<close>: adding an entry, and the sequence look up, delete through
  the iterator, rebalance.\<close>

definition put_port :: "'v \<Rightarrow> 'v port_set \<Rightarrow> int \<Rightarrow> 'v \<Rightarrow> 'v port_set exec" where
  "put_port dv ps p v = Insert dv ps \<lparr>port = p, content = v\<rparr>"

definition remove_port :: "'v \<Rightarrow> 'v port_set \<Rightarrow> int \<Rightarrow> 'v port_set exec" where
  "remove_port dv ps p =
     ebind (TryLookup ps p) (\<lambda>it. ebind (Delete dv ps it) (Rebalance dv))"

interpretation ps: port_table "put_port dv" "remove_port dv" as_map
  "\<lambda>ps. port_set_ok ps \<and> balanced ps" for dv
proof
  fix s :: "'a port_set" and p v
  assume "port_set_ok s \<and> balanced s" "0 < p" "p \<noteq> kDeletedPort" "as_map s p = None"
  then show "returns (put_port dv s p v)
      (\<lambda>s'. (port_set_ok s' \<and> balanced s') \<and> as_map s' = (as_map s)(p \<mapsto> v))"
    using Insert_ok [of s "\<lparr>port = p, content = v\<rparr>" dv] by (simp add: put_port_def)
next
  fix s :: "'a port_set" and p v
  assume ok: "port_set_ok s \<and> balanced s" and "as_map s p = Some v"
  then obtain i where i: "TryLookup s p = ret i" "i < ps_capacity s" "live (ps_map s ! i)"
      "port (ps_map s ! i) = p"
    using TryLookup_hit by metis
  from Delete_ok [of s i dv] ok i obtain s1 where s1: "Delete dv s i = ret s1" "port_set_ok s1"
      "as_map s1 = (as_map s)(p := None)"
    by auto
  from Rebalance_ok [OF s1(2), of dv] s1 i show "returns (remove_port dv s p)
      (\<lambda>s'. (port_set_ok s' \<and> balanced s') \<and> as_map s' = (as_map s)(p := None))"
    by (simp add: remove_port_def)
qed

section \<open>Properties\<close>

text \<open>C1. The hash set of ports implements a finite map: any sequence of insertions of absent ports
  and removals of present ones (look up, delete through the iterator, rebalance), run from a new
  set, returns without faulting or looping and leaves a set whose content is what the same sequence
  does to a map, with the table invariant and the load bounds of \<open>MaintainInvariants\<close> in place.\<close>

theorem port_set_refines_map:
  fixes dv :: 'v
  assumes "legal_ops ops Map.empty"
  shows "\<exists>ps. run_table (put_port dv) (remove_port dv) ops (PortSet dv) = ret ps \<and>
           port_set_ok ps \<and> balanced ps \<and> as_map ps = run_map ops Map.empty"
  using ps.run_ok [of "PortSet dv" ops dv] assms PortSet_ok [of dv] by auto

theorem port_set_refines_map_witness:
  "\<exists>ps. run_table (put_port (0::nat)) (remove_port 0) [Put 7 1, Put 15 2, Remove 7, Put 23 3] (PortSet 0)
      = ret ps \<and> port_set_ok ps \<and> balanced ps \<and> as_map ps = [15 \<mapsto> 2, 23 \<mapsto> 3]"
proof -
  have legal: "legal_ops [Put 7 (1::nat), Put 15 2, Remove 7, Put 23 3] Map.empty"
    by (simp add: kDeletedPort_def)
  have "run_map [Put 7 (1::nat), Put 15 2, Remove 7, Put 23 3] Map.empty = [15 \<mapsto> 2, 23 \<mapsto> 3]"
    by (auto simp: fun_eq_iff)
  with port_set_refines_map [OF legal, of 0] show ?thesis by simp
qed

text \<open>C2. \<open>TryLookup\<close> is exact on a well-formed set: for a port number that is neither negative nor
  the deleted marker it always returns, with an iterator to the entry of that port if the set holds
  one and with the end iterator otherwise.\<close>

theorem try_lookup_exact:
  assumes "port_set_ok ps" "0 \<le> p" "p \<noteq> kDeletedPort"
  shows "case as_map ps p of
           None \<Rightarrow> TryLookup ps p = ret (end_iter ps)
         | Some v \<Rightarrow> \<exists>it. TryLookup ps p = ret it \<and> it \<noteq> end_iter ps \<and>
                        deref ps it = ret \<lparr>port = p, content = v\<rparr>"
proof (cases "as_map ps p")
  case None
  with assms show ?thesis by (simp add: TryLookup_miss)
next
  case (Some v)
  obtain i where i: "TryLookup ps p = ret i" "i < ps_capacity ps" "port (ps_map ps ! i) = p"
      "content (ps_map ps ! i) = v"
    using TryLookup_hit [OF assms(1) Some] by blast
  then have "deref ps i = ret \<lparr>port = p, content = v\<rparr>"
    by (cases "ps_map ps ! i") (simp add: deref_def)
  with i Some show ?thesis by (auto simp: end_iter_def)
qed

theorem try_lookup_exact_witness:
  "TryLookup (PortSet (0::nat)) 7 = ret (end_iter (PortSet (0::nat)))"
  using try_lookup_exact [of "PortSet (0::nat)" 7] PortSet_ok [of "0::nat"]
  by (simp add: kDeletedPort_def)

text \<open>C3. A lookup walks forever when no cell of the table ends the walk: if no cell is free
  and none holds the port, \<open>FindIndexOfPort\<close> does not return (the \<open>ASSERT\<close> that would catch this is
  compiled out).  The table invariant excludes it.\<close>

theorem find_index_diverges:
  assumes "0 < p" "0 < ps_capacity ps"
    "\<And>i. i < ps_capacity ps \<Longrightarrow> port (ps_map ps ! i) \<noteq> kFreePort \<and> port (ps_map ps ! i) \<noteq> p"
  shows "FindIndexOfPort ps p = None"
  using assms find.loop_diverges [of "home (ps_capacity ps) p" "(ps, p)"]
  by (simp add: FindIndexOfPort_def ILLEGAL_PORT_def Let_def tmod_home del: tmod_nonneg)

theorem find_index_diverges_witness:
  "FindIndexOfPort \<lparr>ps_map = [\<lparr>port = 5, content = ()\<rparr>], ps_capacity = 1, ps_used = 1, ps_deleted = 0\<rparr> 7 = None"
  by (rule find_index_diverges) (simp_all add: kFreePort_def)

lemma remove_port_marker:
  assumes ok: "port_set_ok ps" "balanced ps" and p: "as_map ps p = Some v"
    and h: "home (ps_capacity ps) p = home (ps_capacity ps) kDeletedPort"
    and calm: "2 * ps_deleted ps + 1 \<le> int (ps_capacity ps) - ps_used ps"
  shows "returns (remove_port dv ps p) marker_visible"
proof -
  let ?m = "ps_map ps" and ?n = "ps_capacity ps"
  let ?c = "cyc ?n (home ?n kDeletedPort)"
  note D = port_set_okD [OF ok(1)]
  obtain i where i: "TryLookup ps p = ret i" "i < ?n" "live (?m ! i)" "port (?m ! i) = p"
    using TryLookup_hit [OF ok(1) p] by metis
  obtain d where d: "d < ?n" "?c d = i" "\<And>d'. d' < d \<Longrightarrow> port (?m ! ?c d') \<noteq> kFreePort"
    using live_home_path [OF D(1), of i] i(2-) D(2) h by metis
  let ?ps = "delete_cell dv ps i"
  have "port (ps_map ?ps ! i) = kDeletedPort"
    using i(2) D(2) by (simp add: delete_cell_def)
  moreover have "port (ps_map ?ps ! ?c d') \<noteq> kFreePort" if "d' < d" for d'
    using d(3) [OF that] i(2) D(2) by (cases "?c d' = i") (simp_all add: delete_cell_def)
  ultimately have "marker_visible ?ps"
    using d(1,2) unfolding marker_visible_def by (auto simp: delete_cell_def)
  moreover have "Rebalance dv ?ps = ret ?ps"
    using ok(2) calm by (simp add: Rebalance_def MaintainInvariants_def delete_cell_def balanced_def)
  ultimately show ?thesis
    using i by (simp add: remove_port_def Delete_def)
qed

text \<open>C4. A deleted cell answers to its marker.  In a well-formed set no entry has port 3
  (\<open>kDeletedPort\<close>), and yet looking up port 3 always returns, and returns an iterator to a deleted
  cell instead of the end iterator exactly when the walk from the home cell of 3 meets a deleted cell
  before a free one.  In particular that is so after the removal of any port with the same home cell
  as 3, unless the removal rehashes the table.  Only port 0 is rejected up front.\<close>

theorem lookup_of_deleted_marker:
  assumes "port_set_ok ps"
  shows "as_map ps kDeletedPort = None \<and>
         returns (TryLookup ps kDeletedPort) (\<lambda>it. (it \<noteq> end_iter ps \<longleftrightarrow> marker_visible ps) \<and>
           (it \<noteq> end_iter ps \<longrightarrow> returns (deref ps it) (\<lambda>e. port e = kDeletedPort))) \<and>
         (\<forall>p v. as_map ps p = Some v \<longrightarrow> home (ps_capacity ps) p = home (ps_capacity ps) kDeletedPort \<longrightarrow>
            balanced ps \<longrightarrow> 2 * ps_deleted ps + 1 \<le> int (ps_capacity ps) - ps_used ps \<longrightarrow>
            returns (remove_port dv ps p) marker_visible)"
  using TryLookup_marker [OF assms] remove_port_marker [OF assms]
  by (auto simp: as_map_def contents_None live_def)

theorem lookup_of_deleted_marker_witness:
  "\<exists>ps. put_port (0::nat) (PortSet 0) 11 1 = ret ps \<and> port_set_ok ps \<and>
     returns (TryLookup ps kDeletedPort) (\<lambda>it. it = end_iter ps) \<and>
     returns (remove_port 0 ps 11) (\<lambda>ps'. marker_visible ps' \<and> as_map ps' = Map.empty \<and>
       returns (TryLookup ps' kDeletedPort) (\<lambda>it. it \<noteq> end_iter ps'))"
proof -
  let ?e = "default_entry (0::nat)" and ?n = "\<lparr>port = 11, content = 1 :: nat\<rparr>"
  let ?ps = "\<lparr>ps_map = [?e, ?e, ?e, ?n, ?e, ?e, ?e, ?e], ps_capacity = 8, ps_used = 1, ps_deleted = 0\<rparr>"
  have "PortSet (0::nat) =
      \<lparr>ps_map = [?e, ?e, ?e, ?e, ?e, ?e, ?e, ?e], ps_capacity = 8, ps_used = 0, ps_deleted = 0\<rparr>"
    by (simp add: PortSet_def kInitialCapacity_def numeral_eq_Suc)
  then have put: "put_port 0 (PortSet 0) 11 1 = ret ?ps"
    by (simp add: put_port_def Insert_def insert_loop.simps default_entry_def MaintainInvariants_def
        kFreePort_def kDeletedPort_def)
  have ok: "port_set_ok ?ps" "balanced ?ps" "as_map ?ps = [11 \<mapsto> 1]"
    using ps.put_ok [of "PortSet (0::nat)" 11 0 1] PortSet_ok [of "0::nat"] put by (simp_all add: kDeletedPort_def)
  have vis: "\<not> marker_visible ?ps"
    by (rule no_marker [OF ok(1)]) simp
  have "returns (remove_port 0 ?ps 11) marker_visible"
    using lookup_of_deleted_marker [OF ok(1), of 0] ok by (simp add: home_def kDeletedPort_def)
  moreover have "returns (remove_port 0 ?ps 11) (\<lambda>ps'. port_set_ok ps' \<and> as_map ps' = Map.empty)"
    using ps.rem_ok [of ?ps 11 1 0] ok by (auto elim!: returns_mono)
  ultimately obtain ps' where "remove_port 0 ?ps 11 = ret ps'" "marker_visible ps'" "port_set_ok ps'"
      "as_map ps' = Map.empty"
    by (auto elim!: returnsE)
  moreover from this have "returns (TryLookup ps' kDeletedPort) (\<lambda>it. it \<noteq> end_iter ps')"
    using lookup_of_deleted_marker [of ps' 0] by (auto elim!: returnsE)
  moreover have "returns (TryLookup ?ps kDeletedPort) (\<lambda>it. it = end_iter ?ps)"
    using lookup_of_deleted_marker [OF ok(1), of 0] vis by (auto elim!: returnsE)
  ultimately show ?thesis
    using put ok(1) by (intro exI [of _ ?ps]) simp
qed

text \<open>C5. A negative port number indexes outside the table: the C++ remainder of a negative port is
  negative unless the capacity divides it, and nothing rejects it before the array access.\<close>

theorem negative_port_out_of_bounds:
  assumes "p < 0" "0 < ps_capacity ps" "\<not> int (ps_capacity ps) dvd p"
  shows "FindIndexOfPort ps p = raise_fault OutOfBounds"
proof -
  have "(- p) mod int (ps_capacity ps) \<noteq> 0"
    using assms(3) by (simp add: mod_eq_0_iff_dvd)
  moreover have "0 \<le> (- p) mod int (ps_capacity ps)"
    using assms(2) by simp
  ultimately have "0 < (- p) mod int (ps_capacity ps)" by linarith
  with assms(1,2) show ?thesis
    by (simp add: FindIndexOfPort_def ILLEGAL_PORT_def Let_def tmod_neg)
qed

theorem negative_port_out_of_bounds_witness:
  "FindIndexOfPort (PortSet ()) (- 5) = raise_fault OutOfBounds"
  using negative_port_out_of_bounds [of "- 5" "PortSet ()"]
  by (simp add: PortSet_def kInitialCapacity_def)

end
