(* ===== verification/Message_Queue.thy ===== *)
theory Message_Queue
  imports Dart_Prelude "HOL-Library.Multiset"
begin

text \<open>
  \<open>runtime/vm/message.h\<close>, \<open>message.cc\<close> and \<open>finalizable_data.h\<close>: messages, the finalizable data they
  carry, and the linked queue of messages of an isolate.

  A message is identified by its address (\<open>msg_id\<close>, which is also what \<open>Message::Id\<close> returns).  A
  queue is the pair of pointers of the C++ object together with the store of the message objects it
  owns (\<open>q_node\<close>) and of their \<open>next_\<close> fields (\<open>q_next\<close>); since queues own their messages through
  \<open>unique_ptr\<close>, two queues never share a node, so each carries its own store.  Releasing a message
  (\<open>~Message\<close>) is modelled by the list of calls it makes.

  \<open>queue_rep q ms\<close> abstracts a linked queue to the list of its messages.  The lemmas show that
  \<open>Enqueue\<close>, \<open>Dequeue\<close>, \<open>Clear\<close>, \<open>Length\<close> and \<open>FindMessageById\<close> return and do on the list what the
  comments of the source promise.
\<close>

section \<open>Finalizable data\<close>

record finalizable =
  fd_data :: nat
  fd_peer :: nat
  fd_callback :: nat
  fd_write_callback :: "nat option"

record finalizable_data =
  fd_records :: "finalizable list"
  fd_get_position :: nat
  fd_take_position :: nat
  fd_external_size :: int

definition MessageFinalizableData :: finalizable_data where
  "MessageFinalizableData =
     \<lparr>fd_records = [], fd_get_position = 0, fd_take_position = 0, fd_external_size = 0\<rparr>"

text \<open>A call of a finalizer: the callback and the peer it receives.\<close>

type_synonym finalizer_call = "nat \<times> nat"

function fd_destroy_loop :: "finalizable list \<Rightarrow> nat \<Rightarrow> finalizer_call list" where
  "fd_destroy_loop rs i =
     (if i < length rs then (fd_callback (rs ! i), fd_peer (rs ! i)) # fd_destroy_loop rs (i + 1)
      else [])"
  by pat_completeness auto
termination
  by (relation "measure (\<lambda>(rs, i). length rs - i)") auto

declare fd_destroy_loop.simps [simp del]

definition fd_destroy :: "finalizable_data \<Rightarrow> finalizer_call list" where
  "fd_destroy fd = fd_destroy_loop (fd_records fd) (fd_take_position fd)"

definition fd_put :: "finalizable_data \<Rightarrow> int \<Rightarrow> finalizable \<Rightarrow> finalizable_data" where
  "fd_put fd external_size r =
     fd\<lparr>fd_records := fd_records fd @ [r],
        fd_external_size := fd_external_size fd + external_size\<rparr>"

definition fd_get :: "finalizable_data \<Rightarrow> (finalizable \<times> finalizable_data) exec" where
  "fd_get fd =
     (if fd_get_position fd < length (fd_records fd)
      then ret (fd_records fd ! fd_get_position fd, fd\<lparr>fd_get_position := fd_get_position fd + 1\<rparr>)
      else raise_fault OutOfBounds)"

definition fd_take :: "finalizable_data \<Rightarrow> (finalizable \<times> finalizable_data) exec" where
  "fd_take fd =
     (if fd_take_position fd < length (fd_records fd)
      then ret (fd_records fd ! fd_take_position fd, fd\<lparr>fd_take_position := fd_take_position fd + 1\<rparr>)
      else raise_fault OutOfBounds)"

definition fd_serialization_succeeded :: "finalizable_data \<Rightarrow> finalizer_call list" where
  "fd_serialization_succeeded fd =
     concat (map (\<lambda>r. case fd_write_callback r of None \<Rightarrow> [] | Some c \<Rightarrow> [(c, fd_peer r)])
       (fd_records fd))"

definition fd_drop_finalizers :: "finalizable_data \<Rightarrow> finalizable_data" where
  "fd_drop_finalizers fd =
     fd\<lparr>fd_records := [], fd_get_position := 0, fd_take_position := 0, fd_external_size := 0\<rparr>"

section \<open>Messages\<close>

datatype Priority = kNormalPriority | kOOBPriority

instantiation Priority :: linorder
begin

fun less_eq_Priority :: "Priority \<Rightarrow> Priority \<Rightarrow> bool" where
  "less_eq_Priority kOOBPriority kNormalPriority = False"
| "less_eq_Priority _ _ = True"

definition less_Priority :: "Priority \<Rightarrow> Priority \<Rightarrow> bool" where
  "less_Priority a b \<longleftrightarrow> a \<le> b \<and> \<not> b \<le> (a :: Priority)"

instance
proof
  fix x y z :: Priority
  show "x < y \<longleftrightarrow> x \<le> y \<and> \<not> y \<le> x" by (rule less_Priority_def)
  show "x \<le> x" by (cases x) simp_all
  show "x \<le> y \<Longrightarrow> y \<le> z \<Longrightarrow> x \<le> z" by (cases x; cases y; cases z) simp_all
  show "x \<le> y \<Longrightarrow> y \<le> x \<Longrightarrow> x = y" by (cases x; cases y) simp_all
  show "x \<le> y \<or> y \<le> x" by (cases x; cases y) simp_all
qed

end

definition kIllegalPort :: int where
  "kIllegalPort = 0"

definition kPersistentHandleSnapshotLen :: int where
  "kPersistentHandleSnapshotLen = - 1"

definition kFinalizerSnapshotLen :: int where
  "kFinalizerSnapshotLen = - 2"

text \<open>The payload union; which member is in use follows from the snapshot length.\<close>

datatype payload = Snapshot nat | RawObj nat | Handle nat

record message =
  msg_id :: nat
  dest_port :: int
  msg_payload :: payload
  snapshot_length :: int
  finalizable_data_of :: "finalizable_data option"
  priority :: Priority

definition snapshot_message ::
  "nat \<Rightarrow> int \<Rightarrow> nat \<Rightarrow> int \<Rightarrow> finalizable_data option \<Rightarrow> Priority \<Rightarrow> message" where
  "snapshot_message i p snapshot len fd pr =
     \<lparr>msg_id = i, dest_port = p, msg_payload = Snapshot snapshot, snapshot_length = len,
      finalizable_data_of = fd, priority = pr\<rparr>"

definition raw_message :: "nat \<Rightarrow> int \<Rightarrow> nat \<Rightarrow> Priority \<Rightarrow> message" where
  "raw_message i p obj pr =
     \<lparr>msg_id = i, dest_port = p, msg_payload = RawObj obj, snapshot_length = 0,
      finalizable_data_of = None, priority = pr\<rparr>"

definition handle_message :: "nat \<Rightarrow> int \<Rightarrow> nat \<Rightarrow> Priority \<Rightarrow> message" where
  "handle_message i p h pr =
     \<lparr>msg_id = i, dest_port = p, msg_payload = Handle h,
      snapshot_length = kPersistentHandleSnapshotLen, finalizable_data_of = None, priority = pr\<rparr>"

definition finalizer_message :: "nat \<Rightarrow> nat \<Rightarrow> Priority \<Rightarrow> message" where
  "finalizer_message i h pr =
     \<lparr>msg_id = i, dest_port = kIllegalPort, msg_payload = Handle h,
      snapshot_length = kFinalizerSnapshotLen, finalizable_data_of = None, priority = pr\<rparr>"

definition IsOOB :: "message \<Rightarrow> bool" where
  "IsOOB m \<longleftrightarrow> priority m = kOOBPriority"

definition IsRaw :: "message \<Rightarrow> bool" where
  "IsRaw m \<longleftrightarrow> snapshot_length m = 0"

definition IsPersistentHandle :: "message \<Rightarrow> bool" where
  "IsPersistentHandle m \<longleftrightarrow> snapshot_length m = kPersistentHandleSnapshotLen"

definition IsFinalizerInvocationRequest :: "message \<Rightarrow> bool" where
  "IsFinalizerInvocationRequest m \<longleftrightarrow> snapshot_length m = kFinalizerSnapshotLen"

definition IsSnapshot :: "message \<Rightarrow> bool" where
  "IsSnapshot m \<longleftrightarrow> \<not> IsRaw m \<and> \<not> IsPersistentHandle m \<and> \<not> IsFinalizerInvocationRequest m"

definition Size :: "message \<Rightarrow> int" where
  "Size m = (case finalizable_data_of m of
               None \<Rightarrow> snapshot_length m
             | Some fd \<Rightarrow> snapshot_length m + fd_external_size fd)"

definition DropFinalizers :: "message \<Rightarrow> message" where
  "DropFinalizers m = m\<lparr>finalizable_data_of := map_option fd_drop_finalizers (finalizable_data_of m)\<rparr>"

text \<open>What \<open>~Message\<close> releases: the snapshot buffer, the finalizable data (running its remaining
  finalizers), the persistent handle.\<close>

datatype release = FreeBuffer payload | RunFinalizer finalizer_call | FreePersistentHandle payload

definition destroy_message :: "message \<Rightarrow> release list" where
  "destroy_message m =
     (if IsSnapshot m then [FreeBuffer (msg_payload m)] else []) @
     (case finalizable_data_of m of None \<Rightarrow> [] | Some fd \<Rightarrow> map RunFinalizer (fd_destroy fd)) @
     (if IsPersistentHandle m \<or> IsFinalizerInvocationRequest m
      then [FreePersistentHandle (msg_payload m)] else [])"

section \<open>The linked queue\<close>

record mqueue =
  q_head :: "nat option"
  q_tail :: "nat option"
  q_node :: "nat \<Rightarrow> message option"
  q_next :: "nat \<Rightarrow> nat option"

definition MessageQueue :: mqueue where
  "MessageQueue = \<lparr>q_head = None, q_tail = None, q_node = (\<lambda>_. None), q_next = (\<lambda>_. None)\<rparr>"

definition queue_IsEmpty :: "mqueue \<Rightarrow> bool" where
  "queue_IsEmpty q \<longleftrightarrow> q_head q = None"

definition append_at_tail :: "mqueue \<Rightarrow> nat \<Rightarrow> mqueue exec" where
  "append_at_tail q msg =
     (case q_tail q of
        None \<Rightarrow> raise_fault NullDeref
      | Some t \<Rightarrow> ret (q\<lparr>q_next := (q_next q)(t := Some msg), q_tail := Some msg\<rparr>))"

partial_function (option) splice_loop :: "mqueue \<Rightarrow> nat \<Rightarrow> nat \<Rightarrow> mqueue exec" where
  "splice_loop q msg cur =
     (case q_next q cur of
        None \<Rightarrow> append_at_tail q msg
      | Some n \<Rightarrow>
          (case q_node q n of
             None \<Rightarrow> raise_fault UseAfterFree
           | Some nm \<Rightarrow>
               if dest_port nm \<noteq> kIllegalPort
               then ret (q\<lparr>q_next := (q_next q)(msg := Some n, cur := Some msg)\<rparr>)
               else splice_loop q msg n))"

definition Enqueue :: "mqueue \<Rightarrow> message \<Rightarrow> bool \<Rightarrow> mqueue exec" where
  "Enqueue q0 m before_events =
     (let msg = msg_id m;
          q = q0\<lparr>q_node := (q_node q0)(msg \<mapsto> m)\<rparr>
      in case q_head q of
           None \<Rightarrow> ret (q\<lparr>q_head := Some msg, q_tail := Some msg\<rparr>)
         | Some h \<Rightarrow>
             if \<not> before_events then append_at_tail q msg
             else (case q_node q h of
                     None \<Rightarrow> raise_fault UseAfterFree
                   | Some hm \<Rightarrow>
                       if dest_port hm \<noteq> kIllegalPort
                       then ret (q\<lparr>q_next := (q_next q)(msg := Some h), q_head := Some msg\<rparr>)
                       else splice_loop q msg h))"

definition Dequeue :: "mqueue \<Rightarrow> (message option \<times> mqueue) exec" where
  "Dequeue q =
     (case q_head q of
        None \<Rightarrow> ret (None, q)
      | Some h \<Rightarrow>
          (case q_node q h of
             None \<Rightarrow> raise_fault UseAfterFree
           | Some m \<Rightarrow>
               (let q1 = q\<lparr>q_head := q_next q h\<rparr>;
                    q2 = (if q_head q1 = None then q1\<lparr>q_tail := None\<rparr> else q1)
                in ret (Some m, q2\<lparr>q_node := (q_node q2)(h := None)\<rparr>))))"

partial_function (option) clear_loop ::
  "mqueue \<Rightarrow> nat option \<Rightarrow> release list \<Rightarrow> (mqueue \<times> release list) exec" where
  "clear_loop q cur out =
     (case cur of
        None \<Rightarrow> ret (q, out)
      | Some c \<Rightarrow>
          (case q_node q c of
             None \<Rightarrow> raise_fault UseAfterFree
           | Some m \<Rightarrow>
               clear_loop (q\<lparr>q_node := (q_node q)(c := None)\<rparr>) (q_next q c) (out @ destroy_message m)))"

definition Clear :: "mqueue \<Rightarrow> (mqueue \<times> release list) exec" where
  "Clear q = clear_loop (q\<lparr>q_head := None, q_tail := None\<rparr>) (q_head q) []"

partial_function (option) length_loop :: "mqueue \<Rightarrow> nat option \<Rightarrow> nat \<Rightarrow> nat option" where
  "length_loop q it len =
     (case it of None \<Rightarrow> Some len | Some i \<Rightarrow> length_loop q (q_next q i) (len + 1))"

definition Length :: "mqueue \<Rightarrow> nat exec" where
  "Length q = (case length_loop q (q_head q) 0 of None \<Rightarrow> None | Some n \<Rightarrow> ret n)"

partial_function (option) find_message_loop :: "mqueue \<Rightarrow> nat \<Rightarrow> nat option \<Rightarrow> nat option option" where
  "find_message_loop q i it =
     (case it of
        None \<Rightarrow> Some None
      | Some c \<Rightarrow> if c = i then Some (Some c) else find_message_loop q i (q_next q c))"

definition FindMessageById :: "mqueue \<Rightarrow> nat \<Rightarrow> nat option exec" where
  "FindMessageById q i =
     (case find_message_loop q i (q_head q) of None \<Rightarrow> None | Some r \<Rightarrow> ret r)"

declare splice_loop.simps [code] clear_loop.simps [code] length_loop.simps [code] find_message_loop.simps [code]

section \<open>Linked segments\<close>

fun lseg :: "(nat \<Rightarrow> nat option) \<Rightarrow> nat option \<Rightarrow> nat list \<Rightarrow> nat option \<Rightarrow> bool" where
  "lseg nx p [] r \<longleftrightarrow> p = r"
| "lseg nx p (i # is) r \<longleftrightarrow> p = Some i \<and> lseg nx (nx i) is r"

fun start :: "nat list \<Rightarrow> nat option" where
  "start [] = None"
| "start (i # _) = Some i"

lemma lseg_append: "lseg nx p (xs @ ys) r \<longleftrightarrow> (\<exists>s. lseg nx p xs s \<and> lseg nx s ys r)"
  by (induction xs arbitrary: p) auto

lemma lseg_update_other [simp]: "i \<notin> set xs \<Longrightarrow> lseg (nx(i := v)) p xs r \<longleftrightarrow> lseg nx p xs r"
  by (induction xs arbitrary: p) auto

lemma lseg_start: "lseg nx p xs None \<Longrightarrow> p = start xs"
  by (cases xs) auto

lemma lseg_snoc: "lseg nx p (xs @ [i]) r \<longleftrightarrow> lseg nx p xs (Some i) \<and> nx i = r"
  by (auto simp: lseg_append)

lemma lseg_insert:
  assumes "lseg nx p (xs @ ys) None" and "distinct (xs @ ys)" and "i \<notin> set (xs @ ys)" and "xs \<noteq> []"
  shows "lseg (nx(i := start ys, last xs := Some i)) p (xs @ i # ys) None"
proof -
  obtain zs t where xs: "xs = zs @ [t]"
    using assms(4) by (metis append_butlast_last_id)
  have "lseg nx p zs (Some t)" and "lseg nx (nx t) ys None"
    using assms(1) unfolding xs by (auto simp: lseg_append)
  moreover from this(2) have "nx t = start ys"
    by (rule lseg_start)
  ultimately show ?thesis
    using assms(2,3) unfolding xs by (auto simp: lseg_append)
qed

lemma lseg_next:
  assumes "lseg nx p (xs @ ys) None" and "xs \<noteq> []"
  shows "nx (last xs) = start ys"
proof -
  obtain zs t where xs: "xs = zs @ [t]"
    using assms(2) by (metis append_butlast_last_id)
  show ?thesis
    using assms(1) unfolding xs by (auto simp: lseg_append dest: lseg_start)
qed

section \<open>The queue as a list\<close>

definition queue_rep :: "mqueue \<Rightarrow> message list \<Rightarrow> bool" where
  "queue_rep q ms \<longleftrightarrow>
     lseg (q_next q) (q_head q) (map msg_id ms) None \<and>
     distinct (map msg_id ms) \<and>
     q_tail q = (if ms = [] then None else Some (msg_id (last ms))) \<and>
     (\<forall>i. q_node q i = map_of (map (\<lambda>m. (msg_id m, m)) ms) i)"

definition control :: "message \<Rightarrow> bool" where
  "control m \<longleftrightarrow> dest_port m = kIllegalPort"

definition enqueue_list :: "bool \<Rightarrow> message \<Rightarrow> message list \<Rightarrow> message list" where
  "enqueue_list before_events m ms =
     (if before_events then takeWhile control ms @ m # dropWhile control ms else ms @ [m])"

text \<open>A message that the queue does not hold and whose \<open>next_\<close> is null, as the constructors leave it: the assertion
  at the start of \<open>Enqueue\<close>.  A message taken from the queue keeps the link it had there.\<close>

definition fresh :: "message \<Rightarrow> mqueue \<Rightarrow> bool" where
  "fresh m q \<longleftrightarrow> q_node q (msg_id m) = None \<and> q_next q (msg_id m) = None"

text \<open>Every other message stays new.\<close>

definition keeps_fresh :: "mqueue \<Rightarrow> mqueue \<Rightarrow> nat set \<Rightarrow> bool" where
  "keeps_fresh q q' ids \<longleftrightarrow> (\<forall>m. fresh m q \<longrightarrow> msg_id m \<notin> ids \<longrightarrow> fresh m q')"

lemma node_of_member:
  assumes "distinct (map msg_id ms)" and "m \<in> set ms"
  shows "map_of (map (\<lambda>m. (msg_id m, m)) ms) (msg_id m) = Some m"
  using assms by (induction ms) (auto simp: image_iff)

lemma node_of_other: "msg_id m \<notin> msg_id ` set ms \<Longrightarrow> map_of (map (\<lambda>m. (msg_id m, m)) ms) (msg_id m) = None"
  by (simp add: map_of_eq_None_iff image_image)

lemma mset_enqueue_list [simp]: "mset (enqueue_list b m ms) = add_mset m (mset ms)"
proof -
  have "mset (takeWhile control ms) + mset (dropWhile control ms) = mset ms"
    by (metis mset_append takeWhile_dropWhile_id)
  then show ?thesis by (simp add: enqueue_list_def)
qed

lemma node_of_insert:
  assumes "distinct (map msg_id (xs @ m # ys))"
  shows "(map_of (map (\<lambda>m. (msg_id m, m)) (xs @ ys)))(msg_id m \<mapsto> m) =
         map_of (map (\<lambda>m. (msg_id m, m)) (xs @ m # ys))"
  using assms
  by (simp, subst map_add_upd_left) (auto simp: dom_map_of_conv_image_fst image_image)

lemma queue_rep_head: "queue_rep q ms \<Longrightarrow> q_head q = start (map msg_id ms)"
  by (auto simp: queue_rep_def dest: lseg_start)

lemma queue_rep_node: "queue_rep q ms \<Longrightarrow> m \<in> set ms \<Longrightarrow> q_node q (msg_id m) = Some m"
  by (simp add: queue_rep_def node_of_member)

lemma fresh_iff: "queue_rep q ms \<Longrightarrow> fresh m q \<longleftrightarrow> msg_id m \<notin> msg_id ` set ms \<and> q_next q (msg_id m) = None"
  by (auto simp: queue_rep_def fresh_def map_of_eq_None_iff image_image)

text \<open>Linking a new node behind the last node of \<open>xs\<close>.\<close>

lemma queue_rep_link:
  assumes rep: "queue_rep q (xs @ ys)" and new: "fresh m q" and ne: "xs \<noteq> []"
    and q': "q' = q\<lparr>q_node := (q_node q)(msg_id m \<mapsto> m),
                    q_next := (q_next q)(msg_id m := start (map msg_id ys), msg_id (last xs) := Some (msg_id m)),
                    q_tail := tl'\<rparr>"
    and tl': "tl' = (if ys = [] then Some (msg_id m) else q_tail q)"
  shows "queue_rep q' (xs @ m # ys) \<and> keeps_fresh q q' {msg_id m}"
proof -
  have d: "distinct (map msg_id (xs @ m # ys))"
    using rep new fresh_iff [OF rep] by (auto simp: queue_rep_def)
  have node: "q_node q = map_of (map (\<lambda>m. (msg_id m, m)) (xs @ ys))"
    using rep by (auto simp: queue_rep_def)
  have "lseg (q_next q) (q_head q) (map msg_id xs @ map msg_id ys) None"
    using rep by (simp add: queue_rep_def)
  moreover have "distinct (map msg_id xs @ map msg_id ys)"
    and "msg_id m \<notin> set (map msg_id xs @ map msg_id ys)"
    using d by auto
  ultimately have "lseg ((q_next q)(msg_id m := start (map msg_id ys),
      last (map msg_id xs) := Some (msg_id m))) (q_head q) (map msg_id xs @ msg_id m # map msg_id ys) None"
    by (rule lseg_insert) (use ne in simp)
  moreover have "q_tail q' = Some (msg_id (last (xs @ m # ys)))"
    using rep by (simp add: q' tl' queue_rep_def)
  moreover have "q_node q' = map_of (map (\<lambda>m. (msg_id m, m)) (xs @ m # ys))"
    unfolding q' using node_of_insert [OF d] node by simp
  ultimately have "queue_rep q' (xs @ m # ys)"
    using d ne unfolding queue_rep_def by (simp add: q' last_map)
  moreover have "q_node q (msg_id (last xs)) = Some (last xs)"
    using queue_rep_node [OF rep, of "last xs"] ne by simp
  then have "keeps_fresh q q' {msg_id m}"
    by (auto simp: keeps_fresh_def fresh_def q')
  ultimately show ?thesis by blast
qed

lemma MessageQueue_rep [simp]: "queue_rep MessageQueue []"
  by (simp add: queue_rep_def MessageQueue_def)

lemma queue_IsEmpty_iff: "queue_rep q ms \<Longrightarrow> queue_IsEmpty q \<longleftrightarrow> ms = []"
  by (cases ms) (auto simp: queue_IsEmpty_def queue_rep_def)

subsection \<open>Enqueue\<close>

definition adopt :: "mqueue \<Rightarrow> message \<Rightarrow> mqueue" where
  "adopt q m = q\<lparr>q_node := (q_node q)(msg_id m \<mapsto> m)\<rparr>"

lemma append_at_tail_rep:
  assumes rep: "queue_rep q ms" and new: "fresh m q" and ne: "ms \<noteq> []"
  shows "returns (append_at_tail (adopt q m) (msg_id m)) (\<lambda>q'. queue_rep q' (ms @ [m]) \<and> keeps_fresh q q' {msg_id m})"
proof -
  have "q_tail q = Some (msg_id (last ms))" "(q_next q)(msg_id m := None) = q_next q"
    using rep new ne by (simp_all add: queue_rep_def fresh_def fun_upd_idem)
  then have "append_at_tail (adopt q m) (msg_id m) =
      ret (q\<lparr>q_node := (q_node q)(msg_id m \<mapsto> m),
             q_next := (q_next q)(msg_id m := start (map msg_id ([] :: message list)), msg_id (last ms) := Some (msg_id m)),
             q_tail := Some (msg_id m)\<rparr>)" (is "_ = ret ?q'")
    by (simp add: append_at_tail_def adopt_def)
  moreover have "queue_rep ?q' (ms @ m # []) \<and> keeps_fresh q ?q' {msg_id m}"
    by (rule queue_rep_link [OF _ new ne refl]) (use rep in simp_all)
  ultimately show ?thesis by simp
qed

lemma splice_loop_rep:
  assumes "queue_rep q (xs @ ys)" and "fresh m q" and "xs \<noteq> []"
  shows "returns (splice_loop (adopt q m) (msg_id m) (msg_id (last xs)))
           (\<lambda>q'. queue_rep q' (xs @ takeWhile control ys @ m # dropWhile control ys) \<and> keeps_fresh q q' {msg_id m})"
  using assms
proof (induction ys arbitrary: xs)
  case Nil
  have "q_next q (msg_id (last xs)) = None"
    using lseg_next [of "q_next q" "q_head q" "map msg_id xs" "[]"] Nil.prems
    by (simp add: queue_rep_def last_map)
  then have "splice_loop (adopt q m) (msg_id m) (msg_id (last xs)) = append_at_tail (adopt q m) (msg_id m)"
    by (subst splice_loop.simps) (simp add: adopt_def)
  with append_at_tail_rep [of q xs m] Nil.prems show ?case by simp
next
  case (Cons y ys)
  have ne: "msg_id y \<noteq> msg_id m"
    using Cons.prems(2) fresh_iff [OF Cons.prems(1)] by simp
  have nx: "q_next q (msg_id (last xs)) = Some (msg_id y)"
    using lseg_next [of "q_next q" "q_head q" "map msg_id xs" "map msg_id (y # ys)"] Cons.prems
    by (simp add: queue_rep_def last_map)
  have nd: "q_node q (msg_id y) = Some y"
    using Cons.prems(1) by (rule queue_rep_node) simp
  note step = splice_loop.simps [of "adopt q m" "msg_id m" "msg_id (last xs)"]
  show ?case
  proof (cases "control y")
    case True
    then have "splice_loop (adopt q m) (msg_id m) (msg_id (last xs)) =
        splice_loop (adopt q m) (msg_id m) (msg_id (last (xs @ [y])))"
      using step ne nx nd by (simp add: adopt_def control_def)
    with Cons.IH [of "xs @ [y]"] Cons.prems True show ?thesis by simp
  next
    case False
    let ?q' = "q\<lparr>q_node := (q_node q)(msg_id m \<mapsto> m),
        q_next := (q_next q)(msg_id m := start (map msg_id (y # ys)), msg_id (last xs) := Some (msg_id m)),
        q_tail := q_tail q\<rparr>"
    have "splice_loop (adopt q m) (msg_id m) (msg_id (last xs)) = ret ?q'"
      using step ne nx nd False by (simp add: adopt_def control_def)
    moreover have "queue_rep ?q' (xs @ m # y # ys) \<and> keeps_fresh q ?q' {msg_id m}"
      by (rule queue_rep_link [OF Cons.prems refl]) simp
    ultimately show ?thesis using False by simp
  qed
qed

lemma Enqueue_rep_fresh:
  assumes rep: "queue_rep q ms" and new: "fresh m q"
  shows "returns (Enqueue q m before_events)
           (\<lambda>q'. queue_rep q' (enqueue_list before_events m ms) \<and> keeps_fresh q q' {msg_id m})"
proof (cases ms)
  case Nil
  with rep new show ?thesis
    by (auto simp: Enqueue_def queue_rep_def enqueue_list_def Let_def fresh_def keeps_fresh_def)
next
  case (Cons y ys)
  have hd: "q_head q = Some (msg_id y)" and nd: "q_node q (msg_id y) = Some y" and ne: "msg_id y \<noteq> msg_id m"
    using queue_rep_head [OF rep] queue_rep_node [OF rep] new fresh_iff [OF rep] by (auto simp: Cons)
  have E: "Enqueue q m before_events =
      (if \<not> before_events then append_at_tail (adopt q m) (msg_id m)
       else if \<not> control y
       then ret ((adopt q m)\<lparr>q_next := (q_next (adopt q m))(msg_id m := Some (msg_id y)), q_head := Some (msg_id m)\<rparr>)
       else splice_loop (adopt q m) (msg_id m) (msg_id (last [y])))"
    using hd nd ne by (simp add: Enqueue_def adopt_def control_def Let_def)
  consider "\<not> before_events" | "before_events" "\<not> control y" | "before_events" "control y"
    by blast
  then show ?thesis
  proof cases
    case 1
    then show ?thesis
      using append_at_tail_rep [OF rep new] E by (simp add: enqueue_list_def Cons)
  next
    case 2
    let ?q' = "(adopt q m)\<lparr>q_next := (q_next (adopt q m))(msg_id m := Some (msg_id y)), q_head := Some (msg_id m)\<rparr>"
    have "queue_rep ?q' (m # y # ys)"
      using rep new fresh_iff [OF rep] by (auto simp: queue_rep_def adopt_def Cons image_iff)
    moreover have "keeps_fresh q ?q' {msg_id m}"
      by (auto simp: keeps_fresh_def fresh_def adopt_def)
    ultimately show ?thesis
      using 2 E by (simp add: enqueue_list_def Cons)
  next
    case 3
    then show ?thesis
      using splice_loop_rep [of q "[y]" ys m] rep new E by (simp add: enqueue_list_def Cons)
  qed
qed

subsection \<open>Dequeue, Clear and the iterators\<close>

lemma Dequeue_Nil: "queue_rep q [] \<Longrightarrow> Dequeue q = ret (None, q)"
  by (simp add: Dequeue_def queue_rep_def)

lemma Dequeue_Cons:
  assumes "queue_rep q (m # ms)"
  shows "returns (Dequeue q) (\<lambda>(r, q'). r = Some m \<and> queue_rep q' ms)"
  using assms by (cases ms) (auto simp: Dequeue_def queue_rep_def Let_def node_of_other)

lemma Dequeue_fresh: "Dequeue q = ret (r, q') \<Longrightarrow> keeps_fresh q q' {}"
  by (auto simp: Dequeue_def Let_def keeps_fresh_def fresh_def split: option.splits if_splits)

lemma clear_loop_ok:
  assumes "lseg (q_next q) p (map msg_id ms) None" and "distinct (map msg_id ms)"
    and "q_node q = map_of (map (\<lambda>m. (msg_id m, m)) ms)"
  shows "clear_loop q p out = ret (q\<lparr>q_node := (\<lambda>_. None)\<rparr>, out @ concat (map destroy_message ms))"
  using assms
proof (induction ms arbitrary: q p out)
  case Nil
  then show ?case by (subst clear_loop.simps) simp
next
  case (Cons m ms)
  let ?q = "q\<lparr>q_node := (q_node q)(msg_id m := None)\<rparr>"
  have p: "p = Some (msg_id m)" and nd: "q_node q (msg_id m) = Some m"
    using Cons.prems by simp_all
  have "q_node ?q = map_of (map (\<lambda>m. (msg_id m, m)) ms)"
    using Cons.prems(2,3) node_of_other [of m ms] by (simp add: fun_eq_iff)
  moreover have "lseg (q_next ?q) (q_next q (msg_id m)) (map msg_id ms) None"
    using Cons.prems(1) by simp
  ultimately have "clear_loop ?q (q_next q (msg_id m)) (out @ destroy_message m) =
      ret (?q\<lparr>q_node := (\<lambda>_. None)\<rparr>, (out @ destroy_message m) @ concat (map destroy_message ms))"
    using Cons.IH Cons.prems(2) by (simp del: append_assoc)
  then show ?case
    using p nd by (subst clear_loop.simps) simp
qed

lemma Clear_rep:
  assumes "queue_rep q ms"
  shows "returns (Clear q) (\<lambda>(q', out). queue_rep q' [] \<and> out = concat (map destroy_message ms) \<and> keeps_fresh q q' {})"
proof -
  have "q_node q = map_of (map (\<lambda>m. (msg_id m, m)) ms)"
    using assms by (auto simp: queue_rep_def)
  then show ?thesis
    using assms clear_loop_ok [of "q\<lparr>q_head := None, q_tail := None\<rparr>" "q_head q" ms "[]"]
    by (simp add: Clear_def queue_rep_def keeps_fresh_def fresh_def)
qed

lemma length_loop_ok:
  "lseg (q_next q) p is None \<Longrightarrow> length_loop q p n = Some (n + length is)"
  by (induction "is" arbitrary: p n) (subst length_loop.simps, simp)+

lemma Length_rep: "queue_rep q ms \<Longrightarrow> Length q = ret (length ms)"
  using length_loop_ok [of q "q_head q" "map msg_id ms" 0] by (simp add: Length_def queue_rep_def)

lemma find_message_loop_ok:
  "lseg (q_next q) p is None \<Longrightarrow> find_message_loop q i p = Some (if i \<in> set is then Some i else None)"
  by (induction "is" arbitrary: p) (subst find_message_loop.simps, auto)+

lemma FindMessageById_rep:
  "queue_rep q ms \<Longrightarrow>
     FindMessageById q i = ret (if i \<in> msg_id ` set ms then Some i else None)"
  using find_message_loop_ok [of q "q_head q" "map msg_id ms" i]
  by (simp add: FindMessageById_def queue_rep_def)

section \<open>The queue contract\<close>

text \<open>Runs of queue operations, over any implementation, and on lists.\<close>

datatype queue_op = OpEnqueue message bool | OpDequeue | OpClear

datatype queue_result = Dequeued "message option" | Released "release list"

fun run_queue ::
  "('q \<Rightarrow> message \<Rightarrow> bool \<Rightarrow> 'q exec) \<Rightarrow> ('q \<Rightarrow> (message option \<times> 'q) exec) \<Rightarrow>
   ('q \<Rightarrow> ('q \<times> release list) exec) \<Rightarrow> 'q \<Rightarrow> queue_op list \<Rightarrow> (queue_result list \<times> 'q) exec" where
  "run_queue enq deq clr q [] = ret ([], q)"
| "run_queue enq deq clr q (OpEnqueue m b # ops) =
     ebind (enq q m b) (\<lambda>q'. run_queue enq deq clr q' ops)"
| "run_queue enq deq clr q (OpDequeue # ops) =
     ebind (deq q) (\<lambda>(r, q'). ebind (run_queue enq deq clr q' ops)
       (\<lambda>(out, q''). ret (Dequeued r # out, q'')))"
| "run_queue enq deq clr q (OpClear # ops) =
     ebind (clr q) (\<lambda>(q', rs). ebind (run_queue enq deq clr q' ops)
       (\<lambda>(out, q''). ret (Released rs # out, q'')))"

fun run_list :: "message list \<Rightarrow> queue_op list \<Rightarrow> queue_result list \<times> message list" where
  "run_list ms [] = ([], ms)"
| "run_list ms (OpEnqueue m b # ops) = run_list (enqueue_list b m ms) ops"
| "run_list [] (OpDequeue # ops) = apfst (Cons (Dequeued None)) (run_list [] ops)"
| "run_list (m # ms) (OpDequeue # ops) = apfst (Cons (Dequeued (Some m))) (run_list ms ops)"
| "run_list ms (OpClear # ops) =
     apfst (Cons (Released (concat (map destroy_message ms)))) (run_list [] ops)"

text \<open>The messages of a run; no message is reused when they are distinct.\<close>

fun enqueued :: "queue_op list \<Rightarrow> message list" where
  "enqueued [] = []"
| "enqueued (OpEnqueue m b # ops) = m # enqueued ops"
| "enqueued (OpDequeue # ops) = enqueued ops"
| "enqueued (OpClear # ops) = enqueued ops"

text \<open>What a client of the queue relies on: the three operations implement those of the list, for
  some representation relation, and \<open>new\<close> says which messages may be enqueued: every message that no operation was
  given stays so.\<close>

locale message_queue =
  fixes rep :: "'q \<Rightarrow> message list \<Rightarrow> bool"
    and new :: "message \<Rightarrow> 'q \<Rightarrow> bool"
    and enq :: "'q \<Rightarrow> message \<Rightarrow> bool \<Rightarrow> 'q exec"
    and deq :: "'q \<Rightarrow> (message option \<times> 'q) exec"
    and clr :: "'q \<Rightarrow> ('q \<times> release list) exec"
  assumes enq_rep: "rep q ms \<Longrightarrow> new m q \<Longrightarrow> returns (enq q m b) (\<lambda>q'. rep q' (enqueue_list b m ms) \<and>
                      (\<forall>m'. new m' q \<longrightarrow> msg_id m' \<noteq> msg_id m \<longrightarrow> new m' q'))"
    and deq_empty: "rep q [] \<Longrightarrow> returns (deq q) (\<lambda>(r, q'). r = None \<and> rep q' [] \<and> (\<forall>m'. new m' q \<longrightarrow> new m' q'))"
    and deq_first: "rep q (m # ms) \<Longrightarrow>
                      returns (deq q) (\<lambda>(r, q'). r = Some m \<and> rep q' ms \<and> (\<forall>m'. new m' q \<longrightarrow> new m' q'))"
    and clr_rep: "rep q ms \<Longrightarrow> returns (clr q) (\<lambda>(q', out). rep q' [] \<and> out = concat (map destroy_message ms) \<and>
                    (\<forall>m'. new m' q \<longrightarrow> new m' q'))"
begin

lemma run_rep:
  "rep q ms \<Longrightarrow> distinct (map msg_id (enqueued ops)) \<Longrightarrow> \<forall>m\<in>set (enqueued ops). new m q \<Longrightarrow>
     returns (run_queue enq deq clr q ops)
       (\<lambda>(out, q'). out = fst (run_list ms ops) \<and> rep q' (snd (run_list ms ops)))"
proof (induction ms ops arbitrary: q rule: run_list.induct)
  case (1 ms)
  then show ?case by simp
next
  case (2 ms m b ops)
  then obtain q' where q': "enq q m b = ret q'" "rep q' (enqueue_list b m ms)"
      "\<forall>m'. new m' q \<longrightarrow> msg_id m' \<noteq> msg_id m \<longrightarrow> new m' q'"
    using enq_rep [of q ms m b] by (auto simp: returns_def)
  moreover have "\<forall>m'\<in>set (enqueued ops). new m' q'"
    using "2.prems" q'(3) by (auto simp: image_iff)
  ultimately show ?case
    using "2.IH" [of q'] "2.prems" by simp
next
  case (3 ops)
  then obtain q' where q': "deq q = ret (None, q')" "rep q' []" "\<forall>m'. new m' q \<longrightarrow> new m' q'"
    using deq_empty [of q] by (auto simp: returns_def)
  then obtain out q'' where "run_queue enq deq clr q' ops = ret (out, q'')"
      "out = fst (run_list [] ops)" "rep q'' (snd (run_list [] ops))"
    using "3.IH" [of q'] "3.prems"(2,3) by (auto simp: returns_def)
  with q' show ?case by simp
next
  case (4 m ms ops)
  then obtain q' where q': "deq q = ret (Some m, q')" "rep q' ms" "\<forall>m'. new m' q \<longrightarrow> new m' q'"
    using deq_first [of q m ms] by (auto simp: returns_def)
  then obtain out q'' where "run_queue enq deq clr q' ops = ret (out, q'')"
      "out = fst (run_list ms ops)" "rep q'' (snd (run_list ms ops))"
    using "4.IH" [of q'] "4.prems"(2,3) by (auto simp: returns_def)
  with q' show ?case by simp
next
  case (5 ms ops)
  then obtain q' where q': "clr q = ret (q', concat (map destroy_message ms))" "rep q' []" "\<forall>m'. new m' q \<longrightarrow> new m' q'"
    using clr_rep [of q ms] by (auto simp: returns_def)
  then obtain out q'' where "run_queue enq deq clr q' ops = ret (out, q'')"
      "out = fst (run_list [] ops)" "rep q'' (snd (run_list [] ops))"
    using "5.IH" [of q'] "5.prems"(2,3) by (auto simp: returns_def)
  with q' show ?case by simp
qed

end

interpretation mq: message_queue queue_rep fresh Enqueue Dequeue Clear
proof
  fix q ms m b
  assume "queue_rep q ms" "fresh m q"
  then show "returns (Enqueue q m b) (\<lambda>q'. queue_rep q' (enqueue_list b m ms) \<and>
      (\<forall>m'. fresh m' q \<longrightarrow> msg_id m' \<noteq> msg_id m \<longrightarrow> fresh m' q'))"
    by (rule returns_mono [OF Enqueue_rep_fresh]) (simp add: keeps_fresh_def)
next
  fix q
  assume "queue_rep q []"
  then show "returns (Dequeue q) (\<lambda>(r, q'). r = None \<and> queue_rep q' [] \<and> (\<forall>m'. fresh m' q \<longrightarrow> fresh m' q'))"
    by (simp add: Dequeue_Nil)
next
  fix q m ms
  assume "queue_rep q (m # ms)"
  then obtain q' where "Dequeue q = ret (Some m, q')" "queue_rep q' ms"
    using Dequeue_Cons [of q m ms] by (auto simp: returns_def)
  then show "returns (Dequeue q) (\<lambda>(r, q'). r = Some m \<and> queue_rep q' ms \<and> (\<forall>m'. fresh m' q \<longrightarrow> fresh m' q'))"
    using Dequeue_fresh [of q "Some m" q'] by (simp add: keeps_fresh_def)
next
  fix q ms
  assume "queue_rep q ms"
  then show "returns (Clear q) (\<lambda>(q', out). queue_rep q' [] \<and> out = concat (map destroy_message ms) \<and>
      (\<forall>m'. fresh m' q \<longrightarrow> fresh m' q'))"
    by (rule returns_mono [OF Clear_rep]) (auto simp: keeps_fresh_def)
qed

lemma fresh_new [simp]: "fresh m MessageQueue"
  by (simp add: fresh_def MessageQueue_def)

section \<open>Properties\<close>

text \<open>
  C6.  The linked message queue implements the abstract queue.  Every sequence of Enqueue, Dequeue
  and Clear on a new queue, in which no message object is enqueued twice (also not after it was dequeued, since it
  keeps its old link), returns (no null pointer, no freed message, no endless list), and the
  messages dequeued and the resources released are those of the list on which Enqueue appends, or,
  with \<open>before_events\<close>, inserts behind the leading block of isolate control messages; the final
  queue represents the final list.
\<close>

theorem message_queue_refines_list:
  assumes "distinct (map msg_id (enqueued ops))"
  shows "returns (run_queue Enqueue Dequeue Clear MessageQueue ops)
           (\<lambda>(out, q'). out = fst (run_list [] ops) \<and> queue_rep q' (snd (run_list [] ops)))"
  using MessageQueue_rep assms by (rule mq.run_rep) simp

theorem message_queue_refines_list_witness:
  "let ops = [OpEnqueue (raw_message 1 5 0 kNormalPriority) False,
              OpEnqueue (finalizer_message 2 9 kNormalPriority) True,
              OpEnqueue (raw_message 3 5 1 kNormalPriority) False, OpDequeue, OpDequeue, OpClear, OpDequeue]
   in distinct (map msg_id (enqueued ops)) \<and>
      returns (run_queue Enqueue Dequeue Clear MessageQueue ops)
        (\<lambda>(out, q'). out = [Dequeued (Some (finalizer_message 2 9 kNormalPriority)),
                            Dequeued (Some (raw_message 1 5 0 kNormalPriority)), Released [], Dequeued None]
                     \<and> queue_rep q' [])"
  using message_queue_refines_list [of "[OpEnqueue (raw_message 1 5 0 kNormalPriority) False,
              OpEnqueue (finalizer_message 2 9 kNormalPriority) True,
              OpEnqueue (raw_message 3 5 1 kNormalPriority) False, OpDequeue, OpDequeue, OpClear, OpDequeue]"]
  by (simp add: enqueue_list_def control_def raw_message_def finalizer_message_def
      kIllegalPort_def destroy_message_def IsSnapshot_def IsRaw_def IsPersistentHandle_def
      IsFinalizerInvocationRequest_def kPersistentHandleSnapshotLen_def kFinalizerSnapshotLen_def)

text \<open>The discipline of the isolate: exactly the control messages are enqueued with
  \<open>before_events\<close>.\<close>

definition post_list :: "message list \<Rightarrow> message list \<Rightarrow> message list" where
  "post_list posted ms = fold (\<lambda>m. enqueue_list (control m) m) posted ms"

lemma enqueue_list_blocks:
  assumes "\<forall>c\<in>set cs. control c" and "\<forall>e\<in>set es. \<not> control e"
  shows "enqueue_list (control m) m (cs @ es) =
           (if control m then (cs @ [m]) @ es else cs @ es @ [m])"
proof -
  have "takeWhile control (cs @ es) = cs" and "dropWhile control (cs @ es) = es"
    using assms by (auto simp: takeWhile_append dropWhile_append takeWhile_eq_Nil_iff
      dropWhile_eq_self_iff neq_Nil_conv)
  then show ?thesis by (simp add: enqueue_list_def)
qed

lemma post_list_blocks:
  assumes "\<forall>c\<in>set cs. control c" and "\<forall>e\<in>set es. \<not> control e"
  shows "post_list posted (cs @ es) =
           (cs @ filter control posted) @ (es @ filter (\<lambda>m. \<not> control m) posted)"
  using assms
proof (induction posted arbitrary: cs es)
  case Nil
  then show ?case by (simp add: post_list_def)
next
  case (Cons m posted)
  show ?case
  proof (cases "control m")
    case True
    then show ?thesis
      using Cons.IH [of "cs @ [m]" es] Cons.prems enqueue_list_blocks [OF Cons.prems, of m]
      by (simp add: post_list_def)
  next
    case False
    then show ?thesis
      using Cons.IH [of cs "es @ [m]"] Cons.prems enqueue_list_blocks [OF Cons.prems, of m]
      by (simp add: post_list_def)
  qed
qed

text \<open>
  C7.  Isolate control messages are never overtaken by events.  When exactly the messages addressed
  to the illegal port are enqueued with \<open>before_events\<close>, the linked queue is at every moment the
  control messages in the order they were posted followed by the other messages in the order they
  were posted.
\<close>

theorem control_messages_first:
  assumes "distinct (map msg_id posted)"
  shows "returns (run_queue Enqueue Dequeue Clear MessageQueue (map (\<lambda>m. OpEnqueue m (control m)) posted))
           (\<lambda>(_, q). queue_rep q (filter control posted @ filter (\<lambda>m. \<not> control m) posted))"
proof -
  have run: "snd (run_list ms (map (\<lambda>m. OpEnqueue m (control m)) posted)) = post_list posted ms" for ms
    by (induction posted arbitrary: ms) (simp_all add: post_list_def)
  have "enqueued (map (\<lambda>m. OpEnqueue m (control m)) posted) = posted"
    by (induction posted) simp_all
  then show ?thesis
    using mq.run_rep [OF MessageQueue_rep, of "map (\<lambda>m. OpEnqueue m (control m)) posted"] assms run [of "[]"]
      post_list_blocks [of "[]" "[]" posted]
    by (auto simp: returns_def)
qed

theorem control_messages_first_witness:
  "let posted = [raw_message 1 5 0 kNormalPriority, finalizer_message 2 9 kNormalPriority,
                 raw_message 3 5 1 kNormalPriority, finalizer_message 4 9 kNormalPriority]
   in distinct (map msg_id posted) \<and>
      returns (run_queue Enqueue Dequeue Clear MessageQueue (map (\<lambda>m. OpEnqueue m (control m)) posted))
        (\<lambda>(_, q). queue_rep q (map (\<lambda>i. posted ! i) [1, 3, 0, 2]))"
  using control_messages_first [of "[raw_message 1 5 0 kNormalPriority, finalizer_message 2 9 kNormalPriority,
                 raw_message 3 5 1 kNormalPriority, finalizer_message 4 9 kNormalPriority]"]
  by (simp add: control_def raw_message_def finalizer_message_def kIllegalPort_def)

lemma fd_destroy_loop_eq: "fd_destroy_loop rs i = map (\<lambda>r. (fd_callback r, fd_peer r)) (drop i rs)"
proof (induction rs i rule: fd_destroy_loop.induct)
  case (1 rs i)
  then show ?case
    by (subst fd_destroy_loop.simps) (simp add: Cons_nth_drop_Suc [symmetric])
qed

fun take_finalizers :: "nat \<Rightarrow> finalizable_data \<Rightarrow> (finalizable list \<times> finalizable_data) exec" where
  "take_finalizers 0 fd = ret ([], fd)"
| "take_finalizers (Suc n) fd =
     ebind (fd_take fd) (\<lambda>(r, fd'). ebind (take_finalizers n fd') (\<lambda>(rs, fd''). ret (r # rs, fd'')))"

lemma take_finalizers_ok:
  assumes "fd_take_position fd + n \<le> length (fd_records fd)"
  shows "take_finalizers n fd =
           ret (take n (drop (fd_take_position fd) (fd_records fd)),
                fd\<lparr>fd_take_position := fd_take_position fd + n\<rparr>)"
  using assms
proof (induction n arbitrary: fd)
  case 0
  then show ?case by simp
next
  case (Suc n)
  let ?fd = "fd\<lparr>fd_take_position := fd_take_position fd + 1\<rparr>"
  have "take_finalizers n ?fd =
      ret (take n (drop (fd_take_position fd + 1) (fd_records fd)),
           fd\<lparr>fd_take_position := fd_take_position fd + 1 + n\<rparr>)"
    using Suc.IH [of ?fd] Suc.prems by simp
  moreover have "drop (fd_take_position fd) (fd_records fd) =
      fd_records fd ! fd_take_position fd # drop (fd_take_position fd + 1) (fd_records fd)"
    using Suc.prems by (simp add: Cons_nth_drop_Suc)
  ultimately show ?case
    using Suc.prems by (simp add: fd_take_def)
qed

text \<open>
  C8.  External data travelling in a message is finalized exactly once.  After the receiver has
  taken the first \<open>k\<close> of the records put into the finalizable data, it holds exactly those, and
  destroying the message's data runs the finalizers of exactly the remaining ones, in order; after
  DropFinalizers (a message that could not be posted) no finalizer runs.
\<close>

theorem finalizers_run_exactly_once:
  assumes "k \<le> length rs"
  shows "returns (take_finalizers k (fold (\<lambda>(sz, r) fd. fd_put fd sz r) rs MessageFinalizableData))
           (\<lambda>(taken, fd). taken = take k (map snd rs) \<and>
              fd_destroy fd = map (\<lambda>r. (fd_callback r, fd_peer r)) (drop k (map snd rs)) \<and>
              fd_destroy (fd_drop_finalizers fd) = [] \<and>
              fd_external_size fd = sum_list (map fst rs))"
proof -
  have "fd_records (fold (\<lambda>(sz, r) fd. fd_put fd sz r) rs fd) = fd_records fd @ map snd rs \<and>
        fd_take_position (fold (\<lambda>(sz, r) fd. fd_put fd sz r) rs fd) = fd_take_position fd \<and>
        fd_external_size (fold (\<lambda>(sz, r) fd. fd_put fd sz r) rs fd) = fd_external_size fd + sum_list (map fst rs)"
    for fd
    by (induction rs arbitrary: fd) (auto simp: fd_put_def)
  from this [of MessageFinalizableData] show ?thesis
    using assms
    by (subst take_finalizers_ok)
      (simp_all add: MessageFinalizableData_def fd_destroy_def fd_drop_finalizers_def fd_destroy_loop_eq)
qed

theorem finalizers_run_exactly_once_witness:
  "let r1 = \<lparr>fd_data = 1, fd_peer = 10, fd_callback = 7, fd_write_callback = None\<rparr>;
       r2 = \<lparr>fd_data = 2, fd_peer = 20, fd_callback = 8, fd_write_callback = None\<rparr>
   in 1 \<le> length [(3 :: int, r1), (4, r2)] \<and>
      returns (take_finalizers 1 (fold (\<lambda>(sz, r) fd. fd_put fd sz r) [(3, r1), (4, r2)] MessageFinalizableData))
        (\<lambda>(taken, fd). taken = [r1] \<and> fd_destroy fd = [(8, 20)] \<and>
           fd_destroy (fd_drop_finalizers fd) = [] \<and> fd_external_size fd = 7)"
  using finalizers_run_exactly_once [of 1
      "[(3, \<lparr>fd_data = 1, fd_peer = 10, fd_callback = 7, fd_write_callback = None\<rparr>),
        (4, \<lparr>fd_data = 2, fd_peer = 20, fd_callback = 8, fd_write_callback = None\<rparr>)]"]
  by (simp add: take_Suc_Cons)

end
