(* ===== verification/Message_Handler.thy ===== *)
theory Message_Handler
  imports Message_Queue
begin

text \<open>
  \<open>runtime/vm/message_handler.h\<close> and \<open>message_handler.cc\<close>: the entity that owns the two message
  queues of an isolate (or native port) and processes them on a thread-pool task.

  Every field of \<open>MessageHandler\<close> is a field of the record \<open>handler\<close> (\<open>ports_\<close>, which only the port
  map touches, is in \<open>Port_Map\<close>).  The code gives up the monitor at five kinds of places: while an
  isolate scope is entered, while \<open>HandleMessage\<close>, the start callback or a pause notification runs,
  and in \<open>Wait\<close>.  At each of them other threads may post messages or change flags, so each is a
  function of the record \<open>env\<close> that maps the handler (and an external state \<open>'s\<close>) to what it is
  when the monitor is re-acquired; these functions stand for the virtual methods of the subclass and
  for the other threads.  What the code does to the outside is appended to \<open>log\<close>.

  Not modelled: trace output (\<open>FLAG_trace_isolates\<close>), \<open>DebugDump\<close>, the idle-time bookkeeping of
  \<open>HandleMessages\<close>, and \<open>CheckAccess\<close> (debug builds only).
\<close>

section \<open>State\<close>

datatype MessageStatus = kOK | kError | kShutdown

instantiation MessageStatus :: linorder
begin

fun status_rank :: "MessageStatus \<Rightarrow> nat" where
  "status_rank kOK = 0"
| "status_rank kError = 1"
| "status_rank kShutdown = 2"

definition less_eq_MessageStatus :: "MessageStatus \<Rightarrow> MessageStatus \<Rightarrow> bool" where
  "less_eq_MessageStatus a b \<longleftrightarrow> status_rank a \<le> status_rank b"

definition less_MessageStatus :: "MessageStatus \<Rightarrow> MessageStatus \<Rightarrow> bool" where
  "less_MessageStatus a b \<longleftrightarrow> status_rank a < status_rank b"

instance
proof
  fix x y z :: MessageStatus
  show "x < y \<longleftrightarrow> x \<le> y \<and> \<not> y \<le> x"
    by (auto simp: less_MessageStatus_def less_eq_MessageStatus_def)
  show "x \<le> x" "x \<le> y \<or> y \<le> x" "x \<le> y \<Longrightarrow> y \<le> z \<Longrightarrow> x \<le> z"
    by (auto simp: less_eq_MessageStatus_def)
  show "x \<le> y \<Longrightarrow> y \<le> x \<Longrightarrow> x = y"
    by (cases x; cases y) (simp_all add: less_eq_MessageStatus_def)
qed

end

lemma kOK_least [simp]: "kOK \<le> s" "max kOK s = s" "max s kOK = s"
  by (cases s; simp add: less_eq_MessageStatus_def max_def)+

lemma kShutdown_greatest [simp]: "s \<le> kShutdown" "max kShutdown s = kShutdown" "max s kShutdown = kShutdown"
  by (cases s; simp add: less_eq_MessageStatus_def max_def)+

text \<open>What the handler uses of its isolate.\<close>

record isolate =
  is_runnable :: bool
  resume_request :: bool

record handler =
  queue :: mqueue
  oob_queue :: mqueue
  oob_message_handling_allowed :: bool
  paused_for_messages :: bool
  live_ports :: int
  paused_count :: int
  should_pause_on_start :: bool
  should_pause_on_exit :: bool
  is_paused_on_start :: bool
  is_paused_on_exit :: bool
  remembered_paused_on_exit_status :: MessageStatus
  paused_timestamp :: int
  task_running :: bool
  delete_me :: bool
  pool :: "nat option"
  start_callback :: "nat option"
  end_callback :: "nat option"
  callback_data :: nat
  owner :: "isolate option"

definition MessageHandler :: "isolate option \<Rightarrow> handler" where
  "MessageHandler own =
     \<lparr>queue = MessageQueue, oob_queue = MessageQueue, oob_message_handling_allowed = True,
      paused_for_messages = False, live_ports = 0, paused_count = 0, should_pause_on_start = False,
      should_pause_on_exit = False, is_paused_on_start = False, is_paused_on_exit = False,
      remembered_paused_on_exit_status = kOK, paused_timestamp = - 1, task_running = False,
      delete_me = False, pool = None, start_callback = None, end_callback = None,
      callback_data = 0, owner = own\<rparr>"

datatype event =
    Handled message MessageStatus      \<comment> \<open>HandleMessage was called and returned\<close>
  | Destroyed "release list"           \<comment> \<open>messages cleared from a queue\<close>
  | TaskLaunched bool                  \<comment> \<open>\<open>pool_->Run<MessageHandlerTask>\<close> and its result\<close>
  | WokeWaiter                         \<comment> \<open>\<open>ml.Notify()\<close>\<close>
  | Notified Priority                  \<comment> \<open>\<open>MessageNotify\<close>\<close>
  | EndCallback nat nat
  | Deleted                            \<comment> \<open>\<open>delete this\<close>\<close>

record 's world =
  mh :: handler
  ext :: 's
  log :: "event list"

datatype WaitResult = kNotified | kTimedOut

record 's env =
  pool_run :: "'s \<Rightarrow> bool \<times> 's"
  enter_isolate :: "handler \<times> 's \<Rightarrow> handler \<times> 's"
  HandleMessage :: "message \<Rightarrow> handler \<times> 's \<Rightarrow> MessageStatus \<times> handler \<times> 's"
  call_start :: "nat \<Rightarrow> nat \<Rightarrow> handler \<times> 's \<Rightarrow> MessageStatus \<times> handler \<times> 's"
  notify_pause_on_start :: "handler \<times> 's \<Rightarrow> handler \<times> 's"
  notify_pause_on_exit :: "handler \<times> 's \<Rightarrow> handler \<times> 's"
  wait_monitor :: "handler \<times> 's \<Rightarrow> WaitResult \<times> handler \<times> 's"
  current_time :: "'s \<Rightarrow> int"

definition emit :: "event list \<Rightarrow> 's world \<Rightarrow> 's world" where
  "emit es w = w\<lparr>log := log w @ es\<rparr>"

text \<open>Run a callback with the monitor released.\<close>

definition unlocked :: "(handler \<times> 's \<Rightarrow> handler \<times> 's) \<Rightarrow> 's world \<Rightarrow> 's world" where
  "unlocked f w = (case f (mh w, ext w) of (h, s) \<Rightarrow> w\<lparr>mh := h, ext := s\<rparr>)"

definition unlocked_result ::
  "(handler \<times> 's \<Rightarrow> 'r \<times> handler \<times> 's) \<Rightarrow> 's world \<Rightarrow> 'r \<times> 's world" where
  "unlocked_result f w = (case f (mh w, ext w) of (r, h, s) \<Rightarrow> (r, w\<lparr>mh := h, ext := s\<rparr>))"

section \<open>Operations\<close>

definition launch_task :: "'s env \<Rightarrow> 's world \<Rightarrow> bool \<times> 's world" where
  "launch_task E w =
     (case pool_run E (ext w) of (ok, s) \<Rightarrow> (ok, emit [TaskLaunched ok] (w\<lparr>ext := s\<rparr>)))"

definition Run ::
  "'s env \<Rightarrow> nat \<Rightarrow> nat option \<Rightarrow> nat option \<Rightarrow> nat \<Rightarrow> 's world \<Rightarrow> bool \<times> 's world" where
  "Run E p start_cb end_cb data w =
     (let h = (mh w)\<lparr>pool := Some p, start_callback := start_cb, end_callback := end_cb,
                    callback_data := data, task_running := True\<rparr>;
          (result, w1) = launch_task E (w\<lparr>mh := h\<rparr>)
      in if \<not> result
         then (result, w1\<lparr>mh := (mh w1)\<lparr>pool := None, start_callback := None, end_callback := None,
                                       callback_data := 0, task_running := False\<rparr>\<rparr>)
         else (result, w1))"

definition PostMessage :: "'s env \<Rightarrow> message \<Rightarrow> bool \<Rightarrow> 's world \<Rightarrow> 's world exec" where
  "PostMessage E message before_events w =
     (let h = mh w; saved_priority = priority message in
      ebind (if IsOOB message
             then ebind (Enqueue (oob_queue h) message before_events) (\<lambda>q. ret (h\<lparr>oob_queue := q\<rparr>))
             else ebind (Enqueue (queue h) message before_events) (\<lambda>q. ret (h\<lparr>queue := q\<rparr>)))
        (\<lambda>h1.
           let w1 = w\<lparr>mh := h1\<rparr>;
               w2 = (if paused_for_messages h1 then emit [WokeWaiter] w1 else w1);
               w3 = (if pool h1 \<noteq> None \<and> \<not> task_running h1
                     then snd (launch_task E (w2\<lparr>mh := (mh w2)\<lparr>task_running := True\<rparr>\<rparr>))
                     else w2)
           in ret (emit [Notified saved_priority] w3)))"

definition DequeueMessage :: "Priority \<Rightarrow> handler \<Rightarrow> (message option \<times> handler) exec" where
  "DequeueMessage min_priority h =
     ebind (Dequeue (oob_queue h)) (\<lambda>(message, q).
       let h1 = h\<lparr>oob_queue := q\<rparr> in
       if message = None \<and> min_priority < kOOBPriority
       then ebind (Dequeue (queue h1)) (\<lambda>(message', q'). ret (message', h1\<lparr>queue := q'\<rparr>))
       else ret (message, h1))"

definition ClearOOBQueue :: "'s world \<Rightarrow> 's world exec" where
  "ClearOOBQueue w =
     ebind (Clear (oob_queue (mh w)))
       (\<lambda>(q, out). ret (emit [Destroyed out] (w\<lparr>mh := (mh w)\<lparr>oob_queue := q\<rparr>\<rparr>)))"

definition paused :: "handler \<Rightarrow> bool" where
  "paused h \<longleftrightarrow> paused_count h > 0"

text \<open>One iteration of the message loop: \<open>Inl\<close> breaks out of it, \<open>Inr\<close> goes on with the updated
  locals (\<open>allow_normal_messages\<close>, \<open>max_status\<close>, \<open>message\<close>).\<close>

definition handle_round ::
  "'s env \<Rightarrow> bool \<Rightarrow> bool \<Rightarrow> MessageStatus \<Rightarrow> message \<Rightarrow> 's world \<Rightarrow>
   ((MessageStatus \<times> 's world) + (bool \<times> MessageStatus \<times> message option \<times> 's world)) exec" where
  "handle_round E allow_normal_messages allow_multiple_normal_messages max_status m w =
     (let saved_priority = priority m;
          (status, w0) = unlocked_result (HandleMessage E m) w;
          w1 = emit [Handled m status] w0;
          max_status' = (if status > max_status then status else max_status)
      in if status = kShutdown
         then ebind (ClearOOBQueue w1) (\<lambda>w2. ret (Inl (max_status', w2)))
         else
           (let allow' = (if saved_priority = kNormalPriority \<and> \<not> allow_multiple_normal_messages
                          then False else allow_normal_messages);
                min_priority = (if max_status' = kOK \<and> allow' \<and> \<not> paused (mh w1)
                                then kNormalPriority else kOOBPriority)
            in ebind (DequeueMessage min_priority (mh w1)) (\<lambda>(m', h').
                 ret (Inr (allow', max_status', m', w1\<lparr>mh := h'\<rparr>)))))"

partial_function (option) handle_loop ::
  "'s env \<Rightarrow> bool \<Rightarrow> bool \<Rightarrow> MessageStatus \<Rightarrow> message option \<Rightarrow> 's world \<Rightarrow> (MessageStatus \<times> 's world) exec"
where
  "handle_loop E allow_normal_messages allow_multiple_normal_messages max_status message w =
     (case message of
        None \<Rightarrow> ret (max_status, w)
      | Some m \<Rightarrow>
          ebind (handle_round E allow_normal_messages allow_multiple_normal_messages max_status m w) (\<lambda>r.
            case r of
              Inl result \<Rightarrow> ret result
            | Inr (allow', max_status', message', w') \<Rightarrow>
                handle_loop E allow' allow_multiple_normal_messages max_status' message' w'))"

definition HandleMessages ::
  "'s env \<Rightarrow> bool \<Rightarrow> bool \<Rightarrow> 's world \<Rightarrow> (MessageStatus \<times> 's world) exec" where
  "HandleMessages E allow_normal_messages allow_multiple_normal_messages w =
     (let w1 = unlocked (enter_isolate E) w;
          min_priority = (if allow_normal_messages \<and> \<not> paused (mh w1)
                          then kNormalPriority else kOOBPriority)
      in ebind (DequeueMessage min_priority (mh w1)) (\<lambda>r.
           handle_loop E allow_normal_messages allow_multiple_normal_messages kOK (fst r)
             (w1\<lparr>mh := snd r\<rparr>)))"

definition HandleNextMessage :: "'s env \<Rightarrow> 's world \<Rightarrow> (MessageStatus \<times> 's world) exec" where
  "HandleNextMessage E w = HandleMessages E True False w"

definition HandleOOBMessages :: "'s env \<Rightarrow> 's world \<Rightarrow> (MessageStatus \<times> 's world) exec" where
  "HandleOOBMessages E w =
     (if \<not> oob_message_handling_allowed (mh w) then ret (kOK, w)
      else HandleMessages E False False w)"

definition set_paused_for_messages :: "bool \<Rightarrow> 's world \<Rightarrow> 's world" where
  "set_paused_for_messages b w = w\<lparr>mh := (mh w)\<lparr>paused_for_messages := b\<rparr>\<rparr>"

text \<open>The waiting loop: \<open>Inl status\<close> is the early return with \<open>status\<close>, \<open>Inr ()\<close> leaves the loop.\<close>

partial_function (option) pause_loop ::
  "'s env \<Rightarrow> 's world \<Rightarrow> ((MessageStatus + unit) \<times> 's world) exec" where
  "pause_loop E w =
     (if queue_IsEmpty (queue (mh w)) \<and> queue_IsEmpty (oob_queue (mh w))
      then (let (wr, w1) = unlocked_result (wait_monitor E) w in
            if wr = kTimedOut then ret (Inr (), w1)
            else if queue_IsEmpty (queue (mh w1))
            then ebind (HandleMessages E False False w1) (\<lambda>r.
                   if fst r \<noteq> kOK then ret (Inl (fst r), set_paused_for_messages False (snd r))
                   else pause_loop E (snd r))
            else pause_loop E w1)
      else ret (Inr (), w))"

definition PauseAndHandleAllMessages :: "'s env \<Rightarrow> 's world \<Rightarrow> (MessageStatus \<times> 's world) exec" where
  "PauseAndHandleAllMessages E w =
     ebind (pause_loop E (set_paused_for_messages True w)) (\<lambda>(r, w1).
       case r of
         Inl status \<Rightarrow> ret (status, w1)
       | Inr _ \<Rightarrow> HandleMessages E True True (set_paused_for_messages False w1))"

definition ShouldPauseOnStart :: "MessageStatus \<Rightarrow> handler \<Rightarrow> bool" where
  "ShouldPauseOnStart status h =
     (case owner h of
        None \<Rightarrow> False
      | Some own \<Rightarrow> status \<noteq> kShutdown \<and> should_pause_on_start h \<and> is_runnable own)"

definition ShouldPauseOnExit :: "MessageStatus \<Rightarrow> handler \<Rightarrow> bool" where
  "ShouldPauseOnExit status h =
     (case owner h of
        None \<Rightarrow> False
      | Some own \<Rightarrow> status \<noteq> kShutdown \<and> should_pause_on_exit h \<and> is_runnable own)"

definition HasOOBMessages :: "handler \<Rightarrow> bool" where
  "HasOOBMessages h \<longleftrightarrow> \<not> queue_IsEmpty (oob_queue h)"

definition HasMessages :: "handler \<Rightarrow> bool" where
  "HasMessages h \<longleftrightarrow> \<not> queue_IsEmpty (queue h)"

definition HasLivePorts :: "handler \<Rightarrow> bool" where
  "HasLivePorts h \<longleftrightarrow> live_ports h > 0"

definition clear_resume_request :: "handler \<Rightarrow> handler" where
  "clear_resume_request h = h\<lparr>owner := map_option (\<lambda>own. own\<lparr>resume_request := False\<rparr>) (owner h)\<rparr>"

definition PausedOnStartLocked :: "'s env \<Rightarrow> bool \<Rightarrow> 's world \<Rightarrow> 's world" where
  "PausedOnStartLocked E p w =
     (if p
      then (let w1 = unlocked (notify_pause_on_start E)
                       (w\<lparr>mh := (mh w)\<lparr>paused_timestamp := current_time E (ext w)\<rparr>\<rparr>)
            in w1\<lparr>mh := (mh w1)\<lparr>is_paused_on_start := True\<rparr>\<rparr>)
      else w\<lparr>mh := (clear_resume_request ((mh w)\<lparr>paused_timestamp := - 1\<rparr>))
                     \<lparr>is_paused_on_start := False\<rparr>\<rparr>)"

definition PausedOnExitLocked :: "'s env \<Rightarrow> bool \<Rightarrow> 's world \<Rightarrow> 's world" where
  "PausedOnExitLocked E p w =
     (if p
      then (let w1 = unlocked (notify_pause_on_exit E)
                       (w\<lparr>mh := (mh w)\<lparr>paused_timestamp := current_time E (ext w)\<rparr>\<rparr>)
            in w1\<lparr>mh := (mh w1)\<lparr>is_paused_on_exit := True\<rparr>\<rparr>)
      else w\<lparr>mh := (clear_resume_request ((mh w)\<lparr>paused_timestamp := - 1\<rparr>))
                     \<lparr>is_paused_on_exit := False\<rparr>\<rparr>)"

definition delete_handler :: "'s world \<Rightarrow> 's world exec" where
  "delete_handler w =
     ebind (Clear (queue (mh w))) (\<lambda>(q, out).
     ebind (Clear (oob_queue (mh w))) (\<lambda>(oq, oout).
       ret (emit [Destroyed out, Destroyed oout, Deleted]
             (w\<lparr>mh := (mh w)\<lparr>queue := q, oob_queue := oq, pool := None\<rparr>\<rparr>))))"

text \<open>
  \<open>TaskCallback\<close> in its parts.  Those that pause may return from the function
  (\<open>None\<close>); otherwise they give the status with which the next part continues.
\<close>

definition stop_task :: "'s world \<Rightarrow> 's world" where
  "stop_task w = w\<lparr>mh := (mh w)\<lparr>task_running := False\<rparr>\<rparr>"

definition task_pause_on_start :: "'s env \<Rightarrow> 's world \<Rightarrow> (MessageStatus option \<times> 's world) exec" where
  "task_pause_on_start E w =
     (if ShouldPauseOnStart kOK (mh w)
      then (let w1 = (if \<not> is_paused_on_start (mh w) then PausedOnStartLocked E True w else w) in
            ebind (HandleMessages E False False w1) (\<lambda>(status, w2).
              if ShouldPauseOnStart status (mh w2) then ret (None, stop_task w2)
              else ret (Some status, PausedOnStartLocked E False w2)))
      else ret (Some kOK, w))"

definition task_paused_on_exit ::
  "'s env \<Rightarrow> MessageStatus \<Rightarrow> 's world \<Rightarrow> (MessageStatus option \<times> 's world) exec" where
  "task_paused_on_exit E status w =
     (if is_paused_on_exit (mh w)
      then ebind (HandleMessages E False False w) (\<lambda>(status1, w1).
             if ShouldPauseOnExit status1 (mh w1) then ret (None, stop_task w1)
             else (let w2 = PausedOnExitLocked E False w1
                   in ret (Some (remembered_paused_on_exit_status (mh w2)), w2)))
      else ret (Some status, w))"

definition task_messages ::
  "'s env \<Rightarrow> MessageStatus \<Rightarrow> 's world \<Rightarrow> (MessageStatus \<times> 's world) exec" where
  "task_messages E status w =
     (if status = kOK
      then (let (status1, w1) =
              (case start_callback (mh w) of
                 None \<Rightarrow> (status, w)
               | Some cb \<Rightarrow>
                   (let (st, w') = unlocked_result (call_start E cb (callback_data (mh w))) w
                    in (st, w'\<lparr>mh := (mh w')\<lparr>start_callback := None\<rparr>\<rparr>)))
            in if status1 \<noteq> kShutdown then HandleMessages E (status1 = kOK) True w1
               else ret (status1, w1))
      else ret (status, w))"

definition task_exit ::
  "'s env \<Rightarrow> MessageStatus \<Rightarrow> 's world \<Rightarrow> (MessageStatus option \<times> 's world) exec" where
  "task_exit E status w =
     (if ShouldPauseOnExit status (mh w)
      then (let w1 = PausedOnExitLocked E True
                       (w\<lparr>mh := (mh w)\<lparr>remembered_paused_on_exit_status := status\<rparr>\<rparr>) in
            ebind (HandleMessages E False False w1) (\<lambda>(status1, w2).
              if ShouldPauseOnExit status1 (mh w2) then ret (None, stop_task w2)
              else ret (Some status1, PausedOnExitLocked E False w2)))
      else ret (Some status, w))"

definition task_finish :: "bool \<Rightarrow> 's world \<Rightarrow> 's world exec" where
  "task_finish exiting w =
     (let w1 = (if exiting then w\<lparr>mh := (mh w)\<lparr>pool := None\<rparr>\<rparr> else w);
          w2 = stop_task w1;
          w3 = (if exiting
                then (case end_callback (mh w1) of
                        None \<Rightarrow> w2 | Some cb \<Rightarrow> emit [EndCallback cb (callback_data (mh w1))] w2)
                else w2)
      in if exiting \<and> delete_me (mh w1) then delete_handler w3 else ret w3)"

definition task_end :: "'s env \<Rightarrow> MessageStatus \<Rightarrow> 's world \<Rightarrow> 's world exec" where
  "task_end E status w =
     (if status \<noteq> kOK \<or> \<not> HasLivePorts (mh w)
      then ebind (task_exit E status w) (\<lambda>(r, w1). case r of None \<Rightarrow> ret w1
             | Some _ \<Rightarrow> task_finish True w1)
      else task_finish False w)"

definition TaskCallback :: "'s env \<Rightarrow> 's world \<Rightarrow> 's world exec" where
  "TaskCallback E w =
     ebind (task_pause_on_start E w) (\<lambda>(r, w1). case r of None \<Rightarrow> ret w1 | Some status \<Rightarrow>
     ebind (task_paused_on_exit E status w1) (\<lambda>(r, w2). case r of None \<Rightarrow> ret w2 | Some status \<Rightarrow>
     ebind (task_messages E status w2) (\<lambda>(status, w3). task_end E status w3)))"

definition ClosePort :: "int \<Rightarrow> handler \<Rightarrow> handler" where
  "ClosePort p h = h"

definition CloseAllPorts :: "'s world \<Rightarrow> 's world exec" where
  "CloseAllPorts w =
     ebind (Clear (queue (mh w))) (\<lambda>(q, out).
     ebind (Clear (oob_queue (mh w))) (\<lambda>(oq, oout).
       ret (emit [Destroyed out, Destroyed oout]
             (w\<lparr>mh := (mh w)\<lparr>queue := q, oob_queue := oq\<rparr>\<rparr>))))"

definition RequestDeletion :: "'s world \<Rightarrow> 's world exec" where
  "RequestDeletion w =
     (if task_running (mh w) then ret (w\<lparr>mh := (mh w)\<lparr>delete_me := True\<rparr>\<rparr>)
      else delete_handler w)"

definition increment_live_ports :: "handler \<Rightarrow> handler" where
  "increment_live_ports h = h\<lparr>live_ports := live_ports h + 1\<rparr>"

definition decrement_live_ports :: "handler \<Rightarrow> handler" where
  "decrement_live_ports h = h\<lparr>live_ports := live_ports h - 1\<rparr>"

definition increment_paused :: "handler \<Rightarrow> handler" where
  "increment_paused h = h\<lparr>paused_count := paused_count h + 1\<rparr>"

definition decrement_paused :: "handler \<Rightarrow> handler" where
  "decrement_paused h = h\<lparr>paused_count := paused_count h - 1\<rparr>"

definition AcquireQueues :: "handler \<Rightarrow> handler" where
  "AcquireQueues h = h\<lparr>oob_message_handling_allowed := False\<rparr>"

definition ReleaseQueues :: "handler \<Rightarrow> handler" where
  "ReleaseQueues h = h\<lparr>oob_message_handling_allowed := True\<rparr>"

declare handle_loop.simps [code] pause_loop.simps [code]

section \<open>The representation of a handler\<close>

definition handler_rep :: "handler \<Rightarrow> message list \<Rightarrow> message list \<Rightarrow> bool" where
  "handler_rep h ns os \<longleftrightarrow>
     queue_rep (queue h) ns \<and> queue_rep (oob_queue h) os \<and>
     (\<forall>m\<in>set ns. \<not> IsOOB m) \<and> (\<forall>m\<in>set os. IsOOB m)"

definition sound :: "handler \<Rightarrow> bool" where
  "sound h \<longleftrightarrow> (\<exists>ns os. handler_rep h ns os)"

text \<open>What is asked of the code that runs while the monitor is released: it leaves the queues well
  formed (other threads reach them only through \<open>PostMessage\<close>).\<close>

definition env_sound :: "'s env \<Rightarrow> bool" where
  "env_sound E \<longleftrightarrow>
     (\<forall>h s. sound h \<longrightarrow>
        sound (fst (enter_isolate E (h, s))) \<and>
        (\<forall>m. sound (fst (snd (HandleMessage E m (h, s))))) \<and>
        (\<forall>cb d. sound (fst (snd (call_start E cb d (h, s))))) \<and>
        sound (fst (notify_pause_on_start E (h, s))) \<and>
        sound (fst (notify_pause_on_exit E (h, s))) \<and>
        sound (fst (snd (wait_monitor E (h, s)))))"

fun handled :: "event list \<Rightarrow> (message \<times> MessageStatus) list" where
  "handled [] = []"
| "handled (Handled m st # es) = (m, st) # handled es"
| "handled (_ # es) = handled es"

lemma handled_append [simp]: "handled (xs @ ys) = handled xs @ handled ys"
  by (induction xs rule: handled.induct) simp_all

lemma emit_simps [simp]:
  "mh (emit es w) = mh w" "ext (emit es w) = ext w" "log (emit es w) = log w @ es"
  by (simp_all add: emit_def)

lemma MessageHandler_rep [simp]: "handler_rep (MessageHandler own) [] []"
  by (simp add: handler_rep_def MessageHandler_def)

lemma soundI: "handler_rep h ns os \<Longrightarrow> sound h"
  by (auto simp: sound_def)

lemma set_enqueue_list [simp]: "set (enqueue_list b m ms) = insert m (set ms)"
  using mset_enqueue_list [of b m ms] by (metis set_mset_add_mset_insert set_mset_mset)

text \<open>\<open>PostMessage\<close> puts the message into the queue of its priority, and launches a task exactly
  when the handler is attached to a pool and has none.\<close>

definition unposted :: "message \<Rightarrow> handler \<Rightarrow> bool" where
  "unposted m h \<longleftrightarrow> fresh m (queue h) \<and> fresh m (oob_queue h)"

lemma PostMessage_rep:
  assumes rep: "handler_rep (mh w) ns os" and new: "unposted m (mh w)"
  shows "returns (PostMessage E m b w) (\<lambda>w'.
           handler_rep (mh w') (if IsOOB m then ns else enqueue_list b m ns)
             (if IsOOB m then enqueue_list b m os else os) \<and>
           (task_running (mh w') \<longleftrightarrow> task_running (mh w) \<or> pool (mh w) \<noteq> None) \<and>
           pool (mh w') = pool (mh w) \<and> live_ports (mh w') = live_ports (mh w) \<and>
           (\<exists>ok. log w' = log w @
              (if paused_for_messages (mh w) then [WokeWaiter] else []) @
              (if pool (mh w) \<noteq> None \<and> \<not> task_running (mh w) then [TaskLaunched ok] else []) @
              [Notified (priority m)]))"
proof (cases "IsOOB m")
  case True
  then obtain q where "Enqueue (oob_queue (mh w)) m b = ret q" "queue_rep q (enqueue_list b m os)"
    using rep new mq.enq_rep [of "oob_queue (mh w)" os m b] by (auto simp: handler_rep_def unposted_def)
  with True rep show ?thesis
    by (auto simp: PostMessage_def handler_rep_def Let_def launch_task_def split: prod.splits)
next
  case False
  then obtain q where "Enqueue (queue (mh w)) m b = ret q" "queue_rep q (enqueue_list b m ns)"
    using rep new mq.enq_rep [of "queue (mh w)" ns m b] by (auto simp: handler_rep_def unposted_def)
  with False rep show ?thesis
    by (auto simp: PostMessage_def handler_rep_def Let_def launch_task_def split: prod.splits)
qed

text \<open>\<open>DequeueMessage\<close>: out-of-band messages first; normal messages only if the minimum priority
  admits them.\<close>

lemma DequeueMessage_rep:
  assumes "handler_rep h ns os"
  shows "returns (DequeueMessage p h) (\<lambda>(r, h').
           (case os of
              m # os' \<Rightarrow> r = Some m \<and> handler_rep h' ns os'
            | [] \<Rightarrow> (if p = kOOBPriority then r = None \<and> handler_rep h' ns []
                    else (case ns of
                            [] \<Rightarrow> r = None \<and> handler_rep h' [] []
                          | m # ns' \<Rightarrow> r = Some m \<and> handler_rep h' ns' []))))"
proof (cases os)
  case Nil
  then obtain q where q: "Dequeue (oob_queue h) = ret (None, q)" "queue_rep q []"
    using mq.deq_empty [of "oob_queue h"] assms by (auto simp: handler_rep_def)
  show ?thesis
  proof (cases ns)
    case Nil
    then obtain q' where "Dequeue (queue h) = ret (None, q')" "queue_rep q' []"
      using mq.deq_empty [of "queue h"] assms by (auto simp: handler_rep_def)
    with q \<open>os = []\<close> Nil assms show ?thesis
      by (cases p) (simp_all add: DequeueMessage_def handler_rep_def less_Priority_def)
  next
    case (Cons m ns')
    then obtain q' where "Dequeue (queue h) = ret (Some m, q')" "queue_rep q' ns'"
      using mq.deq_first [of "queue h" m ns'] assms by (auto simp: handler_rep_def)
    with q \<open>os = []\<close> Cons assms show ?thesis
      by (cases p) (simp_all add: DequeueMessage_def handler_rep_def less_Priority_def)
  qed
next
  case (Cons m os')
  then obtain q where "Dequeue (oob_queue h) = ret (Some m, q)" "queue_rep q os'"
    using mq.deq_first [of "oob_queue h" m os'] assms by (auto simp: handler_rep_def)
  with Cons assms show ?thesis
    by (simp add: DequeueMessage_def handler_rep_def)
qed

lemma CloseAllPorts_rep:
  assumes "handler_rep (mh w) ns os"
  shows "returns (CloseAllPorts w) (\<lambda>w'. handler_rep (mh w') [] [] \<and>
           live_ports (mh w') = live_ports (mh w) \<and>
           log w' = log w @ [Destroyed (concat (map destroy_message ns)),
                             Destroyed (concat (map destroy_message os))])"
proof -
  obtain q where "Clear (queue (mh w)) = ret (q, concat (map destroy_message ns))" "queue_rep q []"
    using mq.clr_rep [of "queue (mh w)" ns] assms by (auto simp: handler_rep_def)
  moreover obtain oq where "Clear (oob_queue (mh w)) = ret (oq, concat (map destroy_message os))" "queue_rep oq []"
    using mq.clr_rep [of "oob_queue (mh w)" os] assms by (auto simp: handler_rep_def)
  ultimately show ?thesis
    by (simp add: CloseAllPorts_def handler_rep_def)
qed

lemma delete_handler_returns:
  assumes "sound (mh w)"
  shows "\<exists>w'. delete_handler w = ret w'"
proof -
  obtain ns os where "queue_rep (queue (mh w)) ns" "queue_rep (oob_queue (mh w)) os"
    using assms by (auto simp: sound_def handler_rep_def)
  from mq.clr_rep [OF this(1)] mq.clr_rep [OF this(2)] show ?thesis
    by (auto simp: delete_handler_def elim!: returnsE)
qed

lemma ClearOOBQueue_rep:
  assumes "handler_rep (mh w) ns os"
  shows "returns (ClearOOBQueue w) (\<lambda>w'. handler_rep (mh w') ns [] \<and>
           log w' = log w @ [Destroyed (concat (map destroy_message os))] \<and> ext w' = ext w \<and>
           task_running (mh w') = task_running (mh w))"
  using mq.clr_rep [of "oob_queue (mh w)" os] assms
  by (auto simp: ClearOOBQueue_def handler_rep_def)

section \<open>HandleMessages\<close>

text \<open>Which message may be handled after which: nothing after a shutdown, and after an error (or
  after a normal message, when only one is wanted) only out-of-band messages.\<close>

fun may_follow :: "bool \<Rightarrow> message \<times> MessageStatus \<Rightarrow> message \<times> MessageStatus \<Rightarrow> bool" where
  "may_follow multiple (m1, st1) (m2, st2) \<longleftrightarrow>
     st1 \<noteq> kShutdown \<and> (st1 \<noteq> kOK \<or> (\<not> multiple \<and> \<not> IsOOB m1) \<longrightarrow> IsOOB m2)"

definition max_of :: "MessageStatus \<Rightarrow> (message \<times> MessageStatus) list \<Rightarrow> MessageStatus" where
  "max_of mx hs = fold (\<lambda>(_, st) acc. max acc st) hs mx"

definition handles :: "bool \<Rightarrow> bool \<Rightarrow> MessageStatus \<Rightarrow> 's world \<Rightarrow> MessageStatus \<Rightarrow> 's world \<Rightarrow> bool" where
  "handles allow multiple mx w st w' \<longleftrightarrow>
     sound (mh w') \<and> queue_IsEmpty (oob_queue (mh w')) \<and>
     (\<exists>es. log w' = log w @ es \<and> st = max_of mx (handled es) \<and>
           sorted_wrt (may_follow multiple) (handled es) \<and>
           (\<not> allow \<or> mx \<noteq> kOK \<longrightarrow> (\<forall>(m, _)\<in>set (handled es). IsOOB m)))"

lemma handles_done:
  "sound (mh w) \<Longrightarrow> queue_IsEmpty (oob_queue (mh w)) \<Longrightarrow> handles allow multiple mx w mx w"
  by (auto simp: handles_def max_of_def intro!: exI [of _ "[]"])

lemma handles_step:
  assumes rest: "handles allow' multiple mx' w1 st w'"
    and log1: "log w1 = log w @ [Handled m status]"
    and ne: "status \<noteq> kShutdown"
    and mx': "mx' = max mx status"
    and allow': "allow' = (if \<not> IsOOB m \<and> \<not> multiple then False else allow)"
    and quiet: "\<not> allow \<or> mx \<noteq> kOK \<Longrightarrow> IsOOB m"
  shows "handles allow multiple mx w st w'"
proof -
  obtain es where es: "log w' = log w1 @ es" "st = max_of mx' (handled es)"
      "sorted_wrt (may_follow multiple) (handled es)"
      "\<not> allow' \<or> mx' \<noteq> kOK \<longrightarrow> (\<forall>(m, _)\<in>set (handled es). IsOOB m)"
    using rest by (auto simp: handles_def)
  have "mx' = kOK \<longleftrightarrow> mx = kOK \<and> status = kOK"
    unfolding mx' by (cases mx; cases status) (simp_all add: max_def less_eq_MessageStatus_def)
  with es(4) allow' ne have "\<forall>x\<in>set (handled es). may_follow multiple (m, status) x"
    by (auto split: if_splits)
  with es log1 quiet allow' \<open>mx' = kOK \<longleftrightarrow> mx = kOK \<and> status = kOK\<close> rest show ?thesis
    unfolding handles_def
    by (intro conjI exI [of _ "Handled m status # es"])
      (auto simp: max_of_def mx' split: if_splits)
qed

lemma handles_shutdown:
  assumes "sound (mh w')" and "queue_IsEmpty (oob_queue (mh w'))"
    and "log w' = log w @ [Handled m kShutdown, Destroyed out]"
    and "\<not> allow \<or> mx \<noteq> kOK \<Longrightarrow> IsOOB m"
  shows "handles allow multiple mx w kShutdown w'"
  using assms by (auto simp: handles_def max_of_def intro!: exI [of _ "[Handled m kShutdown, Destroyed out]"])

lemma unlocked_result_props:
  assumes "unlocked_result f w = (r, w')"
  shows "mh w' = fst (snd (f (mh w, ext w)))" and "ext w' = snd (snd (f (mh w, ext w)))"
    and "log w' = log w" and "r = fst (f (mh w, ext w))"
  using assms by (auto simp: unlocked_result_def split: prod.splits)

lemma max_status_eq: "(if s > mx then s else mx) = max mx (s :: MessageStatus)"
  by (simp add: max_def less_le_not_le)

lemma handler_rep_facts:
  assumes "handler_rep h ns os"
  shows "queue_IsEmpty (oob_queue h) \<longleftrightarrow> os = []" and "queue_IsEmpty (queue h) \<longleftrightarrow> ns = []"
    and "m \<in> set os \<Longrightarrow> IsOOB m" and "m \<in> set ns \<Longrightarrow> \<not> IsOOB m"
  using assms by (auto simp: handler_rep_def queue_IsEmpty_iff)

text \<open>What \<open>DequeueMessage\<close> gives for the next round.\<close>

lemma next_message:
  assumes "sound h"
  shows "returns (DequeueMessage p h) (\<lambda>(r, h').
           sound h' \<and> (r = None \<longrightarrow> queue_IsEmpty (oob_queue h')) \<and>
           (\<forall>m. r = Some m \<and> p = kOOBPriority \<longrightarrow> IsOOB m))"
proof -
  obtain ns os where rep: "handler_rep h ns os"
    using assms by (auto simp: sound_def)
  show ?thesis
    using DequeueMessage_rep [OF rep, of p] handler_rep_facts(3) [OF rep]
    by (cases os; cases ns; cases p)
      (auto simp: handler_rep_facts(1) intro: soundI elim!: returns_mono)
qed

locale sound_env =
  fixes E :: "'s env"
  assumes sound_E: "env_sound E"
begin

lemma keeps_sound:
  assumes "sound h"
  shows "sound (fst (enter_isolate E (h, s)))" "sound (fst (snd (HandleMessage E m (h, s))))"
    "sound (fst (snd (call_start E cb d (h, s))))" "sound (fst (notify_pause_on_start E (h, s)))"
    "sound (fst (notify_pause_on_exit E (h, s)))" "sound (fst (snd (wait_monitor E (h, s))))"
  using sound_E assms by (auto simp: env_sound_def)

lemma handle_round_ok:
  assumes snd: "sound (mh w)" and quiet: "\<not> allow \<or> mx \<noteq> kOK \<Longrightarrow> IsOOB m"
  shows "returns (handle_round E allow multiple mx m w) (\<lambda>r. case r of
           Inl (st, w') \<Rightarrow> handles allow multiple mx w st w'
         | Inr (allow', mx', msg', w') \<Rightarrow>
             sound (mh w') \<and> (msg' = None \<longrightarrow> queue_IsEmpty (oob_queue (mh w'))) \<and>
             (\<forall>m'. msg' = Some m' \<longrightarrow> \<not> allow' \<or> mx' \<noteq> kOK \<longrightarrow> IsOOB m') \<and>
             (\<forall>st w''. handles allow' multiple mx' w' st w'' \<longrightarrow> handles allow multiple mx w st w''))"
proof -
  obtain status w0 where u: "unlocked_result (HandleMessage E m) w = (status, w0)"
    by (cases "unlocked_result (HandleMessage E m) w")
  let ?w1 = "emit [Handled m status] w0"
  have snd1: "sound (mh ?w1)" and log1: "log ?w1 = log w @ [Handled m status]"
    using unlocked_result_props [OF u] keeps_sound(2) [OF snd] by simp_all
  show ?thesis
  proof (cases "status = kShutdown")
    case True
    obtain ns os where rep: "handler_rep (mh ?w1) ns os"
      using snd1 by (auto simp: sound_def)
    have "returns (ClearOOBQueue ?w1) (\<lambda>w2. handles allow multiple mx w kShutdown w2)"
      using ClearOOBQueue_rep [OF rep] log1 True
      by (elim returns_mono) (auto intro!: handles_shutdown quiet simp: handler_rep_facts(1) intro: soundI)
    then show ?thesis
      unfolding handle_round_def using u True
      by (auto simp: max_status_eq Let_def elim!: returnsE simp del: emit_simps)
  next
    case False
    let ?allow' = "if priority m = kNormalPriority \<and> \<not> multiple then False else allow"
    let ?mx' = "max mx status"
    let ?p = "if ?mx' = kOK \<and> ?allow' \<and> \<not> paused (mh ?w1) then kNormalPriority else kOOBPriority"
    obtain r h' where d: "DequeueMessage ?p (mh ?w1) = ret (r, h')"
      and d': "sound h'" "r = None \<longrightarrow> queue_IsEmpty (oob_queue h')"
        "\<And>m. r = Some m \<Longrightarrow> ?p = kOOBPriority \<Longrightarrow> IsOOB m"
      using next_message [OF snd1, of ?p] by auto
    have "handle_round E allow multiple mx m w = ret (Inr (?allow', ?mx', r, ?w1\<lparr>mh := h'\<rparr>))"
      unfolding handle_round_def using u d False by (simp add: max_status_eq Let_def del: emit_simps)
    moreover have "IsOOB m' " if "r = Some m'" "\<not> ?allow' \<or> ?mx' \<noteq> kOK" for m'
      using d'(3) [OF that(1)] that(2) by auto
    moreover have "handles allow multiple mx w st w''"
      if "handles ?allow' multiple ?mx' (?w1\<lparr>mh := h'\<rparr>) st w''" for st w''
      by (rule handles_step [OF that _ False refl _ quiet])
        (use log1 in \<open>auto simp: IsOOB_def intro: Priority.exhaust [of "priority m"]\<close>)
    ultimately show ?thesis
      using d'(1,2) by auto
  qed
qed

lemma handle_loop_partial:
  assumes "handle_loop E allow multiple mx msg w = ret (st, w')"
    and "sound (mh w)" and "msg = None \<longrightarrow> queue_IsEmpty (oob_queue (mh w))"
    and "\<forall>m. msg = Some m \<longrightarrow> \<not> allow \<or> mx \<noteq> kOK \<longrightarrow> IsOOB m"
  shows "handles allow multiple mx w st w'"
proof -
  let ?pre = "\<lambda>allow mx msg w. sound (mh w) \<and> (msg = None \<longrightarrow> queue_IsEmpty (oob_queue (mh w))) \<and>
        (\<forall>m. msg = Some m \<longrightarrow> \<not> allow \<or> mx \<noteq> kOK \<longrightarrow> IsOOB m)"
  let ?P = "\<lambda>E' allow multiple mx msg w y. E' = E \<longrightarrow> ?pre allow mx msg w \<longrightarrow>
        (\<forall>st w'. y = (Inr (st, w') :: fault + _) \<longrightarrow> handles allow multiple mx w st w')"
  have "?P E allow multiple mx msg w (Inr (st, w'))"
  proof (rule handle_loop.raw_induct [where P = ?P and y = "Inr (st, w')"], intro impI allI)
    fix hl E' allow multiple mx msg and w :: "'s world" and y st w'
    assume IH: "\<And>E' allow multiple mx msg w y. hl E' allow multiple mx msg w = Some y \<Longrightarrow>
        ?P E' allow multiple mx msg w y"
      and eq: "(case msg of None \<Rightarrow> ret (mx, w)
        | Some m \<Rightarrow> ebind (handle_round E' allow multiple mx m w) (\<lambda>r. case r of Inl result \<Rightarrow> ret result
            | Inr (allow', mx', msg', w') \<Rightarrow> hl E' allow' multiple mx' msg' w')) = Some y"
      and E': "E' = E" and pre: "?pre allow mx msg w" and y: "y = Inr (st, w')"
    show "handles allow multiple mx w st w'"
    proof (cases msg)
      case None
      then show ?thesis using eq pre y handles_done [of w] by (auto simp: ret_def)
    next
      case (Some m)
      obtain r where r: "handle_round E allow multiple mx m w = ret r" and
        spec: "case r of Inl (st, w') \<Rightarrow> handles allow multiple mx w st w'
         | Inr (allow', mx', msg', w') \<Rightarrow> ?pre allow' mx' msg' w' \<and>
             (\<forall>st w''. handles allow' multiple mx' w' st w'' \<longrightarrow> handles allow multiple mx w st w'')"
        using handle_round_ok [of w allow mx m multiple] pre Some
        by (fastforce split: sum.splits elim!: returnsE)
      show ?thesis
      proof (cases r)
        case (Inl res)
        then show ?thesis using eq Some E' r spec y by (auto simp: ret_def ebind_def)
      next
        case (Inr nxt)
        obtain allow' mx' msg' w1 where n: "nxt = (allow', mx', msg', w1)"
          by (cases nxt)
        have "hl E' allow' multiple mx' msg' w1 = Some y"
          using eq Some E' r Inr n by simp
        from IH [OF this] E' y spec Inr n show ?thesis by auto
      qed
    qed
  qed (use assms(1) in \<open>simp add: ret_def\<close>)
  with assms show ?thesis by blast
qed

lemma HandleMessages_partial:
  assumes "HandleMessages E allow multiple w = ret (st, w')" and "sound (mh w)"
  shows "handles allow multiple kOK w st w'"
proof -
  let ?w1 = "unlocked (enter_isolate E) w"
  let ?p = "if allow \<and> \<not> paused (mh ?w1) then kNormalPriority else kOOBPriority"
  have w1: "sound (mh ?w1)" "log ?w1 = log w"
    using keeps_sound(1) [OF assms(2), of "ext w"] by (auto simp: unlocked_def split: prod.splits)
  obtain r h' where d: "DequeueMessage ?p (mh ?w1) = ret (r, h')" and "sound h'"
      and "r = None \<longrightarrow> queue_IsEmpty (oob_queue h')" and "\<forall>m. r = Some m \<and> ?p = kOOBPriority \<longrightarrow> IsOOB m"
    using next_message [OF w1(1), of ?p] by auto
  moreover have "handle_loop E allow multiple kOK r (?w1\<lparr>mh := h'\<rparr>) = ret (st, w')"
    using assms(1) d by (simp add: HandleMessages_def)
  ultimately have "handles allow multiple kOK (?w1\<lparr>mh := h'\<rparr>) st w'"
    by (intro handle_loop_partial) auto
  then show ?thesis using w1(2) by (simp add: handles_def)
qed

end

subsection \<open>Termination\<close>

definition queue_length :: "mqueue \<Rightarrow> nat" where
  "queue_length q = (case Length q of Some (Inr n) \<Rightarrow> n | _ \<Rightarrow> 0)"

definition backlog :: "handler \<Rightarrow> nat" where
  "backlog h = queue_length (queue h) + queue_length (oob_queue h)"

lemma backlog_rep: "handler_rep h ns os \<Longrightarrow> backlog h = length ns + length os"
  using Length_rep [of "queue h" ns] Length_rep [of "oob_queue h" os]
  by (auto simp: handler_rep_def backlog_def queue_length_def ret_def)

text \<open>Callbacks that post only a bounded number of messages: \<open>budget\<close> counts the messages the
  outside may still post.\<close>

definition env_bounded :: "('s \<Rightarrow> nat) \<Rightarrow> 's env \<Rightarrow> bool" where
  "env_bounded budget E \<longleftrightarrow>
     (\<forall>h s. sound h \<longrightarrow>
        backlog (fst (enter_isolate E (h, s))) + budget (snd (enter_isolate E (h, s))) \<le> backlog h + budget s \<and>
        (\<forall>m. backlog (fst (snd (HandleMessage E m (h, s)))) + budget (snd (snd (HandleMessage E m (h, s))))
               \<le> backlog h + budget s))"

lemma DequeueMessage_backlog:
  assumes "sound h" and "DequeueMessage p h = ret (Some m, h')"
  shows "backlog h = Suc (backlog h')"
proof -
  obtain ns os where rep: "handler_rep h ns os"
    using assms(1) by (auto simp: sound_def)
  show ?thesis
    using DequeueMessage_rep [OF rep, of p] assms(2) backlog_rep [OF rep]
    by (auto dest!: backlog_rep split: list.splits if_splits)
qed

locale bounded_env = sound_env +
  fixes budget :: "'s \<Rightarrow> nat"
  assumes bounded_E: "env_bounded budget E"
begin

lemma handle_round_backlog:
  assumes "sound (mh w)" and "handle_round E allow multiple mx m w = ret (Inr (allow', mx', Some m', w'))"
  shows "backlog (mh w') + budget (ext w') < backlog (mh w) + budget (ext w)"
proof -
  obtain status w0 where u: "unlocked_result (HandleMessage E m) w = (status, w0)"
    by (cases "unlocked_result (HandleMessage E m) w")
  note u' = unlocked_result_props [OF u]
  have le: "backlog (mh w0) + budget (ext w0) \<le> backlog (mh w) + budget (ext w)"
    using bounded_E assms(1) unfolding u'(1,2) env_bounded_def by blast
  have "sound (mh w0)"
    using keeps_sound(2) [OF assms(1)] by (simp add: u'(1))
  moreover obtain p h' where "DequeueMessage p (mh w0) = ret (Some m', h')" and "mh w' = h'" "ext w' = ext w0"
    using assms(2) u
    by (auto simp: handle_round_def Let_def ebind_eq_ret split: if_splits)
  ultimately show ?thesis
    using le DequeueMessage_backlog [of "mh w0" p m' h'] by simp
qed

lemma handle_loop_returns:
  assumes "sound (mh w)" and "\<forall>m. msg = Some m \<longrightarrow> \<not> allow \<or> mx \<noteq> kOK \<longrightarrow> IsOOB m"
  shows "\<exists>r. handle_loop E allow multiple mx msg w = ret r"
  using assms
proof (induction "backlog (mh w) + budget (ext w)" arbitrary: allow mx msg w rule: less_induct)
  case less
  show ?case
  proof (cases msg)
    case None
    then show ?thesis by (subst handle_loop.simps) simp
  next
    case (Some m)
    have "returns (handle_round E allow multiple mx m w) (\<lambda>r. case r of
           Inl (st, w') \<Rightarrow> handles allow multiple mx w st w'
         | Inr (allow', mx', msg', w') \<Rightarrow>
             sound (mh w') \<and> (msg' = None \<longrightarrow> queue_IsEmpty (oob_queue (mh w'))) \<and>
             (\<forall>m'. msg' = Some m' \<longrightarrow> \<not> allow' \<or> mx' \<noteq> kOK \<longrightarrow> IsOOB m') \<and>
             (\<forall>st w''. handles allow' multiple mx' w' st w'' \<longrightarrow> handles allow multiple mx w st w''))"
      by (rule handle_round_ok) (use less.prems Some in auto)
    then obtain r where r: "handle_round E allow multiple mx m w = ret r"
      and spec: "case r of Inl _ \<Rightarrow> True | Inr (allow', mx', msg', w') \<Rightarrow> sound (mh w') \<and>
             (\<forall>m'. msg' = Some m' \<longrightarrow> \<not> allow' \<or> mx' \<noteq> kOK \<longrightarrow> IsOOB m')"
      by (rule returnsE) (auto split: sum.splits)
    show ?thesis
    proof (cases r)
      case (Inl res)
      then show ?thesis using r Some by (subst handle_loop.simps) simp
    next
      case (Inr nxt)
      obtain allow' mx' msg' w1 where n: "nxt = (allow', mx', msg', w1)"
        by (cases nxt)
      have "\<exists>r. handle_loop E allow' multiple mx' msg' w1 = ret r"
      proof (cases msg')
        case None
        then show ?thesis by (subst handle_loop.simps) simp
      next
        case (Some m')
        with handle_round_backlog [OF less.prems(1)] r Inr n
        have "backlog (mh w1) + budget (ext w1) < backlog (mh w) + budget (ext w)"
          by blast
        then show ?thesis
          by (rule less.hyps) (use spec Inr n in auto)
      qed
      then show ?thesis using r Some Inr n by (subst handle_loop.simps) simp
    qed
  qed
qed

lemma HandleMessages_total:
  assumes "sound (mh w)"
  shows "returns (HandleMessages E allow multiple w) (\<lambda>(st, w'). handles allow multiple kOK w st w')"
proof -
  let ?w1 = "unlocked (enter_isolate E) w"
  let ?p = "if allow \<and> \<not> paused (mh ?w1) then kNormalPriority else kOOBPriority"
  have "sound (mh ?w1)"
    using keeps_sound(1) [OF assms, of "ext w"] by (auto simp: unlocked_def split: prod.splits)
  then obtain r h' where d: "DequeueMessage ?p (mh ?w1) = ret (r, h')" and "sound h'"
      and "\<forall>m. r = Some m \<and> ?p = kOOBPriority \<longrightarrow> IsOOB m"
    using next_message [of "mh ?w1" ?p] by auto
  then obtain x where "handle_loop E allow multiple kOK r (?w1\<lparr>mh := h'\<rparr>) = ret x"
    using handle_loop_returns [of "?w1\<lparr>mh := h'\<rparr>" r allow kOK multiple] by auto
  then have "HandleMessages E allow multiple w = ret x"
    using d by (simp add: HandleMessages_def)
  moreover from this have "handles allow multiple kOK w (fst x) (snd x)"
    using HandleMessages_partial [of allow multiple w "fst x" "snd x"] assms by simp
  ultimately show ?thesis by (auto simp: case_prod_beta)
qed

end

section \<open>TaskCallback\<close>

text \<open>A sound handler; when \<open>c\<close> holds, with no out-of-band message pending.\<close>

definition drained :: "bool \<Rightarrow> 's world \<Rightarrow> bool" where
  "drained c w \<longleftrightarrow> sound (mh w) \<and> (c \<longrightarrow> queue_IsEmpty (oob_queue (mh w)))"

lemma drained_sound: "drained c w \<Longrightarrow> sound (mh w)"
  by (simp add: drained_def)

lemma sound_flags [simp]:
  "sound (h\<lparr>task_running := a\<rparr>) = sound h" "sound (h\<lparr>pool := b\<rparr>) = sound h"
  "sound (h\<lparr>paused_timestamp := c\<rparr>) = sound h" "sound (h\<lparr>is_paused_on_start := a\<rparr>) = sound h"
  "sound (h\<lparr>is_paused_on_exit := a\<rparr>) = sound h" "sound (h\<lparr>start_callback := b\<rparr>) = sound h"
  "sound (h\<lparr>remembered_paused_on_exit_status := st\<rparr>) = sound h"
  "sound (h\<lparr>paused_for_messages := a\<rparr>) = sound h" "sound (clear_resume_request h) = sound h"
  by (simp_all add: sound_def handler_rep_def clear_resume_request_def)

lemma oob_queue_flags [simp]:
  "oob_queue (clear_resume_request h) = oob_queue h" "queue (clear_resume_request h) = queue h"
  by (simp_all add: clear_resume_request_def)

lemma stop_task_simps [simp]:
  "drained c (stop_task w) = drained c w" "\<not> task_running (mh (stop_task w))"
  by (simp_all add: drained_def stop_task_def)

lemma resumed_drained [simp]:
  "drained c (PausedOnStartLocked E False w) = drained c w"
  "drained c (PausedOnExitLocked E False w) = drained c w"
  by (simp_all add: drained_def PausedOnStartLocked_def PausedOnExitLocked_def)

lemma delete_handler_drained:
  assumes "drained c w" and "\<not> task_running (mh w)"
  shows "returns (delete_handler w) (\<lambda>w'. drained c w' \<and> \<not> task_running (mh w'))"
proof -
  obtain ns os where "queue_rep (queue (mh w)) ns" "queue_rep (oob_queue (mh w)) os"
    using assms(1) by (auto simp: drained_def sound_def handler_rep_def)
  note r = mq.clr_rep [OF this(1)] mq.clr_rep [OF this(2)]
  obtain q out where "Clear (queue (mh w)) = ret (q, out)" "queue_rep q []"
    using r(1) by auto
  moreover obtain oq oout where "Clear (oob_queue (mh w)) = ret (oq, oout)" "queue_rep oq []"
    using r(2) by auto
  ultimately show ?thesis
    using assms(2) by (auto simp: delete_handler_def drained_def sound_def handler_rep_def queue_IsEmpty_iff
        intro!: exI [of _ "[]"])
qed

lemma task_finish_drained:
  assumes "drained c w"
  shows "returns (task_finish exiting w) (\<lambda>w'. drained c w' \<and> \<not> task_running (mh w'))"
proof -
  let ?w1 = "if exiting then w\<lparr>mh := (mh w)\<lparr>pool := None\<rparr>\<rparr> else w"
  let ?w3 = "if exiting then (case end_callback (mh ?w1) of None \<Rightarrow> stop_task ?w1
      | Some cb \<Rightarrow> emit [EndCallback cb (callback_data (mh ?w1))] (stop_task ?w1)) else stop_task ?w1"
  have "drained c (stop_task ?w1)"
    using assms unfolding stop_task_simps by (simp add: drained_def)
  then have d: "drained c ?w3" and t: "\<not> task_running (mh ?w3)"
    by (auto simp: drained_def split: option.splits)
  have eq: "task_finish exiting w = (if exiting \<and> delete_me (mh ?w1) then delete_handler ?w3 else ret ?w3)"
    by (simp only: task_finish_def Let_def)
  show ?thesis
  proof (cases "exiting \<and> delete_me (mh ?w1)")
    case True
    show ?thesis
      unfolding eq if_P [OF True] by (rule delete_handler_drained [OF d t])
  next
    case False
    show ?thesis
      unfolding eq if_not_P [OF False] returns_ret using d t by blast
  qed
qed

context bounded_env
begin

lemma HandleMessages_drains:
  assumes "sound (mh w)"
  shows "returns (HandleMessages E allow multiple w) (\<lambda>(st, w'). drained c w')"
  using HandleMessages_total [OF assms] by (rule returns_mono) (auto simp: handles_def drained_def)

lemma paused_sound:
  assumes "sound (mh w)"
  shows "sound (mh (PausedOnStartLocked E True w))" and "sound (mh (PausedOnExitLocked E True w))"
  using keeps_sound(4,5) [of "(mh w)\<lparr>paused_timestamp := current_time E (ext w)\<rparr>" "ext w"] assms
  by (auto simp: PausedOnStartLocked_def PausedOnExitLocked_def unlocked_def Let_def split: prod.splits)

lemma task_pause_on_start_ok:
  assumes "sound (mh w)"
  shows "returns (task_pause_on_start E w) (\<lambda>(r, w').
           case r of None \<Rightarrow> drained c w' \<and> \<not> task_running (mh w')
           | Some st \<Rightarrow> sound (mh w') \<and> (st \<noteq> kOK \<longrightarrow> drained c w'))"
proof -
  let ?w1 = "if \<not> is_paused_on_start (mh w) then PausedOnStartLocked E True w else w"
  have "sound (mh ?w1)"
    using paused_sound(1) [OF assms] assms by simp
  then obtain st w2 where "HandleMessages E False False ?w1 = ret (st, w2)" "drained c w2"
    using HandleMessages_drains [of ?w1 False False c] by auto
  then show ?thesis
    using assms drained_sound [of c "PausedOnStartLocked E False w2"]
    by (auto simp: task_pause_on_start_def Let_def)
qed

lemma task_paused_on_exit_ok:
  assumes "sound (mh w)" and "st \<noteq> kOK \<longrightarrow> drained c w"
  shows "returns (task_paused_on_exit E st w) (\<lambda>(r, w').
           case r of None \<Rightarrow> drained c w' \<and> \<not> task_running (mh w')
           | Some st \<Rightarrow> sound (mh w') \<and> (st \<noteq> kOK \<longrightarrow> drained c w'))"
proof -
  obtain st1 w1 where "HandleMessages E False False w = ret (st1, w1)" "drained c w1"
    using HandleMessages_drains [OF assms(1), of False False c] by auto
  then show ?thesis
    using assms drained_sound [of c "PausedOnExitLocked E False w1"]
    by (auto simp: task_paused_on_exit_def Let_def)
qed

lemma task_messages_ok:
  assumes "sound (mh w)" and "st \<noteq> kOK \<longrightarrow> drained c w"
    and no_shutdown: "\<And>cb d hs. c \<Longrightarrow> fst (call_start E cb d hs) \<noteq> kShutdown"
  shows "returns (task_messages E st w) (\<lambda>(st', w'). drained c w')"
proof (cases "st = kOK \<and> start_callback (mh w) \<noteq> None")
  case True
  then obtain cb where cb: "start_callback (mh w) = Some cb" by blast
  obtain st1 w' where u: "unlocked_result (call_start E cb (callback_data (mh w))) w = (st1, w')"
    by (cases "unlocked_result (call_start E cb (callback_data (mh w))) w")
  have "sound (mh w')" and "c \<Longrightarrow> st1 \<noteq> kShutdown"
    using unlocked_result_props [OF u] keeps_sound(3) [OF assms(1)] no_shutdown by simp_all
  then show ?thesis
    using True cb u HandleMessages_drains [of "w'\<lparr>mh := (mh w')\<lparr>start_callback := None\<rparr>\<rparr>"]
    by (auto simp: task_messages_def drained_def)
next
  case False
  then show ?thesis
    using assms HandleMessages_drains [OF assms(1)] by (auto simp: task_messages_def)
qed

lemma task_exit_ok:
  assumes "drained c w"
  shows "returns (task_exit E st w) (\<lambda>(r, w'). drained c w' \<and> (r = None \<longrightarrow> \<not> task_running (mh w')))"
proof -
  let ?w1 = "PausedOnExitLocked E True (w\<lparr>mh := (mh w)\<lparr>remembered_paused_on_exit_status := st\<rparr>\<rparr>)"
  have "sound (mh ?w1)"
    by (rule paused_sound(2)) (use assms in \<open>simp add: drained_def\<close>)
  then obtain st2 w2 where "HandleMessages E False False ?w1 = ret (st2, w2)" "drained c w2"
    using HandleMessages_drains [of ?w1 False False c] by auto
  then show ?thesis
    using assms by (auto simp: task_exit_def)
qed

lemma task_end_ok:
  assumes "drained c w"
  shows "returns (task_end E st w) (\<lambda>w'. drained c w' \<and> \<not> task_running (mh w'))"
proof -
  obtain r w1 where x: "task_exit E st w = ret (r, w1)" "drained c w1" "r = None \<longrightarrow> \<not> task_running (mh w1)"
    using task_exit_ok [OF assms, of st] by auto
  show ?thesis
    using x task_finish_drained [OF x(2), of True] task_finish_drained [OF assms, of False]
    by (cases r) (simp_all add: task_end_def)
qed

lemma TaskCallback_drains:
  assumes "sound (mh w)" and no_shutdown: "\<And>cb d hs. c \<Longrightarrow> fst (call_start E cb d hs) \<noteq> kShutdown"
  shows "returns (TaskCallback E w) (\<lambda>w'. drained c w' \<and> \<not> task_running (mh w'))"
proof -
  obtain r1 w1 where 1: "task_pause_on_start E w = ret (r1, w1)"
      "case r1 of None \<Rightarrow> drained c w1 \<and> \<not> task_running (mh w1)
       | Some st \<Rightarrow> sound (mh w1) \<and> (st \<noteq> kOK \<longrightarrow> drained c w1)"
    using task_pause_on_start_ok [OF assms(1), of c] by auto
  show ?thesis
  proof (cases r1)
    case None
    then show ?thesis using 1 by (simp add: TaskCallback_def)
  next
    case (Some st1)
    then obtain r2 w2 where 2: "task_paused_on_exit E st1 w1 = ret (r2, w2)"
        "case r2 of None \<Rightarrow> drained c w2 \<and> \<not> task_running (mh w2)
         | Some st \<Rightarrow> sound (mh w2) \<and> (st \<noteq> kOK \<longrightarrow> drained c w2)"
      using task_paused_on_exit_ok [of w1 st1 c] 1 by auto
    show ?thesis
    proof (cases r2)
      case None
      then show ?thesis using 1 2 Some by (simp add: TaskCallback_def)
    next
      case (Some st2)
      then obtain st3 w3 where "task_messages E st2 w2 = ret (st3, w3)" "drained c w3"
        using task_messages_ok [of w2 st2 c, OF _ _ no_shutdown] 2 by auto
      with task_end_ok [of c w3 st3] show ?thesis
        using 1 2 Some \<open>r1 = Some st1\<close> by (simp add: TaskCallback_def)
    qed
  qed
qed

end

context sound_env
begin

lemma pause_loop_partial:
  assumes "pause_loop E w = ret (r, w')" and "sound (mh w)"
  shows "sound (mh w')" and "r = Inl st \<Longrightarrow> st \<noteq> kOK \<and> queue_IsEmpty (oob_queue (mh w'))"
proof -
  let ?P = "\<lambda>E' (w :: 's world) y. E' = E \<longrightarrow> sound (mh w) \<longrightarrow>
        (\<forall>r w'. y = (Inr (r, w') :: fault + (MessageStatus + unit) \<times> 's world) \<longrightarrow> sound (mh w') \<and>
           (\<forall>st. r = Inl st \<longrightarrow> st \<noteq> kOK \<and> queue_IsEmpty (oob_queue (mh w'))))"
  have "?P E w (Inr (r, w'))"
  proof (rule pause_loop.raw_induct [where P = ?P and y = "Inr (r, w')"], intro impI allI)
    fix pl E' and w :: "'s world" and y r w'
    assume IH: "\<And>E' w y. pl E' w = Some y \<Longrightarrow> ?P E' w y"
      and eq: "(if queue_IsEmpty (queue (mh w)) \<and> queue_IsEmpty (oob_queue (mh w))
        then (let (wr, w1) = unlocked_result (wait_monitor E') w in
            if wr = kTimedOut then ret (Inr (), w1)
            else if queue_IsEmpty (queue (mh w1))
            then ebind (HandleMessages E' False False w1) (\<lambda>r.
                   if fst r \<noteq> kOK then ret (Inl (fst r), set_paused_for_messages False (snd r))
                   else pl E' (snd r))
            else pl E' w1)
        else ret (Inr (), w)) = Some y"
      and E': "E' = E" and sd: "sound (mh w)" and y: "y = Inr (r, w')"
    obtain wr w1 where u: "unlocked_result (wait_monitor E) w = (wr, w1)"
      by (cases "unlocked_result (wait_monitor E) w")
    have sd1: "sound (mh w1)"
      using unlocked_result_props(1) [OF u] keeps_sound(6) [OF sd] by simp
    have hm: "sound (mh w2) \<and> queue_IsEmpty (oob_queue (mh w2))"
      if "HandleMessages E False False w1 = ret (st, w2)" for st w2
      using HandleMessages_partial [OF that sd1] by (simp add: handles_def)
    show "sound (mh w') \<and> (\<forall>st. r = Inl st \<longrightarrow> st \<noteq> kOK \<and> queue_IsEmpty (oob_queue (mh w')))"
      using eq IH [of E w1 y] IH [of E _ y] hm sd sd1 u
      unfolding E' y
      by (cases "HandleMessages E False False w1" rule: exec_cases)
        (auto simp: ret_def raise_fault_def set_paused_for_messages_def ebind_def split: if_splits)
  qed (use assms(1) in \<open>simp add: ret_def\<close>)
  with assms show "sound (mh w')" and "r = Inl st \<Longrightarrow> st \<noteq> kOK \<and> queue_IsEmpty (oob_queue (mh w'))"
    by blast+
qed

lemma PauseAndHandleAllMessages_partial:
  assumes "PauseAndHandleAllMessages E w = ret (st, w')" and "sound (mh w)"
  shows "sound (mh w') \<and> queue_IsEmpty (oob_queue (mh w'))"
proof -
  obtain r w1 where p: "pause_loop E (set_paused_for_messages True w) = ret (r, w1)"
    and c: "(case r of Inl status \<Rightarrow> ret (status, w1)
       | Inr _ \<Rightarrow> HandleMessages E True True (set_paused_for_messages False w1)) = ret (st, w')"
    using assms(1) by (auto simp: PauseAndHandleAllMessages_def ebind_eq_ret)
  have "sound (mh (set_paused_for_messages True w))"
    using assms(2) by (simp add: set_paused_for_messages_def)
  note q = pause_loop_partial [OF p this]
  show ?thesis
  proof (cases r)
    case (Inl s)
    then show ?thesis using q c by auto
  next
    case (Inr u)
    then show ?thesis
      using q(1) c HandleMessages_partial [of True True "set_paused_for_messages False w1" st w']
      by (simp add: set_paused_for_messages_def handles_def)
  qed
qed

end

section \<open>An environment of posting threads\<close>

text \<open>
  Other threads as a script: each time the monitor is released the next batch of messages is
  enqueued (a message that was enqueued before is skipped), and each call of a callback returns the
  next of the scripted results.
\<close>

definition try_post :: "message \<times> bool \<Rightarrow> handler \<Rightarrow> handler" where
  "try_post p h =
     (let q = (if IsOOB (fst p) then oob_queue h else queue h) in
      if \<not> unposted (fst p) h then h
      else (case Enqueue q (fst p) (snd p) of
              Some (Inr q') \<Rightarrow> if IsOOB (fst p) then h\<lparr>oob_queue := q'\<rparr> else h\<lparr>queue := q'\<rparr>
            | _ \<Rightarrow> h))"

record script =
  batches :: "(message \<times> bool) list list"
  results :: "MessageStatus list"

definition script_step :: "handler \<times> script \<Rightarrow> handler \<times> script" where
  "script_step hs =
     (case batches (snd hs) of
        [] \<Rightarrow> hs
      | b # bs \<Rightarrow> (fold try_post b (fst hs), (snd hs)\<lparr>batches := bs\<rparr>))"

definition script_call :: "handler \<times> script \<Rightarrow> MessageStatus \<times> handler \<times> script" where
  "script_call hs =
     (case results (snd hs) of
        [] \<Rightarrow> (kOK, script_step hs)
      | r # rs \<Rightarrow> (r, script_step (fst hs, (snd hs)\<lparr>results := rs\<rparr>)))"

definition script_env :: "script env" where
  "script_env =
     \<lparr>pool_run = (\<lambda>s. (True, s)), enter_isolate = script_step, HandleMessage = (\<lambda>_. script_call),
      call_start = (\<lambda>_ _. script_call), notify_pause_on_start = script_step,
      notify_pause_on_exit = script_step,
      wait_monitor = (\<lambda>hs. (if batches (snd hs) = [] then kTimedOut else kNotified, script_step hs)),
      current_time = (\<lambda>_. 0)\<rparr>"

definition script_budget :: "script \<Rightarrow> nat" where
  "script_budget s = sum_list (map length (batches s))"

lemma try_post_rep:
  assumes "handler_rep h ns os"
  shows "\<exists>ns' os'. handler_rep (try_post (m, b) h) ns' os' \<and> length ns' + length os' \<le> Suc (length ns + length os)"
proof -
  have len: "length (enqueue_list b m ms) = Suc (length ms)" for ms
    using mset_enqueue_list [of b m ms] by (metis size_add_mset size_mset)
  let ?q = "if IsOOB m then oob_queue h else queue h"
  let ?ms = "if IsOOB m then os else ns"
  have rep: "queue_rep ?q ?ms"
    using assms by (simp add: handler_rep_def)
  show ?thesis
  proof (cases "unposted m h")
    case True
    then have "fresh m ?q"
      by (simp add: unposted_def)
    then obtain q' where q': "Enqueue ?q m b = ret q'" "queue_rep q' (enqueue_list b m ?ms)"
      using mq.enq_rep [OF rep, of m b] by blast
    show ?thesis
    proof (cases "IsOOB m")
      case oob: True
      with True q' assms show ?thesis
        by (intro exI [of _ ns] exI [of _ "enqueue_list b m os"])
          (auto simp: try_post_def handler_rep_def ret_def len)
    next
      case False
      with True q' assms show ?thesis
        by (intro exI [of _ "enqueue_list b m ns"] exI [of _ os])
          (auto simp: try_post_def handler_rep_def ret_def len)
    qed
  next
    case False
    then have "try_post (m, b) h = h"
      by (simp add: try_post_def)
    with assms show ?thesis
      by (metis le_SucI order_refl)
  qed
qed

lemma fold_try_post:
  assumes "sound h"
  shows "sound (fold try_post b h) \<and> backlog (fold try_post b h) \<le> backlog h + length b"
  using assms
proof (induction b arbitrary: h)
  case Nil
  then show ?case by simp
next
  case (Cons p b)
  obtain m bf where p: "p = (m, bf)" by (cases p)
  obtain ns os where rep: "handler_rep h ns os"
    using Cons.prems by (auto simp: sound_def)
  obtain ns' os' where rep': "handler_rep (try_post p h) ns' os'" and
      "length ns' + length os' \<le> Suc (length ns + length os)"
    using try_post_rep [OF rep, of m bf] p by blast
  then have "backlog (try_post p h) \<le> Suc (backlog h)"
    using backlog_rep [OF rep] backlog_rep [OF rep'] by simp
  with Cons.IH [OF soundI [OF rep']] show ?case by simp
qed

lemma script_step_ok:
  assumes "sound (fst hs)"
  shows "sound (fst (script_step hs))"
    and "backlog (fst (script_step hs)) + script_budget (snd (script_step hs))
           \<le> backlog (fst hs) + script_budget (snd hs)"
  using fold_try_post [OF assms, of "hd (batches (snd hs))"] assms
  by (cases "batches (snd hs)"; simp add: script_step_def script_budget_def)+

lemma script_call_ok:
  assumes "sound (fst hs)"
  shows "sound (fst (snd (script_call hs)))"
    and "backlog (fst (snd (script_call hs))) + script_budget (snd (snd (script_call hs)))
           \<le> backlog (fst hs) + script_budget (snd hs)"
  using script_step_ok [of hs] script_step_ok [of "(fst hs, (snd hs)\<lparr>results := tl (results (snd hs))\<rparr>)"] assms
  by (cases "results (snd hs)"; simp add: script_call_def script_budget_def)+

interpretation scripted: bounded_env script_env script_budget
proof
  show "env_sound script_env"
    using script_step_ok(1) script_call_ok(1) by (simp add: env_sound_def script_env_def)
  show "env_bounded script_budget script_env"
    using script_step_ok(2) [of "(h, s)" for h s] script_call_ok(2) [of "(h, s)" for h s]
    by (simp add: env_bounded_def script_env_def)
qed

section \<open>Runs without interference\<close>

text \<open>Nothing else touches the handler, and every message is handled successfully.\<close>

definition quiet_env :: "'s env \<Rightarrow> bool" where
  "quiet_env E \<longleftrightarrow>
     (\<forall>h s. fst (enter_isolate E (h, s)) = h \<and>
            (\<forall>m. fst (HandleMessage E m (h, s)) = kOK \<and> fst (snd (HandleMessage E m (h, s))) = h))"

definition normal_part :: "bool \<Rightarrow> bool \<Rightarrow> bool \<Rightarrow> message list \<Rightarrow> message list" where
  "normal_part allow multiple is_paused ns =
     (if \<not> allow \<or> is_paused then [] else if multiple then ns else take 1 ns)"

lemma DequeueMessage_keeps:
  "DequeueMessage p h = ret (r, h') \<Longrightarrow> paused h' = paused h"
  by (auto simp: DequeueMessage_def ebind_eq_ret paused_def Let_def split: if_splits)

lemma quiet_round:
  assumes "quiet_env E"
  obtains w1 where "mh w1 = mh w" and "log w1 = log w @ [Handled m kOK]"
    and "handle_round E allow multiple kOK m w =
      ebind (DequeueMessage
        (if (if \<not> IsOOB m \<and> \<not> multiple then False else allow) \<and> \<not> paused (mh w)
         then kNormalPriority else kOOBPriority) (mh w))
       (\<lambda>(m', h'). ret (Inr (if \<not> IsOOB m \<and> \<not> multiple then False else allow, kOK, m', w1\<lparr>mh := h'\<rparr>)))"
proof -
  obtain st w0 where u: "unlocked_result (HandleMessage E m) w = (st, w0)"
    by (cases "unlocked_result (HandleMessage E m) w")
  note u' = unlocked_result_props [OF u]
  have st: "st = kOK" and mh: "mh w0 = mh w"
    using assms u' by (simp_all add: quiet_env_def)
  have "priority m = kNormalPriority \<longleftrightarrow> \<not> IsOOB m"
    by (cases "priority m") (simp_all add: IsOOB_def)
  then show thesis
    using u u'(3) st mh
    by (intro that [of "emit [Handled m kOK] w0"]) (simp_all add: handle_round_def)
qed

text \<open>The loop holding \<open>m\<close>, with \<open>ns\<close> and \<open>os\<close> still queued.\<close>

lemma quiet_loop:
  assumes E: "quiet_env E" and "handler_rep (mh w) ns os"
    and "IsOOB m \<or> os = [] \<and> allow \<and> \<not> paused (mh w)"
  shows "returns (handle_loop E allow multiple kOK (Some m) w) (\<lambda>(st, w'). st = kOK \<and>
           (let done = normal_part (allow \<and> (IsOOB m \<or> multiple)) multiple (paused (mh w)) ns in
            log w' = log w @ map (\<lambda>m. Handled m kOK) (m # os @ done) \<and>
            handler_rep (mh w') (drop (length done) ns) []))"
  using assms(2-)
proof (induction "length ns + length os" arbitrary: w ns os m allow rule: less_induct)
  case less
  obtain w1 where w1: "mh w1 = mh w" "log w1 = log w @ [Handled m kOK]"
    and rnd: "handle_round E allow multiple kOK m w =
      ebind (DequeueMessage
        (if (if \<not> IsOOB m \<and> \<not> multiple then False else allow) \<and> \<not> paused (mh w)
         then kNormalPriority else kOOBPriority) (mh w))
       (\<lambda>(m', h'). ret (Inr (if \<not> IsOOB m \<and> \<not> multiple then False else allow, kOK, m', w1\<lparr>mh := h'\<rparr>)))"
    by (rule quiet_round [OF E])
  let ?allow = "if \<not> IsOOB m \<and> \<not> multiple then False else allow"
  let ?p = "if ?allow \<and> \<not> paused (mh w) then kNormalPriority else kOOBPriority"
  obtain r h' where d: "DequeueMessage ?p (mh w) = ret (r, h')"
    and dr: "case os of m # os' \<Rightarrow> r = Some m \<and> handler_rep h' ns os'
            | [] \<Rightarrow> (if ?p = kOOBPriority then r = None \<and> handler_rep h' ns []
                    else (case ns of [] \<Rightarrow> r = None \<and> handler_rep h' [] []
                          | m # ns' \<Rightarrow> r = Some m \<and> handler_rep h' ns' []))"
    using DequeueMessage_rep [OF less.prems(1), of ?p] by auto
  have pd: "paused h' = paused (mh w)"
    using d by (rule DequeueMessage_keeps)
  have step: "handle_loop E allow multiple kOK (Some m) w =
      handle_loop E ?allow multiple kOK r (w1\<lparr>mh := h'\<rparr>)"
    using rnd d by (subst handle_loop.simps) simp
  have done': "handle_loop E ?allow multiple kOK None (w1\<lparr>mh := h'\<rparr>) = ret (kOK, w1\<lparr>mh := h'\<rparr>)"
    by (subst handle_loop.simps) simp
  show ?case
  proof (cases os)
    case (Cons m' os')
    then have m': "IsOOB m'" "r = Some m'" "handler_rep (mh (w1\<lparr>mh := h'\<rparr>)) ns os'" and m: "IsOOB m"
      using dr less.prems handler_rep_facts(3) [OF less.prems(1), of m'] by auto
    show ?thesis
      using less.hyps [OF _ m'(3), of m' ?allow] Cons m' m step w1 pd by simp
  next
    case Nil
    show ?thesis
    proof (cases "?p = kOOBPriority \<or> ns = []")
      case True
      then have "r = None" "handler_rep h' ns []"
        using dr Nil by (auto split: list.splits if_splits)
      then show ?thesis
        using True step done' w1 Nil by (auto simp: normal_part_def split: if_splits)
    next
      case False
      then obtain n ns' where ns: "ns = n # ns'" by (cases ns) auto
      have a: "?allow \<and> \<not> paused (mh w)" using False by (auto split: if_splits)
      have n: "r = Some n" "handler_rep (mh (w1\<lparr>mh := h'\<rparr>)) ns' []"
        using dr Nil ns False by auto
      show ?thesis
        using less.hyps [OF _ n(2), of n ?allow] ns Nil n(1) step w1 pd a
          handler_rep_facts(4) [OF less.prems(1), of n]
        by (auto simp: normal_part_def split: if_splits)
    qed
  qed
qed

section \<open>Concrete handlers\<close>

definition idle_env :: "unit env" where
  "idle_env =
     \<lparr>pool_run = (\<lambda>s. (True, s)), enter_isolate = (\<lambda>hs. hs), HandleMessage = (\<lambda>_ hs. (kOK, hs)),
      call_start = (\<lambda>_ _ hs. (kOK, hs)), notify_pause_on_start = (\<lambda>hs. hs),
      notify_pause_on_exit = (\<lambda>hs. hs), wait_monitor = (\<lambda>hs. (kTimedOut, hs)), current_time = (\<lambda>_. 0)\<rparr>"

definition normal_msg :: "nat \<Rightarrow> message" where
  "normal_msg i = raw_message i 41 0 kNormalPriority"

definition oob_msg :: "nat \<Rightarrow> message" where
  "oob_msg i = raw_message i 41 0 kOOBPriority"

definition busy_handler :: handler where
  "busy_handler = (MessageHandler None)
     \<lparr>queue := \<lparr>q_head = Some 2, q_tail = Some 3, q_node = [2 \<mapsto> normal_msg 2, 3 \<mapsto> normal_msg 3],
                q_next = [2 \<mapsto> 3]\<rparr>,
      oob_queue := \<lparr>q_head = Some 1, q_tail = Some 1, q_node = [1 \<mapsto> oob_msg 1], q_next = Map.empty\<rparr>\<rparr>"

lemma busy_handler_rep: "handler_rep busy_handler [normal_msg 2, normal_msg 3] [oob_msg 1]"
  by (simp add: handler_rep_def busy_handler_def queue_rep_def normal_msg_def oob_msg_def
      raw_message_def IsOOB_def)

lemma busy_handler_sound: "sound busy_handler"
  using busy_handler_rep by (rule soundI)

text \<open>An isolate that is paused on exit, still has a live port, and whose task has been started
  because messages arrived.\<close>

definition paused_on_exit_handler :: handler where
  "paused_on_exit_handler = (MessageHandler (Some \<lparr>is_runnable = True, resume_request = False\<rparr>))
     \<lparr>live_ports := 1, should_pause_on_exit := True, is_paused_on_exit := True,
      remembered_paused_on_exit_status := kOK, paused_timestamp := 5, task_running := True,
      pool := Some 0, end_callback := Some 7\<rparr>"

section \<open>Properties\<close>

text \<open>
  C9.  HandleMessages returns, leaves no out-of-band message behind, and respects priorities and
  errors.  Whatever well-behaved threads do while the monitor is released (as long as they post
  finitely many messages), the call returns; on return the out-of-band queue is empty, the result is
  the maximum of the results of the messages handled, nothing is handled after a shutdown, after an
  error only out-of-band messages are handled, at most one normal message is handled unless several
  are allowed, and none if normal messages are not allowed.
\<close>

theorem handle_messages_correct:
  assumes "env_sound E" and "env_bounded budget E" and "sound (mh w)"
  shows "returns (HandleMessages E allow multiple w) (\<lambda>(st, w').
           sound (mh w') \<and> queue_IsEmpty (oob_queue (mh w')) \<and>
           (\<exists>es. log w' = log w @ es \<and> st = max_of kOK (handled es) \<and>
                 sorted_wrt (may_follow multiple) (handled es) \<and>
                 (\<not> allow \<longrightarrow> (\<forall>(m, _)\<in>set (handled es). IsOOB m))))"
proof -
  have "bounded_env E budget"
    using assms(1,2) by (intro bounded_env.intro sound_env.intro bounded_env_axioms.intro)
  from bounded_env.HandleMessages_total [OF this assms(3), of allow multiple] show ?thesis
    by (rule returns_mono) (auto simp: handles_def)
qed

theorem handle_messages_correct_witness:
  "let w = \<lparr>mh = busy_handler, ext = \<lparr>batches = [[(oob_msg 8, False)], [(oob_msg 9, False)]],
                                    results = [kOK, kError, kOK]\<rparr>, log = []\<rparr>
   in env_sound script_env \<and> env_bounded script_budget script_env \<and> sound (mh w) \<and>
      returns (HandleMessages script_env True True w) (\<lambda>(st, w').
        sound (mh w') \<and> queue_IsEmpty (oob_queue (mh w')) \<and>
        (\<exists>es. log w' = log w @ es \<and> st = max_of kOK (handled es) \<and>
              sorted_wrt (may_follow True) (handled es)))"
  using handle_messages_correct [OF scripted.sound_E scripted.bounded_E, of
      "\<lparr>mh = busy_handler, ext = \<lparr>batches = [[(oob_msg 8, False)], [(oob_msg 9, False)]],
                                results = [kOK, kError, kOK]\<rparr>, log = []\<rparr>" True True]
  by (simp add: scripted.sound_E scripted.bounded_E busy_handler_sound)

text \<open>
  C10.  Without interference HandleMessages handles all out-of-band messages in the order they were
  posted, then the normal messages in the order they were posted: all of them, only the first (when
  multiple normal messages are not allowed), or none (when they are not allowed at all or the isolate
  is paused).  The rest stays queued.
\<close>

theorem handle_messages_order:
  assumes E: "quiet_env E" and rep: "handler_rep (mh w) ns os"
  shows "returns (HandleMessages E allow multiple w) (\<lambda>(st, w'). st = kOK \<and>
           (let done = normal_part allow multiple (paused (mh w)) ns in
            log w' = log w @ map (\<lambda>m. Handled m kOK) (os @ done) \<and>
            handler_rep (mh w') (drop (length done) ns) []))"
proof -
  let ?w1 = "unlocked (enter_isolate E) w"
  have w1: "mh ?w1 = mh w" "log ?w1 = log w"
    using E by (auto simp: unlocked_def quiet_env_def split: prod.splits) (metis fst_conv)
  let ?p = "if allow \<and> \<not> paused (mh w) then kNormalPriority else kOOBPriority"
  obtain r h' where d: "DequeueMessage ?p (mh w) = ret (r, h')"
    and dr: "case os of m # os' \<Rightarrow> r = Some m \<and> handler_rep h' ns os'
            | [] \<Rightarrow> (if ?p = kOOBPriority then r = None \<and> handler_rep h' ns []
                    else (case ns of [] \<Rightarrow> r = None \<and> handler_rep h' [] []
                          | m # ns' \<Rightarrow> r = Some m \<and> handler_rep h' ns' []))"
    using DequeueMessage_rep [OF rep, of ?p] by auto
  have pd: "paused h' = paused (mh w)"
    using d by (rule DequeueMessage_keeps)
  have start: "HandleMessages E allow multiple w = handle_loop E allow multiple kOK r (?w1\<lparr>mh := h'\<rparr>)"
    using d w1 by (simp add: HandleMessages_def)
  note loop = quiet_loop [OF E, of "?w1\<lparr>mh := h'\<rparr>"]
  have stop: "handle_loop E allow multiple kOK None (?w1\<lparr>mh := h'\<rparr>) = ret (kOK, ?w1\<lparr>mh := h'\<rparr>)"
    by (subst handle_loop.simps) simp
  show ?thesis
  proof (cases os)
    case (Cons m os')
    then show ?thesis
      using loop [of ns os' m allow multiple] dr handler_rep_facts(3) [OF rep, of m] start w1 pd by simp
  next
    case Nil
    show ?thesis
    proof (cases "?p = kOOBPriority \<or> ns = []")
      case True
      then have "r = None" "handler_rep h' ns []"
        using dr Nil by (auto split: list.splits if_splits)
      then show ?thesis
        using True start stop w1 Nil by (auto simp: normal_part_def split: if_splits)
    next
      case False
      then obtain n ns' where ns: "ns = n # ns'" by (cases ns) auto
      have "allow \<and> \<not> paused (mh w)" and "r = Some n" "handler_rep h' ns' []"
        using False dr Nil ns by (auto split: if_splits)
      then show ?thesis
        using loop [of ns' "[]" n allow multiple] ns Nil start w1 pd handler_rep_facts(4) [OF rep, of n]
        by (auto simp: normal_part_def split: if_splits)
    qed
  qed
qed

theorem handle_messages_order_witness:
  "let w = \<lparr>mh = busy_handler, ext = (), log = []\<rparr>
   in quiet_env idle_env \<and> handler_rep (mh w) [normal_msg 2, normal_msg 3] [oob_msg 1] \<and>
      returns (HandleMessages idle_env True False w) (\<lambda>(st, w').
        st = kOK \<and> log w' = [Handled (oob_msg 1) kOK, Handled (normal_msg 2) kOK] \<and>
        handler_rep (mh w') [normal_msg 3] [])"
proof -
  have q: "quiet_env idle_env"
    by (simp add: quiet_env_def idle_env_def)
  show ?thesis
    using handle_messages_order [OF q, of "\<lparr>mh = busy_handler, ext = (), log = []\<rparr>"
        "[normal_msg 2, normal_msg 3]" "[oob_msg 1]" True False] q busy_handler_rep
    by (simp add: normal_part_def paused_def busy_handler_def MessageHandler_def)
qed

text \<open>
  C11.  TaskCallback always returns, and the task of a message handler does not give up its slot with
  out-of-band messages pending.  With well-behaved threads around it, on every path (paused on start,
  paused on exit, error, shutdown, normal end, deletion) the handler is well formed and
  \<open>task_running_\<close> is cleared; and unless the start callback itself may report a shutdown, in which
  case no message is handled any more, the out-of-band queue is then empty.
\<close>

theorem task_callback_drains_oob:
  assumes "env_sound E" and "env_bounded budget E" and "sound (mh w)"
  shows "returns (TaskCallback E w) (\<lambda>w'. sound (mh w') \<and> \<not> task_running (mh w') \<and>
           ((\<forall>cb d hs. fst (call_start E cb d hs) \<noteq> kShutdown) \<longrightarrow> queue_IsEmpty (oob_queue (mh w'))))"
proof -
  have "bounded_env E budget"
    using assms(1,2) by (intro bounded_env.intro sound_env.intro bounded_env_axioms.intro)
  from bounded_env.TaskCallback_drains [OF this assms(3),
      of "\<forall>cb d hs. fst (call_start E cb d hs) \<noteq> kShutdown"]
  have "returns (TaskCallback E w) (\<lambda>w'. drained (\<forall>cb d hs. fst (call_start E cb d hs) \<noteq> kShutdown) w' \<and>
      \<not> task_running (mh w'))"
    by blast
  then show ?thesis
    by (rule returns_mono) (simp only: drained_def, blast)
qed

theorem task_callback_drains_oob_witness:
  "let w = \<lparr>mh = busy_handler\<lparr>task_running := True, pool := Some 0, start_callback := Some 5\<rparr>,
            ext = (), log = []\<rparr>
   in env_sound idle_env \<and> env_bounded (\<lambda>_. 0) idle_env \<and> sound (mh w) \<and>
      (\<forall>cb d hs. fst (call_start idle_env cb d hs) \<noteq> kShutdown) \<and>
      returns (TaskCallback idle_env w) (\<lambda>w'. sound (mh w') \<and> queue_IsEmpty (oob_queue (mh w')) \<and>
        \<not> task_running (mh w'))"
proof -
  have "env_sound idle_env" and "env_bounded (\<lambda>_. 0) idle_env"
    and "fst (call_start idle_env cb d hs) \<noteq> kShutdown" for cb d hs
    by (simp_all add: env_sound_def env_bounded_def idle_env_def)
  moreover have "sound (mh \<lparr>mh = busy_handler\<lparr>task_running := True, pool := Some 0,
      start_callback := Some 5\<rparr>, ext = (), log = []\<rparr>)"
    using busy_handler_sound by simp
  ultimately show ?thesis
    unfolding Let_def using task_callback_drains_oob [of idle_env "\<lambda>_. 0"] by (simp add: conj_commute)
qed

text \<open>
  C12.  Posting a message that was never enqueued puts it into the queue of its priority and launches a task exactly when
  the handler is attached to a pool and has no task running, so that at most one task per handler is
  outstanding; a waiting thread is woken and the subclass notified.
\<close>

theorem post_message_correct:
  assumes "handler_rep (mh w) ns os" and "unposted m (mh w)"
  shows "returns (PostMessage E m before_events w) (\<lambda>w'.
           handler_rep (mh w') (if IsOOB m then ns else enqueue_list before_events m ns)
             (if IsOOB m then enqueue_list before_events m os else os) \<and>
           (task_running (mh w') \<longleftrightarrow> task_running (mh w) \<or> pool (mh w) \<noteq> None) \<and>
           (\<exists>ok. log w' = log w @
              (if paused_for_messages (mh w) then [WokeWaiter] else []) @
              (if pool (mh w) \<noteq> None \<and> \<not> task_running (mh w) then [TaskLaunched ok] else []) @
              [Notified (priority m)]))"
  using PostMessage_rep [OF assms] by (rule returns_mono) blast

theorem post_message_correct_witness:
  "let w = \<lparr>mh = busy_handler\<lparr>pool := Some 0\<rparr>, ext = (), log = []\<rparr> in
   handler_rep (mh w) [normal_msg 2, normal_msg 3] [oob_msg 1] \<and>
   unposted (oob_msg 4) (mh w) \<and>
   returns (PostMessage idle_env (oob_msg 4) False w) (\<lambda>w'.
     handler_rep (mh w') [normal_msg 2, normal_msg 3] [oob_msg 1, oob_msg 4] \<and> task_running (mh w') \<and>
     (\<exists>ok. log w' = [TaskLaunched ok, Notified kOOBPriority]))"
proof -
  have 1: "handler_rep (mh \<lparr>mh = busy_handler\<lparr>pool := Some 0\<rparr>, ext = (), log = []\<rparr>)
      [normal_msg 2, normal_msg 3] [oob_msg 1]"
    using busy_handler_rep by (simp add: handler_rep_def)
  have 2: "unposted (oob_msg 4) (mh \<lparr>mh = busy_handler\<lparr>pool := Some 0\<rparr>, ext = (), log = []\<rparr>)"
    by (simp add: unposted_def fresh_def busy_handler_def oob_msg_def raw_message_def)
  show ?thesis
    using post_message_correct [OF 1 2, of idle_env False] 1 2
    by (simp add: oob_msg_def raw_message_def IsOOB_def busy_handler_def MessageHandler_def
        enqueue_list_def)
qed

text \<open>
  C13.  A shutdown request received while the isolate is paused on exit is forgotten.  Whenever the
  task of a handler that is paused on exit gets kShutdown from handling the out-of-band messages, it
  replaces it by the status remembered when the pause began: with kOK remembered it goes on to
  handle normal messages as if there had been no shutdown, and if these succeed and the handler has
  a live port the task just ends: the handler keeps its pool, the end callback is not called and
  nothing is deleted.
\<close>

theorem shutdown_while_paused_on_exit_is_forgotten:
  assumes "\<not> ShouldPauseOnStart kOK (mh w)" and "is_paused_on_exit (mh w)"
    and "HandleMessages E False False w = ret (kShutdown, w1)"
    and "remembered_paused_on_exit_status (mh w1) = kOK" and "start_callback (mh w1) = None"
  shows "TaskCallback E w =
           ebind (HandleMessages E True True (PausedOnExitLocked E False w1)) (\<lambda>(st, w2). task_end E st w2) \<and>
         (\<forall>w2. HandleMessages E True True (PausedOnExitLocked E False w1) = ret (kOK, w2) \<and> HasLivePorts (mh w2) \<longrightarrow>
            TaskCallback E w = ret (w2\<lparr>mh := (mh w2)\<lparr>task_running := False\<rparr>\<rparr>))"
proof -
  have "\<not> ShouldPauseOnExit kShutdown (mh w1)"
    by (simp add: ShouldPauseOnExit_def split: option.splits)
  then have "TaskCallback E w =
      ebind (HandleMessages E True True (PausedOnExitLocked E False w1)) (\<lambda>(st, w2). task_end E st w2)"
    using assms by (simp add: TaskCallback_def task_pause_on_start_def task_paused_on_exit_def
        task_messages_def PausedOnExitLocked_def clear_resume_request_def)
  then show ?thesis
    by (simp add: task_end_def task_finish_def stop_task_def)
qed

theorem shutdown_while_paused_on_exit_is_forgotten_witness:
  "let w = \<lparr>mh = paused_on_exit_handler,
            ext = \<lparr>batches = [[(oob_msg 1, False), (normal_msg 2, False)]], results = [kShutdown]\<rparr>, log = []\<rparr>
   in \<not> ShouldPauseOnStart kOK (mh w) \<and> is_paused_on_exit (mh w) \<and>
      (\<exists>w1 w2. HandleMessages script_env False False w = ret (kShutdown, w1) \<and>
         TaskCallback script_env w = ret (w2\<lparr>mh := (mh w2)\<lparr>task_running := False\<rparr>\<rparr>) \<and>
         log w2 = [Handled (oob_msg 1) kShutdown, Destroyed [], Handled (normal_msg 2) kOK] \<and>
         pool (mh w2) \<noteq> None \<and> HasLivePorts (mh w2))"
proof -
  let ?w = "\<lparr>mh = paused_on_exit_handler,
             ext = \<lparr>batches = [[(oob_msg 1, False), (normal_msg 2, False)]], results = [kShutdown]\<rparr>, log = []\<rparr>"
  have w: "\<not> ShouldPauseOnStart kOK (mh ?w)" "is_paused_on_exit (mh ?w)"
    by (simp_all add: paused_on_exit_handler_def ShouldPauseOnStart_def MessageHandler_def)
  have "returns (HandleMessages script_env False False ?w) (\<lambda>(st, w1). st = kShutdown \<and>
      remembered_paused_on_exit_status (mh w1) = kOK \<and> start_callback (mh w1) = None \<and>
      returns (HandleMessages script_env True True (PausedOnExitLocked script_env False w1)) (\<lambda>(st2, w2).
        st2 = kOK \<and> HasLivePorts (mh w2) \<and> pool (mh w2) \<noteq> None \<and>
        log w2 = [Handled (oob_msg 1) kShutdown, Destroyed [], Handled (normal_msg 2) kOK]))"
    by code_simp
  then obtain w1 w2 where r: "HandleMessages script_env False False ?w = ret (kShutdown, w1)"
      "remembered_paused_on_exit_status (mh w1) = kOK" "start_callback (mh w1) = None"
      "HandleMessages script_env True True (PausedOnExitLocked script_env False w1) = ret (kOK, w2)"
      "HasLivePorts (mh w2)" "pool (mh w2) \<noteq> None"
      "log w2 = [Handled (oob_msg 1) kShutdown, Destroyed [], Handled (normal_msg 2) kOK]"
    by (auto elim!: returnsE)
  have "TaskCallback script_env ?w = ret (w2\<lparr>mh := (mh w2)\<lparr>task_running := False\<rparr>\<rparr>)"
    using shutdown_while_paused_on_exit_is_forgotten [OF w r(1-3)] r(4,5) by blast
  with w r show ?thesis unfolding Let_def by blast
qed

end
