(* ===== verification/Dart_Random.thy ===== *)
theory Dart_Random
  imports Dart_Prelude
begin

unbundle bit_operations_syntax

text \<open>
  \<open>runtime/vm/random.h\<close> and \<open>random.cc\<close>: the multiply-with-carry generator that draws port numbers,
  at its 64-bit width.  \<open>NextState\<close> is modelled for one thread (its compare-and-exchange succeeds
  at once).  C++ leaves the order of the two draws of \<open>NextUInt64\<close> open; the model draws the high
  half first.  \<open>NextDouble\<close> (a bit cast to a floating-point number) is not modelled.

  The generator is shown to be the sequence of multiples of the inverse of \<open>2 ^ 32\<close> modulo
  \<open>A * 2 ^ 32 - 1\<close>; it never reaches zero from another state, and has one other fixed point.
\<close>

definition MASK_32 :: "64 word" where
  "MASK_32 = 0xffffffff"

definition mwc_A :: "64 word" where
  "mwc_A = 0xffffda61"

definition NextState :: "64 word \<Rightarrow> 64 word" where
  "NextState old_state =
     (let state_lo = old_state AND MASK_32;
          state_hi = drop_bit 32 old_state AND MASK_32
      in mwc_A * state_lo + state_hi)"

definition NextUInt32 :: "64 word \<Rightarrow> 32 word \<times> 64 word" where
  "NextUInt32 s = (let s' = NextState s in (ucast (s' AND MASK_32), s'))"

definition NextUInt64 :: "64 word \<Rightarrow> 64 word \<times> 64 word" where
  "NextUInt64 s =
     (let (hi, s1) = NextUInt32 s; (lo, s2) = NextUInt32 s1
      in (push_bit 32 (ucast hi) OR ucast lo, s2))"

definition Random_Initialize :: "64 word \<Rightarrow> 64 word" where
  "Random_Initialize seed = NextState (NextState (NextState (NextState seed)))"

text \<open>The default constructor: the seed flag, else the embedder's entropy source (\<open>None\<close>: there is
  none, or its call failed), else the current time.\<close>

definition Random :: "64 word \<Rightarrow> 64 word option \<Rightarrow> 64 word \<Rightarrow> 64 word" where
  "Random flag_random_seed entropy current_time_micros =
     (let seed1 = flag_random_seed;
          seed2 = (if seed1 = 0 then (case entropy of Some e \<Rightarrow> e | None \<Rightarrow> 0) else seed1);
          seed3 = (if seed2 = 0 then current_time_micros else seed2)
      in Random_Initialize seed3)"

definition mwc_modulus :: nat where
  "mwc_modulus = 0xffffda61 * 2 ^ 32 - 1"

lemma NextState_parts:
  "unat (s AND MASK_32) = unat s mod 2 ^ 32" "unat (drop_bit 32 s AND MASK_32) = unat s div 2 ^ 32"
proof -
  have m: "x AND MASK_32 = take_bit 32 x" for x :: "64 word"
    by (simp add: MASK_32_def take_bit_eq_mask mask_eq_exp_minus_1)
  show "unat (s AND MASK_32) = unat s mod 2 ^ 32"
    unfolding m unsigned_take_bit_eq by (simp add: take_bit_eq_mod)
  have "unat s div 2 ^ 32 < 2 ^ 32"
    using unsigned_less [of s] by (simp add: div_less_iff_less_mult)
  then show "unat (drop_bit 32 s AND MASK_32) = unat s div 2 ^ 32"
    unfolding m unsigned_take_bit_eq unsigned_drop_bit_eq by (simp add: take_bit_eq_mod drop_bit_eq_div)
qed

lemma NextState_exact:
  "unat (NextState s) = 0xffffda61 * (unat s mod 2 ^ 32) + unat s div 2 ^ 32"
proof -
  have hi: "unat s div 2 ^ 32 < 2 ^ 32"
    using unsigned_less [of s] by (simp add: div_less_iff_less_mult)
  have lo: "unat s mod 2 ^ 32 < 2 ^ 32" by simp
  have "unat (mwc_A :: 64 word) = 0xffffda61"
    by (simp add: mwc_A_def)
  moreover have "0xffffda61 * (unat s mod 2 ^ 32) + unat s div 2 ^ 32 < 2 ^ 64"
    using hi lo by simp
  ultimately show ?thesis
    unfolding NextState_def Let_def unat_word_ariths NextState_parts(2) unfolding NextState_parts(1) by simp
qed

text \<open>C21.  The generator of port numbers is a Lehmer generator.  One step of the 64-bit
  multiply-with-carry arithmetic does not overflow and multiplies the state by the inverse of
  \<open>2 ^ 32\<close> modulo \<open>A * 2 ^ 32 - 1\<close>; a non-zero state is never followed by zero.\<close>

theorem next_state_is_lehmer:
  "unat (NextState s) * 2 ^ 32 mod mwc_modulus = unat s mod mwc_modulus \<and>
   (NextState s = 0 \<longleftrightarrow> s = 0)"
proof
  have "unat (NextState s) * 2 ^ 32 = mwc_modulus * (unat s mod 2 ^ 32) + unat s"
  proof -
    have "unat s = unat s div 2 ^ 32 * 2 ^ 32 + unat s mod 2 ^ 32" by simp
    then show ?thesis
      unfolding NextState_exact mwc_modulus_def by simp
  qed
  then show "unat (NextState s) * 2 ^ 32 mod mwc_modulus = unat s mod mwc_modulus"
    by simp
  have "unat (NextState s) = 0 \<longleftrightarrow> unat s = 0"
    unfolding NextState_exact using div_mult_mod_eq [of "unat s" "2 ^ 32"] by (auto simp del: div_mult_mod_eq)
  then show "NextState s = 0 \<longleftrightarrow> s = 0"
    by (simp add: unat_eq_0)
qed

text \<open>The other fixed point of the generator: seeded with it, every draw is the same.\<close>

lemma NextState_fixed_point: "NextState 0xffffda60ffffffff = 0xffffda60ffffffff"
  unfolding word_unat_eq_iff NextState_exact by simp

end
