(* ===== verification/Port_Map.thy ===== *)
theory Port_Map
  imports Port_Set Message_Handler Dart_Random
begin

text \<open>
  \<open>runtime/vm/port.h\<close> and \<open>port.cc\<close>: the global map from port numbers to message handlers.

  The static fields of \<open>PortMap\<close> are the record \<open>port_map\<close>; message handlers live in a store
  (\<open>pm_handlers\<close>) indexed by their address, where a deleted handler is absent, so that a use of a
  deleted handler is a fault.  A stored handler carries its \<open>MessageHandler\<close> state with its
  environment (\<open>Message_Handler\<close>), the port set \<open>ports_\<close> that only the port map touches, and the
  answers of its virtual methods.  The mutex makes every operation atomic, so each is one function
  on the record.
\<close>

section \<open>State\<close>

datatype PortState = kNewPort | kLivePort | kControlPort | kInactivePort

record port_entry =
  pe_handler :: "nat option"
  pe_state :: PortState

definition default_port_entry :: port_entry where
  "default_port_entry = \<lparr>pe_handler = None, pe_state = kNewPort\<rparr>"

record 's phandler =
  ph_world :: "'s world"
  ph_ports :: "unit port_set"
  ph_owned :: bool
  ph_current :: bool
  ph_origin :: int
  ph_group :: nat

record 's port_map =
  pm_ports :: "port_entry port_set option"
  pm_prng :: "64 word option"
  pm_mutex :: bool
  pm_handlers :: "nat \<Rightarrow> 's phandler option"

definition get_handler :: "'s port_map \<Rightarrow> nat option \<Rightarrow> (nat \<times> 's phandler) exec" where
  "get_handler pm a =
     (case a of
        None \<Rightarrow> raise_fault NullDeref
      | Some addr \<Rightarrow> (case pm_handlers pm addr of
                       None \<Rightarrow> raise_fault UseAfterFree
                     | Some h \<Rightarrow> ret (addr, h)))"

definition put_handler :: "nat \<Rightarrow> 's phandler \<Rightarrow> 's port_map \<Rightarrow> 's port_map" where
  "put_handler addr h pm = pm\<lparr>pm_handlers := (pm_handlers pm)(addr \<mapsto> h)\<rparr>"

definition upd_mh :: "(handler \<Rightarrow> handler) \<Rightarrow> 's phandler \<Rightarrow> 's phandler" where
  "upd_mh f h = h\<lparr>ph_world := (ph_world h)\<lparr>mh := f (mh (ph_world h))\<rparr>\<rparr>"

section \<open>Operations\<close>

text \<open>The \<open>continue\<close> in the body of the do-while loop goes to the evaluation of its condition, so
  both branches test \<open>Contains\<close>.\<close>

definition kMask1 :: "64 word" where
  "kMask1 = 0xFFFFFFFFFFFFF"

definition kMask2 :: "64 word" where
  "kMask2 = 0x3"

definition draw_port :: "64 word \<Rightarrow> int \<times> 64 word" where
  "draw_port s = (case NextUInt64 s of (r, s') \<Rightarrow> (sint ((r AND kMask1) OR kMask2), s'))"

partial_function (option) allocate_loop ::
  "port_entry port_set \<Rightarrow> 64 word \<Rightarrow> (int \<times> 64 word) exec" where
  "allocate_loop ps s =
     (let (result, s') = draw_port s in
      if result = kFreePort \<or> result = kDeletedPort
      then ebind (Contains ps result) (\<lambda>again. if again then allocate_loop ps s' else ret (result, s'))
      else ebind (Contains ps result) (\<lambda>again. if again then allocate_loop ps s' else ret (result, s')))"

declare allocate_loop.simps [code]

definition AllocatePort :: "'s port_map \<Rightarrow> (int \<times> 's port_map) exec" where
  "AllocatePort pm =
     (case pm_ports pm of
        None \<Rightarrow> raise_fault NullDeref
      | Some ps \<Rightarrow>
          (case pm_prng pm of
             None \<Rightarrow> raise_fault NullDeref
           | Some s \<Rightarrow> ebind (allocate_loop ps s) (\<lambda>(p, s'). ret (p, pm\<lparr>pm_prng := Some s'\<rparr>))))"

definition SetPortState :: "int \<Rightarrow> PortState \<Rightarrow> 's port_map \<Rightarrow> 's port_map exec" where
  "SetPortState p state pm =
     (case pm_ports pm of
        None \<Rightarrow> ret pm
      | Some ps \<Rightarrow>
          ebind (TryLookup ps p) (\<lambda>it.
          ebind (deref ps it) (\<lambda>e.
          let old_state = pe_state (content e);
              pm1 = pm\<lparr>pm_ports := Some (store ps it ((content e)\<lparr>pe_state := state\<rparr>))\<rparr>
          in if state = kLivePort
             then ebind (get_handler pm1 (pe_handler (content e))) (\<lambda>(a, h).
                    ret (put_handler a (upd_mh increment_live_ports h) pm1))
             else if state = kInactivePort \<and> old_state = kLivePort
             then ebind (get_handler pm1 (pe_handler (content e))) (\<lambda>(a, h).
                    ret (put_handler a (upd_mh decrement_live_ports h) pm1))
             else ret pm1)))"

definition CreatePort :: "nat \<Rightarrow> 's port_map \<Rightarrow> (int \<times> 's port_map) exec" where
  "CreatePort addr pm =
     (case pm_ports pm of
        None \<Rightarrow> ret (ILLEGAL_PORT, pm)
      | Some ps \<Rightarrow>
          ebind (AllocatePort pm) (\<lambda>(p, pm1).
          ebind (get_handler pm1 (Some addr)) (\<lambda>(_, h).
          ebind (Insert () (ph_ports h) \<lparr>port = p, content = ()\<rparr>) (\<lambda>hps.
          ebind (Insert default_port_entry ps
                  \<lparr>port = p, content = \<lparr>pe_handler = Some addr, pe_state = kNewPort\<rparr>\<rparr>) (\<lambda>ps'.
            ret (p, (put_handler addr (h\<lparr>ph_ports := hps\<rparr>) pm1)\<lparr>pm_ports := Some ps'\<rparr>))))))"

text \<open>What happens to a handler after its port was closed: \<open>RequestDeletion\<close> deletes it unless its
  task is running.\<close>

definition request_deletion :: "nat \<Rightarrow> 's phandler \<Rightarrow> 's port_map \<Rightarrow> 's port_map exec" where
  "request_deletion addr h pm =
     ebind (RequestDeletion (ph_world h)) (\<lambda>w.
       if task_running (mh (ph_world h)) then ret (put_handler addr (h\<lparr>ph_world := w\<rparr>) pm)
       else ret (pm\<lparr>pm_handlers := (pm_handlers pm)(addr := None)\<rparr>))"

definition PortMap_ClosePort :: "int \<Rightarrow> 's port_map \<Rightarrow> (bool \<times> 's port_map) exec" where
  "PortMap_ClosePort p pm =
     (case pm_ports pm of
        None \<Rightarrow> ret (False, pm)
      | Some ps \<Rightarrow>
          ebind (TryLookup ps p) (\<lambda>it.
          if it = end_iter ps then ret (False, pm)
          else
            ebind (deref ps it) (\<lambda>e.
            ebind (get_handler pm (pe_handler (content e))) (\<lambda>(a, h).
            let h1 = (if pe_state (content e) = kLivePort then upd_mh decrement_live_ports h else h) in
            ebind (Delete default_port_entry ps it) (\<lambda>ps1.
            ebind (Rebalance default_port_entry ps1) (\<lambda>ps2.
            ebind (TryLookup (ph_ports h1) p) (\<lambda>hit.
            ebind (Delete () (ph_ports h1) hit) (\<lambda>hps1.
            ebind (Rebalance () hps1) (\<lambda>hps2.
            let h2 = upd_mh (ClosePort p) (h1\<lparr>ph_ports := hps2\<rparr>);
                pm1 = (put_handler a h2 pm)\<lparr>pm_ports := Some ps2\<rparr>
            in if \<not> HasLivePorts (mh (ph_world h2)) \<and> ph_owned h2
               then ebind (request_deletion a h2 pm1) (\<lambda>pm2. ret (True, pm2))
               else ret (True, pm1))))))))))"

text \<open>The loop of \<open>ClosePorts\<close> over the handler's own port set; \<open>Delete\<close> through the iterator keeps
  the iterator valid.\<close>

function close_ports_loop ::
  "port_entry port_set \<Rightarrow> 's phandler \<Rightarrow> nat \<Rightarrow> (port_entry port_set \<times> 's phandler) exec" where
  "close_ports_loop ps h isolate_it =
     (if isolate_it < end_iter (ph_ports h)
      then
        ebind (TryLookup ps (port (ps_map (ph_ports h) ! isolate_it))) (\<lambda>it.
        ebind (deref ps it) (\<lambda>e.
        ebind (Delete default_port_entry ps it) (\<lambda>ps1.
        let h1 = (if pe_state (content e) = kLivePort then upd_mh decrement_live_ports h else h);
            hps = delete_cell () (ph_ports h) isolate_it
        in close_ports_loop ps1 (h1\<lparr>ph_ports := hps\<rparr>) (next_iter hps isolate_it))))
      else ret (ps, h))"
  by pat_completeness auto
termination
proof (relation "measure (\<lambda>(ps, h, i). ps_capacity (ph_ports h) - i)")
qed (auto simp: end_iter_def delete_cell_def intro: diff_less_mono2 next_iter_gt)

definition PortMap_ClosePorts :: "nat \<Rightarrow> 's port_map \<Rightarrow> 's port_map exec" where
  "PortMap_ClosePorts addr pm =
     (case pm_ports pm of
        None \<Rightarrow> ret pm
      | Some ps \<Rightarrow>
          ebind (get_handler pm (Some addr)) (\<lambda>(_, h).
          ebind (close_ports_loop ps h (begin_iter (ph_ports h))) (\<lambda>(ps1, h1).
          ebind (Rebalance default_port_entry ps1) (\<lambda>ps2.
          ebind (CloseAllPorts (ph_world h1)) (\<lambda>w.
            ret ((put_handler addr (h1\<lparr>ph_world := w\<rparr>) pm)\<lparr>pm_ports := Some ps2\<rparr>))))))"

text \<open>\<open>PostMessage\<close> owns the message: when it is not handed to a handler it is destroyed on return,
  and the list says what that releases.\<close>

definition PortMap_PostMessage ::
  "'s env \<Rightarrow> message \<Rightarrow> bool \<Rightarrow> 's port_map \<Rightarrow> (bool \<times> release list \<times> 's port_map) exec" where
  "PortMap_PostMessage E message before_events pm =
     (case pm_ports pm of
        None \<Rightarrow> ret (False, destroy_message message, pm)
      | Some ps \<Rightarrow>
          ebind (TryLookup ps (dest_port message)) (\<lambda>it.
          if it = end_iter ps then ret (False, destroy_message (DropFinalizers message), pm)
          else
            ebind (deref ps it) (\<lambda>e.
            ebind (get_handler pm (pe_handler (content e))) (\<lambda>(a, h).
            ebind (PostMessage E message before_events (ph_world h)) (\<lambda>w.
              ret (True, [], put_handler a (h\<lparr>ph_world := w\<rparr>) pm))))))"

text \<open>The queries: \<open>None\<close> for a port that does not exist or after \<open>Cleanup\<close>.\<close>

definition lookup_entry :: "int \<Rightarrow> 's port_map \<Rightarrow> port_entry option exec" where
  "lookup_entry p pm =
     (case pm_ports pm of
        None \<Rightarrow> ret None
      | Some ps \<Rightarrow> ebind (TryLookup ps p) (\<lambda>it.
          if it = end_iter ps then ret None else ebind (deref ps it) (\<lambda>e. ret (Some (content e)))))"

definition IsLocalPort :: "int \<Rightarrow> 's port_map \<Rightarrow> bool exec" where
  "IsLocalPort p pm =
     ebind (lookup_entry p pm) (\<lambda>r. case r of
        None \<Rightarrow> ret False
      | Some e \<Rightarrow> ebind (get_handler pm (pe_handler e)) (\<lambda>(_, h). ret (ph_current h)))"

definition IsLivePort :: "int \<Rightarrow> 's port_map \<Rightarrow> bool exec" where
  "IsLivePort p pm =
     ebind (lookup_entry p pm) (\<lambda>r. case r of
        None \<Rightarrow> ret False
      | Some e \<Rightarrow> ret (pe_state e = kLivePort \<or> pe_state e = kControlPort))"

definition GetIsolate :: "int \<Rightarrow> 's port_map \<Rightarrow> isolate option exec" where
  "GetIsolate p pm =
     ebind (lookup_entry p pm) (\<lambda>r. case r of
        None \<Rightarrow> ret None
      | Some e \<Rightarrow> ebind (get_handler pm (pe_handler e)) (\<lambda>(_, h). ret (owner (mh (ph_world h)))))"

definition GetOriginId :: "int \<Rightarrow> 's port_map \<Rightarrow> int exec" where
  "GetOriginId p pm =
     ebind (lookup_entry p pm) (\<lambda>r. case r of
        None \<Rightarrow> ret ILLEGAL_PORT
      | Some e \<Rightarrow> ebind (get_handler pm (pe_handler e)) (\<lambda>(_, h).
          ret (if owner (mh (ph_world h)) = None then ILLEGAL_PORT else ph_origin h)))"

definition IsReceiverInThisIsolateGroupOrClosed :: "int \<Rightarrow> nat \<Rightarrow> 's port_map \<Rightarrow> bool exec" where
  "IsReceiverInThisIsolateGroupOrClosed receiver grp pm =
     ebind (lookup_entry receiver pm) (\<lambda>r. case r of
        None \<Rightarrow> ret True
      | Some e \<Rightarrow> ebind (get_handler pm (pe_handler e)) (\<lambda>(_, h).
          ret (if owner (mh (ph_world h)) = None then False else ph_group h = grp)))"

text \<open>\<open>rand\<close> is the state of the generator that \<open>new Random()\<close> makes.\<close>

definition PortMap_Init :: "64 word \<Rightarrow> 's port_map \<Rightarrow> 's port_map" where
  "PortMap_Init rand pm =
     (let pm1 = pm\<lparr>pm_mutex := True\<rparr>;
          pm2 = (if pm_prng pm1 = None then pm1\<lparr>pm_prng := Some rand\<rparr> else pm1)
      in if pm_ports pm2 = None then pm2\<lparr>pm_ports := Some (PortSet default_port_entry)\<rparr> else pm2)"

function cleanup_loop :: "port_entry port_set \<Rightarrow> nat \<Rightarrow> 's port_map \<Rightarrow> (port_entry port_set \<times> 's port_map) exec"
where
  "cleanup_loop ps it pm =
     (if it < end_iter ps
      then
        (let e = content (ps_map ps ! it) in
         ebind (get_handler pm (pe_handler e)) (\<lambda>(a, h).
         let h1 = (if pe_state e = kLivePort then upd_mh decrement_live_ports h else h) in
         ebind (delete_handler (ph_world h1)) (\<lambda>_.
           cleanup_loop (delete_cell default_port_entry ps it)
             (next_iter (delete_cell default_port_entry ps it) it)
             (pm\<lparr>pm_handlers := (pm_handlers pm)(a := None)\<rparr>))))
      else ret (ps, pm))"
  by pat_completeness auto
termination
proof (relation "measure (\<lambda>(ps, i, pm). ps_capacity ps - i)")
qed (auto simp: end_iter_def delete_cell_def intro: diff_less_mono2 next_iter_gt)

definition PortMap_Cleanup :: "'s port_map \<Rightarrow> 's port_map exec" where
  "PortMap_Cleanup pm =
     (case pm_ports pm of
        None \<Rightarrow> raise_fault NullDeref
      | Some ps \<Rightarrow>
          ebind (cleanup_loop ps (begin_iter ps) pm) (\<lambda>(ps1, pm1).
          ebind (Rebalance default_port_entry ps1) (\<lambda>_.
            ret (pm1\<lparr>pm_prng := None, pm_ports := None\<rparr>))))"

declare close_ports_loop.simps [simp del] cleanup_loop.simps [simp del]

section \<open>The invariant\<close>

text \<open>The global table and the port sets of the handlers agree.\<close>

definition assigned :: "(int \<Rightarrow> port_entry option) \<Rightarrow> int \<Rightarrow> nat \<Rightarrow> bool" where
  "assigned m p a \<longleftrightarrow> (\<exists>e. m p = Some e \<and> pe_handler e = Some a)"

definition has_port :: "(nat \<Rightarrow> 's phandler option) \<Rightarrow> int \<Rightarrow> nat \<Rightarrow> bool" where
  "has_port H p a \<longleftrightarrow> (\<exists>h. H a = Some h \<and> as_map (ph_ports h) p = Some ())"

definition registered :: "(int \<Rightarrow> port_entry option) \<Rightarrow> (nat \<Rightarrow> 's phandler option) \<Rightarrow> bool" where
  "registered m H \<longleftrightarrow>
     (\<forall>p a. assigned m p a \<longleftrightarrow> has_port H p a) \<and> (\<forall>p e. m p = Some e \<longrightarrow> pe_handler e \<noteq> None)"

definition live_set :: "(int \<Rightarrow> port_entry option) \<Rightarrow> nat \<Rightarrow> int set" where
  "live_set m a = {p. \<exists>e. m p = Some e \<and> pe_handler e = Some a \<and> pe_state e = kLivePort}"

text \<open>\<open>live_ports_\<close> of a handler is the number of its ports in state \<open>kLivePort\<close>.\<close>

definition counted :: "(int \<Rightarrow> port_entry option) \<Rightarrow> (nat \<Rightarrow> 's phandler option) \<Rightarrow> bool" where
  "counted m H \<longleftrightarrow>
     (\<forall>a h. H a = Some h \<longrightarrow> live_ports (mh (ph_world h)) = int (card (live_set m a)))"

definition handlers_ok :: "(nat \<Rightarrow> 's phandler option) \<Rightarrow> bool" where
  "handlers_ok H \<longleftrightarrow> (\<forall>a h. H a = Some h \<longrightarrow> sound (mh (ph_world h)) \<and> port_set_ok (ph_ports h))"

text \<open>A handler owned by the port map (a native port) has at most one port.\<close>

definition owned_single :: "(nat \<Rightarrow> 's phandler option) \<Rightarrow> bool" where
  "owned_single H \<longleftrightarrow>
     (\<forall>a h p q. H a = Some h \<longrightarrow> ph_owned h \<longrightarrow>
        as_map (ph_ports h) p = Some () \<longrightarrow> as_map (ph_ports h) q = Some () \<longrightarrow> p = q)"

definition pm_ok :: "'s port_map \<Rightarrow> bool" where
  "pm_ok pm \<longleftrightarrow>
     handlers_ok (pm_handlers pm) \<and> owned_single (pm_handlers pm) \<and>
     (\<forall>ps. pm_ports pm = Some ps \<longrightarrow>
        port_set_ok ps \<and> balanced ps \<and> registered (as_map ps) (pm_handlers pm) \<and>
        counted (as_map ps) (pm_handlers pm))"

lemma assigned_simps [simp]:
  "assigned (m(p := None)) q a \<longleftrightarrow> q \<noteq> p \<and> assigned m q a"
  "assigned (m(p \<mapsto> e)) q a \<longleftrightarrow> (if q = p then pe_handler e = Some a else assigned m q a)"
  "m p = Some e \<Longrightarrow> assigned m p a \<longleftrightarrow> pe_handler e = Some a"
  "m p = None \<Longrightarrow> \<not> assigned m p a"
  by (auto simp: assigned_def)

lemma has_port_simps [simp]:
  "has_port (H(a \<mapsto> h)) p b \<longleftrightarrow> (if b = a then as_map (ph_ports h) p = Some () else has_port H p b)"
  "has_port (H(a := None)) p b \<longleftrightarrow> b \<noteq> a \<and> has_port H p b"
  "H a = Some h \<Longrightarrow> has_port H p a \<longleftrightarrow> as_map (ph_ports h) p = Some ()"
  by (auto simp: has_port_def)

lemma registered_iff: "registered m H \<Longrightarrow> assigned m p a \<longleftrightarrow> has_port H p a"
  by (simp add: registered_def)

lemma registeredD:
  assumes "registered m H" and "m p = Some e"
  obtains a h where "pe_handler e = Some a" "H a = Some h" "as_map (ph_ports h) p = Some ()"
proof -
  have "pe_handler e \<noteq> None"
    using assms unfolding registered_def by blast
  then obtain a where "pe_handler e = Some a"
    by auto
  moreover from this have "has_port H p a"
    using assms registered_iff [OF assms(1), of p a] by simp
  ultimately show thesis
    using that by (auto simp: has_port_def)
qed

lemma registered_absent:
  assumes "registered m H" and "m p = None" and "H a = Some h"
  shows "as_map (ph_ports h) p = None"
  using assms registered_iff [OF assms(1), of p a] by (cases "as_map (ph_ports h) p") simp_all

lemma registered_insert:
  assumes "registered m H" and "m p = None" and "H a = Some h"
    and "as_map (ph_ports h') = (as_map (ph_ports h))(p \<mapsto> ())" and "pe_handler e = Some a"
  shows "registered (m(p \<mapsto> e)) (H(a \<mapsto> h'))"
proof -
  have "assigned (m(p \<mapsto> e)) q b \<longleftrightarrow> has_port (H(a \<mapsto> h')) q b" for q b
    using assms(2-) registered_iff [OF assms(1), of q b] by auto
  then show ?thesis
    using assms(1,5) by (simp add: registered_def)
qed

lemma registered_delete:
  assumes "registered m H" and "m p = Some e" and "pe_handler e = Some a" and "H a = Some h"
    and "as_map (ph_ports h') = (as_map (ph_ports h))(p := None)"
  shows "registered (m(p := None)) (H(a \<mapsto> h'))"
proof -
  have "assigned (m(p := None)) q b \<longleftrightarrow> has_port (H(a \<mapsto> h')) q b" for q b
    using assms(2-) registered_iff [OF assms(1), of q b] by auto
  then show ?thesis
    using assms(1) by (simp add: registered_def)
qed

lemma registered_update:
  assumes "registered m H" and "m p = Some e" and "pe_handler e' = pe_handler e"
  shows "registered (m(p \<mapsto> e')) H"
proof -
  have "assigned (m(p \<mapsto> e')) q b \<longleftrightarrow> has_port H q b" for q b
    using assms(2-) registered_iff [OF assms(1), of q b] by auto
  then show ?thesis
    using assms by (simp add: registered_def)
qed

lemma registered_handler:
  assumes "registered m H" and "H a = Some h" and "as_map (ph_ports h') = as_map (ph_ports h)"
  shows "registered m (H(a \<mapsto> h'))"
proof -
  have "assigned m q b \<longleftrightarrow> has_port (H(a \<mapsto> h')) q b" for q b
    using assms(2-) registered_iff [OF assms(1), of q b] by auto
  then show ?thesis
    using assms(1) by (simp add: registered_def)
qed

lemma registered_drop:
  assumes "registered m H" and "H a = Some h" and "as_map (ph_ports h) = Map.empty"
  shows "registered m (H(a := None))"
proof -
  have "assigned m q b \<longleftrightarrow> has_port (H(a := None)) q b" for q b
    using assms(2-) registered_iff [OF assms(1), of q b] by auto
  then show ?thesis
    using assms(1) by (simp add: registered_def)
qed

lemma finite_live_set: "finite (dom m) \<Longrightarrow> finite (live_set m a)"
  by (rule finite_subset [of _ "dom m"]) (auto simp: live_set_def)

lemma live_set_update:
  "live_set (m(p := v)) a =
     (case v of None \<Rightarrow> live_set m a - {p}
      | Some e \<Rightarrow> if pe_handler e = Some a \<and> pe_state e = kLivePort then insert p (live_set m a)
                 else live_set m a - {p})"
  by (auto simp: live_set_def split: option.splits if_splits)

lemma counted_update:
  assumes "counted m H" and "\<And>b. b \<noteq> a \<Longrightarrow> live_set m' b = live_set m b"
    and "live_ports (mh (ph_world h')) = int (card (live_set m' a))"
  shows "counted m' (H(a \<mapsto> h'))"
  using assms by (simp add: counted_def)

lemma countedD:
  "counted m H \<Longrightarrow> H a = Some h \<Longrightarrow> live_ports (mh (ph_world h)) = int (card (live_set m a))"
  by (simp add: counted_def)

lemma handlers_ok_update:
  "handlers_ok H \<Longrightarrow> sound (mh (ph_world h)) \<Longrightarrow> port_set_ok (ph_ports h) \<Longrightarrow> handlers_ok (H(a \<mapsto> h))"
  by (simp add: handlers_ok_def)

lemma owned_single_update:
  assumes "owned_single H" and "H a = Some h" and "ph_owned h' = ph_owned h"
    and "\<And>p. as_map (ph_ports h') p = Some () \<Longrightarrow> as_map (ph_ports h) p = Some ()"
  shows "owned_single (H(a \<mapsto> h'))"
  unfolding owned_single_def
proof (intro allI impI)
  fix b k p q
  assume "(H(a \<mapsto> h')) b = Some k" "ph_owned k" "as_map (ph_ports k) p = Some ()" "as_map (ph_ports k) q = Some ()"
  then show "p = q"
    using assms(1) [unfolded owned_single_def, rule_format, of b "if b = a then h else k" p q] assms(2-)
    by (cases "b = a") simp_all
qed

lemma sound_live_ports [simp]:
  "sound (increment_live_ports h) = sound h" "sound (decrement_live_ports h) = sound h"
  "sound (ClosePort p h) = sound h" "sound (h\<lparr>delete_me := b\<rparr>) = sound h"
  by (simp_all add: sound_def handler_rep_def increment_live_ports_def decrement_live_ports_def ClosePort_def)

lemma upd_mh_simps [simp]:
  "ph_ports (upd_mh f h) = ph_ports h" "ph_owned (upd_mh f h) = ph_owned h"
  "mh (ph_world (upd_mh f h)) = f (mh (ph_world h))"
  by (simp_all add: upd_mh_def)

lemma put_handler_simps [simp]:
  "pm_handlers (put_handler a h pm) = (pm_handlers pm)(a \<mapsto> h)"
  "pm_ports (put_handler a h pm) = pm_ports pm"
  by (simp_all add: put_handler_def)

lemma pm_okI:
  assumes "handlers_ok (pm_handlers pm)" and "owned_single (pm_handlers pm)" and "pm_ports pm = Some ps"
    and "port_set_ok ps" and "balanced ps" and "registered (as_map ps) (pm_handlers pm)"
    and "counted (as_map ps) (pm_handlers pm)"
  shows "pm_ok pm"
  using assms by (simp add: pm_ok_def)

lemma pm_okD:
  assumes "pm_ok pm" and "pm_ports pm = Some ps"
  shows "handlers_ok (pm_handlers pm)" "owned_single (pm_handlers pm)" "port_set_ok ps" "balanced ps"
    "registered (as_map ps) (pm_handlers pm)" "counted (as_map ps) (pm_handlers pm)"
  using assms by (simp_all add: pm_ok_def)

lemma handlers_okD:
  assumes "handlers_ok H" and "H a = Some h"
  shows "sound (mh (ph_world h))" "port_set_ok (ph_ports h)"
  using assms by (auto simp: handlers_ok_def)

lemma lookup_hit:
  assumes "port_set_ok ps" and "as_map ps p = Some v"
  obtains it where "TryLookup ps p = ret it" "it < ps_capacity ps" "it \<noteq> end_iter ps"
    "live (ps_map ps ! it)" "port (ps_map ps ! it) = p" "deref ps it = ret \<lparr>port = p, content = v\<rparr>"
proof -
  obtain i where i: "TryLookup ps p = ret i" "i < ps_capacity ps" "live (ps_map ps ! i)"
      "port (ps_map ps ! i) = p" "content (ps_map ps ! i) = v"
    using TryLookup_hit [OF assms] by blast
  then have "deref ps i = ret \<lparr>port = p, content = v\<rparr>"
    by (cases "ps_map ps ! i") (simp add: deref_def)
  with i show thesis
    by (intro that [of i]) (simp_all add: end_iter_def)
qed

subsection \<open>SetPortState\<close>

definition legal_transition :: "PortState \<Rightarrow> PortState \<Rightarrow> bool" where
  "legal_transition old new \<longleftrightarrow>
     (new = kLivePort \<longrightarrow> old \<noteq> kLivePort) \<and> (old = kLivePort \<longrightarrow> new = kInactivePort)"

definition live_change :: "PortState \<Rightarrow> PortState \<Rightarrow> handler \<Rightarrow> handler" where
  "live_change old new =
     (if new = kLivePort then increment_live_ports
      else if new = kInactivePort \<and> old = kLivePort then decrement_live_ports else (\<lambda>h. h))"

lemma counted_set_state:
  assumes cnt: "counted m H" and fin: "finite (dom m)" and p: "m p = Some e"
    and a: "pe_handler e = Some a" "H a = Some h" and legal: "legal_transition (pe_state e) st"
  shows "counted (m(p \<mapsto> e\<lparr>pe_state := st\<rparr>)) (H(a \<mapsto> upd_mh (live_change (pe_state e) st) h))"
proof (rule counted_update [OF cnt])
  have mem: "p \<in> live_set m b \<longleftrightarrow> b = a \<and> pe_state e = kLivePort" for b
    using p a(1) by (auto simp: live_set_def)
  show "live_set (m(p \<mapsto> e\<lparr>pe_state := st\<rparr>)) b = live_set m b" if "b \<noteq> a" for b
    using that mem a(1) unfolding live_set_update by simp
  have c: "live_ports (mh (ph_world h)) = int (card (live_set m a))" and f: "finite (live_set m a)"
    using cnt a(2) fin by (simp_all add: counted_def finite_live_set)
  consider (up) "st = kLivePort" "pe_state e \<noteq> kLivePort"
    | (down) "st = kInactivePort" "pe_state e = kLivePort"
    | (same) "st \<noteq> kLivePort" "pe_state e \<noteq> kLivePort"
    using legal by (auto simp: legal_transition_def)
  then show "live_ports (mh (ph_world (upd_mh (live_change (pe_state e) st) h))) =
      int (card (live_set (m(p \<mapsto> e\<lparr>pe_state := st\<rparr>)) a))"
  proof cases
    case up
    then show ?thesis
      using mem [of a] a(1) c f unfolding live_set_update
      by (simp add: increment_live_ports_def live_change_def)
  next
    case down
    moreover have "card (live_set m a) > 0"
      using f mem [of a] down by (auto simp: card_gt_0_iff)
    ultimately show ?thesis
      using mem [of a] a(1) c f unfolding live_set_update
      by (simp add: decrement_live_ports_def live_change_def of_nat_diff)
  next
    case same
    then show ?thesis
      using mem [of a] a(1) c unfolding live_set_update by (simp add: live_change_def)
  qed
qed

lemma SetPortState_run:
  assumes ps: "pm_ports pm = Some ps" "port_set_ok ps" and reg: "registered (as_map ps) (pm_handlers pm)"
    and p: "as_map ps p = Some e"
  obtains it a h where "it < ps_capacity ps" "live (ps_map ps ! it)" "port (ps_map ps ! it) = p"
    "pe_handler e = Some a" "pm_handlers pm a = Some h"
    "SetPortState p st pm = ret (pm\<lparr>pm_ports := Some (store ps it (e\<lparr>pe_state := st\<rparr>)),
       pm_handlers := (pm_handlers pm)(a \<mapsto> upd_mh (live_change (pe_state e) st) h)\<rparr>)"
proof -
  obtain it where it: "TryLookup ps p = ret it" "it < ps_capacity ps" "live (ps_map ps ! it)"
      "port (ps_map ps ! it) = p" "deref ps it = ret \<lparr>port = p, content = e\<rparr>"
    using lookup_hit [OF ps(2) p] by metis
  obtain a h where a: "pe_handler e = Some a" "pm_handlers pm a = Some h"
    using registeredD [OF reg p] by metis
  have "(pm_handlers pm)(a \<mapsto> upd_mh (\<lambda>x. x) h) = pm_handlers pm"
    using a(2) by (simp add: fun_upd_idem upd_mh_def)
  then have "SetPortState p st pm = ret (pm\<lparr>pm_ports := Some (store ps it (e\<lparr>pe_state := st\<rparr>)),
       pm_handlers := (pm_handlers pm)(a \<mapsto> upd_mh (live_change (pe_state e) st) h)\<rparr>)"
    using ps it a by (simp add: SetPortState_def get_handler_def put_handler_def live_change_def Let_def)
  with it a show thesis by (intro that)
qed

lemma SetPortState_ok:
  assumes ok: "pm_ok pm" and ps: "pm_ports pm = Some ps" and p: "as_map ps p = Some e"
    and legal: "legal_transition (pe_state e) st"
  shows "returns (SetPortState p st pm) (\<lambda>pm'. pm_ok pm' \<and>
           (\<exists>ps'. pm_ports pm' = Some ps' \<and> as_map ps' = (as_map ps)(p \<mapsto> e\<lparr>pe_state := st\<rparr>)))"
proof -
  note D = pm_okD [OF ok ps]
  obtain it a h where it: "it < ps_capacity ps" "live (ps_map ps ! it)" "port (ps_map ps ! it) = p"
      and a: "pe_handler e = Some a" "pm_handlers pm a = Some h"
      and run: "SetPortState p st pm = ret (pm\<lparr>pm_ports := Some (store ps it (e\<lparr>pe_state := st\<rparr>)),
        pm_handlers := (pm_handlers pm)(a \<mapsto> upd_mh (live_change (pe_state e) st) h)\<rparr>)"
    using SetPortState_run [OF ps D(3,5) p] by metis
  let ?ps = "store ps it (e\<lparr>pe_state := st\<rparr>)"
  let ?h = "upd_mh (live_change (pe_state e) st) h"
  let ?pm = "pm\<lparr>pm_ports := Some ?ps, pm_handlers := (pm_handlers pm)(a \<mapsto> ?h)\<rparr>"
  note S = store_ok [OF D(3) it(1,2), of "e\<lparr>pe_state := st\<rparr>"]
  have m: "as_map ?ps = (as_map ps)(p \<mapsto> e\<lparr>pe_state := st\<rparr>)"
    using S(3) it(3) by simp
  have "counted (as_map ?ps) ((pm_handlers pm)(a \<mapsto> ?h))"
    unfolding m by (rule counted_set_state [OF D(6) finite_as_map p a legal])
  moreover have "registered (as_map ?ps) ((pm_handlers pm)(a \<mapsto> ?h))"
    unfolding m by (rule registered_handler [OF registered_update [OF D(5) p] a(2)]) simp_all
  moreover have "handlers_ok ((pm_handlers pm)(a \<mapsto> ?h))"
    using handlers_okD [OF D(1) a(2)]
    by (intro handlers_ok_update [OF D(1)]) (simp_all add: live_change_def)
  moreover have "owned_single ((pm_handlers pm)(a \<mapsto> ?h))"
    by (rule owned_single_update [OF D(2) a(2)]) simp_all
  ultimately have "pm_ok ?pm"
    using S(1,2) D(4) by (intro pm_okI [of _ ?ps]) simp_all
  with run m show ?thesis by simp
qed

subsection \<open>Allocation and creation\<close>

fun nth_draw :: "64 word \<Rightarrow> nat \<Rightarrow> int" where
  "nth_draw s 0 = fst (draw_port s)"
| "nth_draw s (Suc n) = nth_draw (snd (draw_port s)) n"

lemma draw_port_range: "3 \<le> fst (draw_port s)" "fst (draw_port s) < 2 ^ 52"
proof -
  obtain r s' where r: "NextUInt64 s = (r, s')" by (cases "NextUInt64 s")
  let ?x = "(r AND kMask1) OR kMask2"
  have "r AND kMask1 = take_bit 52 r"
    by (simp add: kMask1_def take_bit_eq_mask mask_eq_exp_minus_1)
  then have u: "uint ?x = take_bit 52 (uint r) OR 3"
    by (simp add: kMask2_def unsigned_or_eq unsigned_take_bit_eq)
  have t: "take_bit 52 (uint r) OR 3 = take_bit 52 (uint r OR 3)"
    by (simp add: take_bit_or)
  have lt: "uint ?x < 2 ^ 52"
    unfolding u t by (rule take_bit_int_less_exp)
  have ge: "3 \<le> uint ?x"
    unfolding u by (subst or.commute) (rule or_greater_eq, simp)
  have "sint ?x = uint ?x"
    using lt ge unfolding sint_uint by (intro signed_take_bit_int_eq_self) simp_all
  with lt ge r show "3 \<le> fst (draw_port s)" "fst (draw_port s) < 2 ^ 52"
    by (simp_all add: draw_port_def)
qed

text \<open>The loop returns the first draw that is not in use.\<close>

lemma allocate_loop_ok:
  assumes "port_set_ok ps" and "\<And>i. i \<le> n \<Longrightarrow> nth_draw s i \<noteq> kDeletedPort"
    and "\<And>i. i < n \<Longrightarrow> as_map ps (nth_draw s i) \<noteq> None" and "as_map ps (nth_draw s n) = None"
  shows "\<exists>s'. allocate_loop ps s = ret (nth_draw s n, s')"
  using assms(2-)
proof (induction n arbitrary: s)
  case 0
  have "Contains ps (fst (draw_port s)) = ret False"
    using Contains_iff [OF assms(1), of "fst (draw_port s)"] draw_port_range(1) [of s] 0 by simp
  then show ?case
    by (subst allocate_loop.simps) (simp add: split_beta Let_def prod_eq_iff)
next
  case (Suc n)
  have "Contains ps (fst (draw_port s)) = ret True"
    using Contains_iff [OF assms(1), of "fst (draw_port s)"] draw_port_range(1) [of s]
      Suc.prems(1) [of 0] Suc.prems(2) [of 0] by simp
  then have "allocate_loop ps s = allocate_loop ps (snd (draw_port s))"
    by (subst allocate_loop.simps) (simp add: split_beta Let_def)
  moreover have "\<exists>s'. allocate_loop ps (snd (draw_port s)) = ret (nth_draw (snd (draw_port s)) n, s')"
  proof (rule Suc.IH)
    show "nth_draw (snd (draw_port s)) i \<noteq> kDeletedPort" if "i \<le> n" for i
      using Suc.prems(1) [of "Suc i"] that by simp
    show "as_map ps (nth_draw (snd (draw_port s)) i) \<noteq> None" if "i < n" for i
      using Suc.prems(2) [of "Suc i"] that by simp
    show "as_map ps (nth_draw (snd (draw_port s)) n) = None"
      using Suc.prems(3) by simp
  qed
  ultimately show ?case by simp
qed

text \<open>A returned draw passed the test of the loop.\<close>

lemma allocate_loop_result:
  assumes "allocate_loop ps s = ret (p, s')"
  shows "Contains ps p = ret False \<and> 3 \<le> p"
proof -
  let ?P = "\<lambda>ps (s :: 64 word) y. \<forall>p s'. y = (Inr (p, s') :: fault + int \<times> 64 word) \<longrightarrow>
      Contains ps p = ret False \<and> 3 \<le> p"
  have "?P ps s (Inr (p, s'))"
  proof (rule allocate_loop.raw_induct [where P = ?P and y = "Inr (p, s')"], intro allI impI)
    fix al ps and s :: "64 word" and y p s'
    assume IH: "\<And>ps s y. al ps s = Some y \<Longrightarrow> ?P ps s y"
      and eq: "(let (result, s') = draw_port s in
        if result = kFreePort \<or> result = kDeletedPort
        then ebind (Contains ps result) (\<lambda>again. if again then al ps s' else ret (result, s'))
        else ebind (Contains ps result) (\<lambda>again. if again then al ps s' else ret (result, s'))) = Some y"
      and y: "y = Inr (p, s')"
    show "Contains ps p = ret False \<and> 3 \<le> p"
      using eq IH [of ps "snd (draw_port s)" y] draw_port_range(1) [of s] unfolding y
      by (cases "Contains ps (fst (draw_port s))" rule: exec_cases)
        (auto simp: split_beta Let_def ret_def raise_fault_def ebind_def split: if_splits)
  qed (use assms in \<open>simp add: ret_def\<close>)
  then show ?thesis by blast
qed

lemma CreatePort_ok:
  assumes ok: "pm_ok pm" and ps: "pm_ports pm = Some ps" and s: "pm_prng pm = Some s"
    and h: "pm_handlers pm addr = Some h" and single: "ph_owned h \<Longrightarrow> as_map (ph_ports h) = Map.empty"
    and al: "allocate_loop ps s = ret (p, s')" and p: "0 < p" "p \<noteq> kDeletedPort" "as_map ps p = None"
  shows "returns (CreatePort addr pm) (\<lambda>(p', pm'). p' = p \<and> pm_ok pm' \<and>
           (\<exists>ps'. pm_ports pm' = Some ps' \<and>
              as_map ps' = (as_map ps)(p \<mapsto> \<lparr>pe_handler = Some addr, pe_state = kNewPort\<rparr>)))"
proof -
  note D = pm_okD [OF ok ps]
  let ?e = "\<lparr>pe_handler = Some addr, pe_state = kNewPort\<rparr>"
  have absent: "as_map (ph_ports h) p = None"
    by (rule registered_absent [OF D(5) p(3) h])
  obtain hps where hps: "Insert () (ph_ports h) \<lparr>port = p, content = ()\<rparr> = ret hps" "port_set_ok hps"
      "as_map hps = (as_map (ph_ports h))(p \<mapsto> ())"
    using Insert_ok [OF handlers_okD(2) [OF D(1) h], of "\<lparr>port = p, content = ()\<rparr>" "()"] p absent
    by auto
  obtain ps' where ps': "Insert default_port_entry ps \<lparr>port = p, content = ?e\<rparr> = ret ps'"
      "port_set_ok ps'" "balanced ps'" "as_map ps' = (as_map ps)(p \<mapsto> ?e)"
    using Insert_ok [OF D(3), of "\<lparr>port = p, content = ?e\<rparr>" default_port_entry] p by auto
  let ?h = "h\<lparr>ph_ports := hps\<rparr>"
  let ?pm = "(put_handler addr ?h (pm\<lparr>pm_prng := Some s'\<rparr>))\<lparr>pm_ports := Some ps'\<rparr>"
  have run: "CreatePort addr pm = ret (p, ?pm)"
    using ps s h al hps(1) ps'(1) by (simp add: CreatePort_def AllocatePort_def get_handler_def)
  have "owned_single ((pm_handlers pm)(addr \<mapsto> ?h))"
    unfolding owned_single_def
  proof (intro allI impI)
    fix b k p1 p2
    assume "((pm_handlers pm)(addr \<mapsto> ?h)) b = Some k" "ph_owned k"
      "as_map (ph_ports k) p1 = Some ()" "as_map (ph_ports k) p2 = Some ()"
    then show "p1 = p2"
      using D(2) [unfolded owned_single_def, rule_format, of b k p1 p2] single hps(3)
      by (cases "b = addr") (auto split: if_splits)
  qed
  moreover have "handlers_ok ((pm_handlers pm)(addr \<mapsto> ?h))"
    using handlers_okD [OF D(1) h] hps(2) by (intro handlers_ok_update [OF D(1)]) simp_all
  moreover have "registered (as_map ps') ((pm_handlers pm)(addr \<mapsto> ?h))"
    unfolding ps'(4) by (rule registered_insert [OF D(5) p(3) h]) (simp_all add: hps(3))
  moreover have "p \<notin> live_set (as_map ps) b" for b
    using p(3) by (simp add: live_set_def)
  then have "counted (as_map ps') ((pm_handlers pm)(addr \<mapsto> ?h))"
    using D(6) h unfolding ps'(4)
    by (intro counted_update [OF D(6)]) (simp_all add: live_set_update counted_def)
  ultimately have "pm_ok ?pm"
    using ps'(2,3) by (intro pm_okI [of _ ps']) simp_all
  with run ps'(4) show ?thesis by simp
qed

subsection \<open>Closing\<close>

lemma counted_close:
  assumes cnt: "counted m H" and fin: "finite (dom m)" and p: "m p = Some e"
    and a: "pe_handler e = Some a" "H a = Some h"
    and l: "live_ports (mh (ph_world h')) =
              live_ports (mh (ph_world h)) - (if pe_state e = kLivePort then 1 else 0)"
  shows "counted (m(p := None)) (H(a \<mapsto> h'))"
proof (rule counted_update [OF cnt])
  have mem: "p \<in> live_set m b \<longleftrightarrow> b = a \<and> pe_state e = kLivePort" for b
    using p a(1) by (auto simp: live_set_def)
  show "live_set (m(p := None)) b = live_set m b" if "b \<noteq> a" for b
    using that mem unfolding live_set_update by simp
  have c: "live_ports (mh (ph_world h)) = int (card (live_set m a))" and f: "finite (live_set m a)"
    using cnt a(2) fin by (simp_all add: counted_def finite_live_set)
  have "card (live_set m a) > 0" if "pe_state e = kLivePort"
    using f mem [of a] that by (auto simp: card_gt_0_iff)
  then show "live_ports (mh (ph_world h')) = int (card (live_set (m(p := None)) a))"
    using mem [of a] c f l unfolding live_set_update by (auto simp: of_nat_diff)
qed

lemma pm_ok_drop:
  assumes "pm_ok pm" and "pm_ports pm = Some ps" and "pm_handlers pm a = Some h"
    and "as_map (ph_ports h) = Map.empty"
  shows "pm_ok (pm\<lparr>pm_handlers := (pm_handlers pm)(a := None)\<rparr>)"
proof -
  note D = pm_okD [OF assms(1,2)]
  have "handlers_ok ((pm_handlers pm)(a := None))"
    using D(1) by (simp add: handlers_ok_def)
  moreover have "owned_single ((pm_handlers pm)(a := None))"
    using D(2) unfolding owned_single_def by auto
  moreover have "counted (as_map ps) ((pm_handlers pm)(a := None))"
    using D(6) by (simp add: counted_def)
  ultimately show ?thesis
    using registered_drop [OF D(5) assms(3,4)] D(3,4) assms(2)
    by (intro pm_okI [of _ ps]) simp_all
qed

lemma request_deletion_ok:
  assumes ok: "pm_ok pm" and ps: "pm_ports pm = Some ps" and h: "pm_handlers pm a = Some h"
    and empty: "as_map (ph_ports h) = Map.empty"
  shows "returns (request_deletion a h pm) (\<lambda>pm'. pm_ok pm' \<and> pm_ports pm' = Some ps)"
proof (cases "task_running (mh (ph_world h))")
  case True
  note D = pm_okD [OF ok ps]
  let ?h = "h\<lparr>ph_world := (ph_world h)\<lparr>mh := (mh (ph_world h))\<lparr>delete_me := True\<rparr>\<rparr>\<rparr>"
  have "handlers_ok ((pm_handlers pm)(a \<mapsto> ?h))"
    using handlers_okD [OF D(1) h] by (intro handlers_ok_update [OF D(1)]) simp_all
  moreover have "owned_single ((pm_handlers pm)(a \<mapsto> ?h))"
    by (rule owned_single_update [OF D(2) h]) simp_all
  moreover have "registered (as_map ps) ((pm_handlers pm)(a \<mapsto> ?h))"
    by (rule registered_handler [OF D(5) h]) simp
  moreover have "counted (as_map ps) ((pm_handlers pm)(a \<mapsto> ?h))"
    using D(6) h by (intro counted_update [OF D(6)]) (simp_all add: counted_def)
  ultimately have "pm_ok (put_handler a ?h pm)"
    using D(3,4) ps by (intro pm_okI [of _ ps]) simp_all
  with True ps show ?thesis
    by (simp add: request_deletion_def RequestDeletion_def)
next
  case False
  obtain w where "delete_handler (ph_world h) = ret w"
    using delete_handler_returns handlers_okD(1) [OF pm_okD(1) [OF ok ps] h] by blast
  with False pm_ok_drop [OF ok ps h empty] ps show ?thesis
    by (simp add: request_deletion_def RequestDeletion_def)
qed

text \<open>The idiom look up, delete through the iterator, rebalance.\<close>

lemma remove_hit:
  assumes "port_set_ok ps" and "as_map ps p = Some v"
  obtains it ps1 ps2 where "TryLookup ps p = ret it" "it \<noteq> end_iter ps" "deref ps it = ret \<lparr>port = p, content = v\<rparr>"
    "Delete dv ps it = ret ps1" "Rebalance dv ps1 = ret ps2" "port_set_ok ps2" "balanced ps2"
    "as_map ps2 = (as_map ps)(p := None)"
proof -
  obtain it where it: "TryLookup ps p = ret it" "it < ps_capacity ps" "it \<noteq> end_iter ps"
      "live (ps_map ps ! it)" "port (ps_map ps ! it) = p" "deref ps it = ret \<lparr>port = p, content = v\<rparr>"
    using lookup_hit [OF assms] by blast
  obtain ps1 where ps1: "Delete dv ps it = ret ps1" "port_set_ok ps1" "as_map ps1 = (as_map ps)(p := None)"
    using Delete_ok [OF assms(1) it(2,4), of dv] it(5) by auto
  obtain ps2 where "Rebalance dv ps1 = ret ps2" "port_set_ok ps2" "balanced ps2"
      "as_map ps2 = (as_map ps)(p := None)"
    using Rebalance_ok [OF ps1(2), of dv] ps1(3) by auto
  with it ps1 show thesis by (intro that)
qed

lemma ClosePort_run:
  assumes ps: "pm_ports pm = Some ps" "port_set_ok ps" and reg: "registered (as_map ps) (pm_handlers pm)"
    and hs: "handlers_ok (pm_handlers pm)" and p: "as_map ps p = Some e"
  obtains a h h2 ps2 where "pe_handler e = Some a" "pm_handlers pm a = Some h" "as_map (ph_ports h) p = Some ()"
    "port_set_ok ps2" "balanced ps2" "as_map ps2 = (as_map ps)(p := None)"
    "ph_owned h2 = ph_owned h" "port_set_ok (ph_ports h2)" "as_map (ph_ports h2) = (as_map (ph_ports h))(p := None)"
    "sound (mh (ph_world h2))"
    "live_ports (mh (ph_world h2)) = live_ports (mh (ph_world h)) - (if pe_state e = kLivePort then 1 else 0)"
    "PortMap_ClosePort p pm =
      (if \<not> HasLivePorts (mh (ph_world h2)) \<and> ph_owned h2
       then ebind (request_deletion a h2 ((put_handler a h2 pm)\<lparr>pm_ports := Some ps2\<rparr>)) (\<lambda>pm2. ret (True, pm2))
       else ret (True, (put_handler a h2 pm)\<lparr>pm_ports := Some ps2\<rparr>))"
proof -
  obtain it ps1 ps2 where g: "TryLookup ps p = ret it" "it \<noteq> end_iter ps"
      "deref ps it = ret \<lparr>port = p, content = e\<rparr>" "Delete default_port_entry ps it = ret ps1"
      "Rebalance default_port_entry ps1 = ret ps2" "port_set_ok ps2" "balanced ps2"
      "as_map ps2 = (as_map ps)(p := None)"
    using remove_hit [OF ps(2) p, where dv = default_port_entry] by blast
  obtain a h where a: "pe_handler e = Some a" "pm_handlers pm a = Some h" "as_map (ph_ports h) p = Some ()"
    using registeredD [OF reg p] by blast
  note hok = handlers_okD [OF hs a(2)]
  obtain hit hps1 hps2 where l: "TryLookup (ph_ports h) p = ret hit" "Delete () (ph_ports h) hit = ret hps1"
      "Rebalance () hps1 = ret hps2" "port_set_ok hps2" "as_map hps2 = (as_map (ph_ports h))(p := None)"
    using remove_hit [OF hok(2) a(3), where dv = "()"] by blast
  let ?h1 = "if pe_state e = kLivePort then upd_mh decrement_live_ports h else h"
  have h1: "ph_ports ?h1 = ph_ports h" "ph_owned ?h1 = ph_owned h" by simp_all
  let ?h2 = "upd_mh (ClosePort p) (?h1\<lparr>ph_ports := hps2\<rparr>)"
  have run: "PortMap_ClosePort p pm =
      (if \<not> HasLivePorts (mh (ph_world ?h2)) \<and> ph_owned ?h2
       then ebind (request_deletion a ?h2 ((put_handler a ?h2 pm)\<lparr>pm_ports := Some ps2\<rparr>)) (\<lambda>pm2. ret (True, pm2))
       else ret (True, (put_handler a ?h2 pm)\<lparr>pm_ports := Some ps2\<rparr>))"
    using ps g(1-5) a l(1-3) by (simp add: PortMap_ClosePort_def get_handler_def h1 Let_def)
  show thesis
    by (rule that [OF a g(6-8) _ _ _ _ _ run])
      (use hok(1) l(4,5) in \<open>simp_all add: ClosePort_def decrement_live_ports_def sound_def handler_rep_def\<close>)
qed

lemma ClosePort_hit:
  assumes ok: "pm_ok pm" and ps: "pm_ports pm = Some ps" and p: "as_map ps p = Some e"
  shows "returns (PortMap_ClosePort p pm) (\<lambda>(r, pm'). r \<and> pm_ok pm' \<and>
           (\<exists>ps'. pm_ports pm' = Some ps' \<and> as_map ps' = (as_map ps)(p := None)))"
proof -
  note D = pm_okD [OF ok ps]
  obtain a h h2 ps2 where a: "pe_handler e = Some a" "pm_handlers pm a = Some h" "as_map (ph_ports h) p = Some ()"
    and g: "port_set_ok ps2" "balanced ps2" "as_map ps2 = (as_map ps)(p := None)"
    and l: "ph_owned h2 = ph_owned h" "port_set_ok (ph_ports h2)" "as_map (ph_ports h2) = (as_map (ph_ports h))(p := None)"
      "sound (mh (ph_world h2))"
      "live_ports (mh (ph_world h2)) = live_ports (mh (ph_world h)) - (if pe_state e = kLivePort then 1 else 0)"
    and run: "PortMap_ClosePort p pm =
      (if \<not> HasLivePorts (mh (ph_world h2)) \<and> ph_owned h2
       then ebind (request_deletion a h2 ((put_handler a h2 pm)\<lparr>pm_ports := Some ps2\<rparr>)) (\<lambda>pm2. ret (True, pm2))
       else ret (True, (put_handler a h2 pm)\<lparr>pm_ports := Some ps2\<rparr>))"
    by (rule ClosePort_run [OF ps D(3,5,1) p])
  let ?pm1 = "(put_handler a h2 pm)\<lparr>pm_ports := Some ps2\<rparr>"
  have "handlers_ok ((pm_handlers pm)(a \<mapsto> h2))"
    using l by (intro handlers_ok_update [OF D(1)])
  moreover have "owned_single ((pm_handlers pm)(a \<mapsto> h2))"
    using l(1,3) by (intro owned_single_update [OF D(2) a(2)]) (auto split: if_splits)
  moreover have "registered (as_map ps2) ((pm_handlers pm)(a \<mapsto> h2))"
    unfolding g(3) by (rule registered_delete [OF D(5) p a(1,2) l(3)])
  moreover have "counted (as_map ps2) ((pm_handlers pm)(a \<mapsto> h2))"
    unfolding g(3) by (rule counted_close [OF D(6) finite_as_map p a(1,2) l(5)])
  ultimately have ok1: "pm_ok ?pm1"
    using g(1,2) by (intro pm_okI [of _ ps2]) simp_all
  have "as_map (ph_ports h) q = None" if "ph_owned h" "q \<noteq> p" for q
    using D(2) [unfolded owned_single_def, rule_format, OF a(2) that(1) a(3), of q] that(2)
    by (cases "as_map (ph_ports h) q") simp_all
  then have empty: "as_map (ph_ports h2) = Map.empty" if "ph_owned h2"
    using that l(1,3) by (simp add: fun_eq_iff)
  show ?thesis
  proof (cases "\<not> HasLivePorts (mh (ph_world h2)) \<and> ph_owned h2")
    case True
    have "returns (request_deletion a h2 ?pm1) (\<lambda>pm'. pm_ok pm' \<and> pm_ports pm' = Some ps2)"
      by (rule request_deletion_ok [OF ok1 _ _ empty]) (use True in simp_all)
    then show ?thesis
      unfolding run if_P [OF True] using g(3) by (auto elim!: returnsE)
  next
    case False
    show ?thesis
      unfolding run if_not_P [OF False] using ok1 g(3) by simp
  qed
qed

lemma ClosePort_miss:
  assumes "pm_ok pm" and "pm_ports pm = Some ps" and "as_map ps p = None" and "0 \<le> p" and "p \<noteq> kDeletedPort"
  shows "PortMap_ClosePort p pm = ret (False, pm)"
  using TryLookup_miss [OF pm_okD(3) [OF assms(1,2)] assms(4,5,3)] assms(2)
  by (simp add: PortMap_ClosePort_def)

text \<open>The position of an iterator that deletes what it passes.\<close>

definition at_iter :: "'v port_set \<Rightarrow> nat \<Rightarrow> bool" where
  "at_iter ps it \<longleftrightarrow> it \<le> ps_capacity ps \<and> (it < ps_capacity ps \<longrightarrow> live (ps_map ps ! it)) \<and>
     (\<forall>j<it. \<not> live (ps_map ps ! j))"

lemma at_iter_begin: "at_iter ps (begin_iter ps)"
  using seek_live_between [of 0 _ ps] seek_live_live [of ps 0] seek_live_le [of 0 ps]
  by (auto simp: at_iter_def begin_iter_def)

lemma at_iter_next:
  assumes "at_iter ps it" and "it < ps_capacity ps" and "ps_capacity ps = length (ps_map ps)"
  shows "at_iter (delete_cell dv ps it) (next_iter (delete_cell dv ps it) it)"
proof -
  let ?ps = "delete_cell dv ps it"
  have dead: "\<not> live (ps_map ?ps ! j)" if "j \<le> it" for j
    using assms that by (cases "j = it") (auto simp: at_iter_def delete_cell_def)
  moreover have "\<not> live (ps_map ?ps ! j)" if "it + 1 \<le> j" "j < seek_live ?ps (it + 1)" for j
    using seek_live_between [OF that] seek_live_le [of "it + 1" ?ps] that assms(2)
    by (auto simp: delete_cell_def)
  ultimately have "\<not> live (ps_map ?ps ! j)" if "j < seek_live ?ps (it + 1)" for j
    using that by (cases "j \<le> it") auto
  then show ?thesis
    using seek_live_live [of ?ps "it + 1"] seek_live_le [of "it + 1" ?ps] assms(2)
    by (auto simp: at_iter_def next_iter_def delete_cell_def)
qed

lemma at_iter_end:
  assumes "at_iter ps it" and "\<not> it < ps_capacity ps" and "port_set_ok ps"
  shows "as_map ps = Map.empty"
  using assms port_set_okD(2) [OF assms(3)]
  by (auto simp: at_iter_def as_map_def fun_eq_iff contents_None)

text \<open>The state of \<open>ClosePorts\<close> between two iterations: the handler \<open>a\<close> of \<open>H\<close> is being stripped.\<close>

definition close_inv ::
  "(nat \<Rightarrow> 's phandler option) \<Rightarrow> nat \<Rightarrow> bool \<Rightarrow> port_entry port_set \<Rightarrow> 's phandler \<Rightarrow> bool" where
  "close_inv H a owned ps h \<longleftrightarrow>
     port_set_ok ps \<and> port_set_ok (ph_ports h) \<and> sound (mh (ph_world h)) \<and> ph_owned h = owned \<and>
     registered (as_map ps) (H(a \<mapsto> h)) \<and> counted (as_map ps) (H(a \<mapsto> h))"

definition strip_cell :: "PortState \<Rightarrow> 's phandler \<Rightarrow> nat \<Rightarrow> 's phandler" where
  "strip_cell st h it =
     (if st = kLivePort then upd_mh decrement_live_ports h else h)
       \<lparr>ph_ports := delete_cell () (ph_ports h) it\<rparr>"

lemma strip_cell_ports [simp]: "ph_ports (strip_cell st h it) = delete_cell () (ph_ports h) it"
  by (simp add: strip_cell_def)

lemma close_step:
  assumes inv: "close_inv H a owned ps h" and it: "at_iter (ph_ports h) it" "it < ps_capacity (ph_ports h)"
  defines "p \<equiv> port (ps_map (ph_ports h) ! it)"
  obtains git e ps1 where "TryLookup ps p = ret git" "deref ps git = ret \<lparr>port = p, content = e\<rparr>"
    "Delete default_port_entry ps git = ret ps1" "as_map ps1 = (as_map ps)(p := None)"
    "as_map (ph_ports h) p = Some ()" "as_map (delete_cell () (ph_ports h) it) = (as_map (ph_ports h))(p := None)"
    "close_inv H a owned ps1 (strip_cell (pe_state e) h it)"
proof -
  have I: "port_set_ok ps" "port_set_ok (ph_ports h)" "sound (mh (ph_world h))"
    "registered (as_map ps) (H(a \<mapsto> h))" "counted (as_map ps) (H(a \<mapsto> h))" "ph_owned h = owned"
    using inv by (simp_all add: close_inv_def)
  have live: "live (ps_map (ph_ports h) ! it)"
    using it by (simp add: at_iter_def)
  have hp: "as_map (ph_ports h) p = Some ()"
    using live it(2) port_set_okD [OF I(2)] contents_Some [of "ps_map (ph_ports h)" p "()"]
    by (auto simp: as_map_def p_def)
  then have "assigned (as_map ps) p a"
    using registered_iff [OF I(4), of p a] by simp
  then obtain e where e: "as_map ps p = Some e" "pe_handler e = Some a"
    by (auto simp: assigned_def)
  obtain git where git: "TryLookup ps p = ret git" "git < ps_capacity ps" "live (ps_map ps ! git)"
      "port (ps_map ps ! git) = p" "deref ps git = ret \<lparr>port = p, content = e\<rparr>"
    using lookup_hit [OF I(1) e(1)] by blast
  obtain ps1 where ps1: "Delete default_port_entry ps git = ret ps1" "port_set_ok ps1"
      "as_map ps1 = (as_map ps)(p := None)"
    using Delete_ok [OF I(1) git(2,3), of default_port_entry] git(4) by auto
  have hps: "port_set_ok (delete_cell () (ph_ports h) it)"
      "as_map (delete_cell () (ph_ports h) it) = (as_map (ph_ports h))(p := None)"
    using Delete_ok [OF I(2) it(2) live, of "()"] it(2) by (simp_all add: Delete_def p_def)
  have "registered (as_map ps1) (H(a \<mapsto> h, a \<mapsto> strip_cell (pe_state e) h it))"
    unfolding ps1(3) by (rule registered_delete [OF I(4) e, of h]) (simp_all add: hps(2))
  moreover have "counted (as_map ps1) (H(a \<mapsto> h, a \<mapsto> strip_cell (pe_state e) h it))"
    unfolding ps1(3) by (rule counted_close [OF I(5) finite_as_map e, of h])
      (simp_all add: decrement_live_ports_def strip_cell_def)
  ultimately have "close_inv H a owned ps1 (strip_cell (pe_state e) h it)"
    using I(3,6) ps1(2) hps(1) by (simp add: close_inv_def strip_cell_def)
  with git ps1 hp hps show thesis by (intro that) auto
qed

lemma close_ports_loop_ok:
  assumes "close_inv H a owned ps h" and "at_iter (ph_ports h) it"
  shows "returns (close_ports_loop ps h it) (\<lambda>(ps', h'). close_inv H a owned ps' h' \<and>
           as_map (ph_ports h') = Map.empty \<and>
           as_map ps' = (\<lambda>q. if as_map (ph_ports h) q = Some () then None else as_map ps q))"
  using assms
proof (induction "ps_capacity (ph_ports h) - it" arbitrary: ps h it rule: less_induct)
  case less
  show ?case
  proof (cases "it < ps_capacity (ph_ports h)")
    case False
    have "as_map (ph_ports h) = Map.empty"
      by (rule at_iter_end [OF less.prems(2) False]) (use less.prems(1) in \<open>simp add: close_inv_def\<close>)
    with False less.prems(1) show ?thesis
      by (subst close_ports_loop.simps) (simp add: end_iter_def)
  next
    case True
    let ?p = "port (ps_map (ph_ports h) ! it)" and ?hps = "delete_cell () (ph_ports h) it"
    obtain git e ps1 where s: "TryLookup ps ?p = ret git" "deref ps git = ret \<lparr>port = ?p, content = e\<rparr>"
        "Delete default_port_entry ps git = ret ps1" "as_map ps1 = (as_map ps)(?p := None)"
        "as_map (ph_ports h) ?p = Some ()" "as_map ?hps = (as_map (ph_ports h))(?p := None)"
        "close_inv H a owned ps1 (strip_cell (pe_state e) h it)"
      using close_step [OF less.prems True] by blast
    have step: "close_ports_loop ps h it =
        close_ports_loop ps1 (strip_cell (pe_state e) h it) (next_iter ?hps it)"
      using True s(1-3) by (subst close_ports_loop.simps) (simp add: end_iter_def strip_cell_def Let_def)
    have len: "ps_capacity (ph_ports h) = length (ps_map (ph_ports h))"
      using less.prems(1) by (auto simp: close_inv_def dest: port_set_okD)
    have "returns (close_ports_loop ps1 (strip_cell (pe_state e) h it) (next_iter ?hps it))
        (\<lambda>(ps', h'). close_inv H a owned ps' h' \<and> as_map (ph_ports h') = Map.empty \<and>
           as_map ps' = (\<lambda>q. if as_map (ph_ports (strip_cell (pe_state e) h it)) q = Some () then None
                             else as_map ps1 q))"
    proof (rule less.hyps)
      show "ps_capacity (ph_ports (strip_cell (pe_state e) h it)) - next_iter ?hps it
          < ps_capacity (ph_ports h) - it"
        using True next_iter_gt [of it ?hps] by (simp add: delete_cell_def)
      show "at_iter (ph_ports (strip_cell (pe_state e) h it)) (next_iter ?hps it)"
        using at_iter_next [OF less.prems(2) True len] by simp
    qed (rule s(7))
    then show ?thesis
      unfolding step by (rule returns_mono) (use s(4-6) in \<open>auto simp: fun_eq_iff\<close>)
  qed
qed

lemma ClosePorts_ok:
  assumes ok: "pm_ok pm" and ps: "pm_ports pm = Some ps" and h: "pm_handlers pm a = Some h"
  shows "returns (PortMap_ClosePorts a pm) (\<lambda>pm'. pm_ok pm' \<and>
           (\<exists>ps' h'. pm_ports pm' = Some ps' \<and> pm_handlers pm' a = Some h' \<and>
              as_map ps' = (\<lambda>q. if assigned (as_map ps) q a then None else as_map ps q) \<and>
              as_map (ph_ports h') = Map.empty \<and> handler_rep (mh (ph_world h')) [] [] \<and>
              live_ports (mh (ph_world h')) = 0))"
proof -
  note D = pm_okD [OF ok ps]
  have "close_inv (pm_handlers pm) a (ph_owned h) ps h"
    using D handlers_okD [OF D(1) h] h by (simp add: close_inv_def fun_upd_idem)
  from close_ports_loop_ok [OF this at_iter_begin]
  obtain ps1 h1 where l: "close_ports_loop ps h (begin_iter (ph_ports h)) = ret (ps1, h1)"
      "close_inv (pm_handlers pm) a (ph_owned h) ps1 h1" "as_map (ph_ports h1) = Map.empty"
      "as_map ps1 = (\<lambda>q. if as_map (ph_ports h) q = Some () then None else as_map ps q)"
    by (auto elim!: returnsE)
  have I: "port_set_ok ps1" "port_set_ok (ph_ports h1)" "sound (mh (ph_world h1))" "ph_owned h1 = ph_owned h"
      "registered (as_map ps1) ((pm_handlers pm)(a \<mapsto> h1))" "counted (as_map ps1) ((pm_handlers pm)(a \<mapsto> h1))"
    using l(2) by (simp_all add: close_inv_def)
  obtain ps2 where ps2: "Rebalance default_port_entry ps1 = ret ps2" "port_set_ok ps2" "balanced ps2"
      "as_map ps2 = as_map ps1"
    using Rebalance_ok [OF I(1)] by blast
  obtain ns os where "handler_rep (mh (ph_world h1)) ns os"
    using I(3) by (auto simp: sound_def)
  from CloseAllPorts_rep [OF this] obtain w where w: "CloseAllPorts (ph_world h1) = ret w"
      "handler_rep (mh w) [] []" "live_ports (mh w) = live_ports (mh (ph_world h1))"
    by blast
  let ?h2 = "h1\<lparr>ph_world := w\<rparr>"
  let ?H = "(pm_handlers pm)(a \<mapsto> h1)"
  have e: "(pm_handlers pm)(a \<mapsto> ?h2) = ?H(a \<mapsto> ?h2)" and a: "?H a = Some h1" by simp_all
  have "\<not> assigned (as_map ps1) q a" for q
    using registered_iff [OF I(5), of q a] l(3) by simp
  then have none: "live_set (as_map ps1) a = {}"
    by (auto simp: live_set_def assigned_def)
  then have lp: "live_ports (mh w) = 0"
    using countedD [OF I(6) a] w(3) by simp
  have "counted (as_map ps2) ((pm_handlers pm)(a \<mapsto> ?h2))"
    unfolding e ps2(4) by (rule counted_update [OF I(6)]) (simp_all add: lp none)
  moreover have "registered (as_map ps2) ((pm_handlers pm)(a \<mapsto> ?h2))"
    unfolding e ps2(4) by (rule registered_handler [OF I(5) a]) simp
  moreover have "handlers_ok ((pm_handlers pm)(a \<mapsto> ?h2))"
    using I(2) soundI [OF w(2)] by (intro handlers_ok_update [OF D(1)]) simp_all
  moreover have "owned_single ((pm_handlers pm)(a \<mapsto> ?h2))"
    by (rule owned_single_update [OF D(2) h]) (simp_all add: I(4) l(3))
  ultimately have "pm_ok ((put_handler a ?h2 pm)\<lparr>pm_ports := Some ps2\<rparr>)"
    using ps2(2,3) by (intro pm_okI [of _ ps2]) simp_all
  moreover have "PortMap_ClosePorts a pm = ret ((put_handler a ?h2 pm)\<lparr>pm_ports := Some ps2\<rparr>)"
    using ps h l(1) ps2(1) w(1) by (simp add: PortMap_ClosePorts_def get_handler_def)
  moreover have "as_map (ph_ports h) q = Some () \<longleftrightarrow> assigned (as_map ps) q a" for q
    using registered_iff [OF D(5), of q a] h by simp
  ultimately show ?thesis
    using w(2) l(3,4) ps2(4) lp by simp
qed

subsection \<open>Posting and queries\<close>

lemma pm_ok_world:
  assumes ok: "pm_ok pm" and ps: "pm_ports pm = Some ps" and h: "pm_handlers pm a = Some h"
    and w: "sound (mh w)" "live_ports (mh w) = live_ports (mh (ph_world h))"
  shows "pm_ok (put_handler a (h\<lparr>ph_world := w\<rparr>) pm)"
proof -
  note D = pm_okD [OF ok ps]
  let ?h = "h\<lparr>ph_world := w\<rparr>"
  have "handlers_ok ((pm_handlers pm)(a \<mapsto> ?h))"
    using handlers_okD [OF D(1) h] w(1) by (intro handlers_ok_update [OF D(1)]) simp_all
  moreover have "owned_single ((pm_handlers pm)(a \<mapsto> ?h))"
    by (rule owned_single_update [OF D(2) h]) simp_all
  moreover have "registered (as_map ps) ((pm_handlers pm)(a \<mapsto> ?h))"
    by (rule registered_handler [OF D(5) h]) simp
  moreover have "counted (as_map ps) ((pm_handlers pm)(a \<mapsto> ?h))"
    using countedD [OF D(6) h] w(2) by (intro counted_update [OF D(6)]) simp_all
  ultimately show ?thesis
    using D(3,4) ps by (intro pm_okI [of _ ps]) simp_all
qed

lemma PostMessage_hit:
  assumes ok: "pm_ok pm" and ps: "pm_ports pm = Some ps" and e: "as_map ps (dest_port m) = Some e"
    and a: "pe_handler e = Some a" "pm_handlers pm a = Some h"
    and rep: "handler_rep (mh (ph_world h)) ns os" and new: "unposted m (mh (ph_world h))"
  shows "returns (PortMap_PostMessage E m b pm) (\<lambda>(r, rel, pm'). r \<and> rel = [] \<and> pm_ok pm' \<and>
           (\<exists>w. PostMessage E m b (ph_world h) = ret w \<and> pm' = put_handler a (h\<lparr>ph_world := w\<rparr>) pm \<and>
              handler_rep (mh w) (if IsOOB m then ns else enqueue_list b m ns)
                (if IsOOB m then enqueue_list b m os else os)))"
proof -
  obtain it where it: "TryLookup ps (dest_port m) = ret it" "it \<noteq> end_iter ps"
      "deref ps it = ret \<lparr>port = dest_port m, content = e\<rparr>"
    using lookup_hit [OF pm_okD(3) [OF ok ps] e] by metis
  obtain w where w: "PostMessage E m b (ph_world h) = ret w"
      "handler_rep (mh w) (if IsOOB m then ns else enqueue_list b m ns)
         (if IsOOB m then enqueue_list b m os else os)"
      "live_ports (mh w) = live_ports (mh (ph_world h))"
    using PostMessage_rep [OF rep new, of E b] by blast
  have "PortMap_PostMessage E m b pm = ret (True, [], put_handler a (h\<lparr>ph_world := w\<rparr>) pm)"
    using ps it a w(1) by (simp add: PortMap_PostMessage_def get_handler_def)
  with pm_ok_world [OF ok ps a(2) soundI [OF w(2)] w(3)] w(1,2) show ?thesis
    by simp
qed

lemma PostMessage_miss:
  assumes "pm_ok pm" and "pm_ports pm = Some ps" and "as_map ps (dest_port m) = None"
    and "0 \<le> dest_port m" and "dest_port m \<noteq> kDeletedPort"
  shows "PortMap_PostMessage E m b pm = ret (False, destroy_message (DropFinalizers m), pm)"
  using TryLookup_miss [OF pm_okD(3) [OF assms(1,2)] assms(4,5,3)] assms(2)
  by (simp add: PortMap_PostMessage_def)

lemma fd_destroy_dropped [simp]: "fd_destroy (fd_drop_finalizers fd) = []"
  by (simp add: fd_destroy_def fd_drop_finalizers_def fd_destroy_loop_eq)

lemma no_finalizer_when_dropped:
  "RunFinalizer c \<notin> set (destroy_message (DropFinalizers m))"
  by (auto simp: destroy_message_def DropFinalizers_def split: option.splits)

lemma lookup_entry_ok:
  assumes "pm_ok pm" and "pm_ports pm = Some ps" and "0 \<le> p" and "p \<noteq> kDeletedPort"
  shows "lookup_entry p pm = ret (as_map ps p)"
proof (cases "as_map ps p")
  case None
  then show ?thesis
    using TryLookup_miss [OF pm_okD(3) [OF assms(1,2)] assms(3,4)] assms(2) by (simp add: lookup_entry_def)
next
  case (Some e)
  then obtain it where "TryLookup ps p = ret it" "it \<noteq> end_iter ps" "deref ps it = ret \<lparr>port = p, content = e\<rparr>"
    using lookup_hit [OF pm_okD(3) [OF assms(1,2)]] by metis
  with Some assms(2) show ?thesis by (simp add: lookup_entry_def)
qed

section \<open>Reachable port maps\<close>

definition port_map_start :: "'s port_map" where
  "port_map_start = \<lparr>pm_ports = None, pm_prng = None, pm_mutex = False, pm_handlers = (\<lambda>_. None)\<rparr>"

text \<open>A handler as its constructor leaves it: no port, no message.\<close>

definition new_handler :: "'s phandler \<Rightarrow> bool" where
  "new_handler h \<longleftrightarrow> ph_ports h = PortSet () \<and> (\<exists>own. mh (ph_world h) = MessageHandler own)"

text \<open>
  The operations of the port map, in any order, between \<open>Init\<close> and \<open>Cleanup\<close>.  The side conditions
  are the obligations of the callers: a draw that hits the deleted marker is excluded, the state of
  an open port changes only between live and not live, a native handler gets one port, a message was
  not posted before.  \<open>work\<close> is what the threads of the handlers do to their own state.
\<close>

inductive pm_reach :: "'s env \<Rightarrow> 's port_map \<Rightarrow> bool" for E where
  init: "pm_reach E (PortMap_Init seed port_map_start)"
| add_handler: "pm_reach E pm \<Longrightarrow> pm_handlers pm a = None \<Longrightarrow> new_handler h \<Longrightarrow> pm_reach E (put_handler a h pm)"
| create: "pm_reach E pm \<Longrightarrow> pm_handlers pm a = Some h \<Longrightarrow> (ph_owned h \<longrightarrow> as_map (ph_ports h) = Map.empty) \<Longrightarrow>
    CreatePort a pm = ret (p, pm') \<Longrightarrow> p \<noteq> kDeletedPort \<Longrightarrow> pm_reach E pm'"
| set_state: "pm_reach E pm \<Longrightarrow> pm_ports pm = Some ps \<Longrightarrow> as_map ps p = Some e \<Longrightarrow>
    legal_transition (pe_state e) st \<Longrightarrow> SetPortState p st pm = ret pm' \<Longrightarrow> pm_reach E pm'"
| close: "pm_reach E pm \<Longrightarrow> 0 \<le> p \<Longrightarrow> p \<noteq> kDeletedPort \<Longrightarrow> PortMap_ClosePort p pm = ret (r, pm') \<Longrightarrow> pm_reach E pm'"
| close_all: "pm_reach E pm \<Longrightarrow> pm_handlers pm a = Some h \<Longrightarrow> PortMap_ClosePorts a pm = ret pm' \<Longrightarrow> pm_reach E pm'"
| post: "pm_reach E pm \<Longrightarrow> 0 \<le> dest_port m \<Longrightarrow> dest_port m \<noteq> kDeletedPort \<Longrightarrow>
    (\<forall>a h. pm_handlers pm a = Some h \<longrightarrow> unposted m (mh (ph_world h))) \<Longrightarrow>
    PortMap_PostMessage E m b pm = ret (r, rel, pm') \<Longrightarrow> pm_reach E pm'"
| work: "pm_reach E pm \<Longrightarrow> pm_handlers pm a = Some h \<Longrightarrow> sound (mh w) \<Longrightarrow>
    live_ports (mh w) = live_ports (mh (ph_world h)) \<Longrightarrow> pm_reach E (put_handler a (h\<lparr>ph_world := w\<rparr>) pm)"

lemma Init_ok: "pm_ok (PortMap_Init seed port_map_start)"
  "\<exists>ps. pm_ports (PortMap_Init seed port_map_start) = Some ps"
  by (simp_all add: PortMap_Init_def port_map_start_def pm_ok_def PortSet_ok handlers_ok_def
      owned_single_def registered_def counted_def assigned_def has_port_def)

lemma new_handler_ok:
  assumes ok: "pm_ok pm" and ps: "pm_ports pm = Some ps" and a: "pm_handlers pm a = None" and h: "new_handler h"
  shows "pm_ok (put_handler a h pm)"
proof -
  note D = pm_okD [OF ok ps]
  have ports: "as_map (ph_ports h) = Map.empty" "port_set_ok (ph_ports h)"
    using h by (simp_all add: new_handler_def PortSet_ok)
  obtain own where own: "mh (ph_world h) = MessageHandler own"
    using h by (auto simp: new_handler_def)
  have mh: "sound (mh (ph_world h))" "live_ports (mh (ph_world h)) = 0"
    using soundI [OF MessageHandler_rep] unfolding own by (simp_all add: MessageHandler_def)
  have no: "\<not> assigned (as_map ps) q a" for q
    using registered_iff [OF D(5), of q a] a by (simp add: has_port_def)
  have "live_set (as_map ps) a = {}"
    using no by (auto simp: live_set_def assigned_def)
  then have "counted (as_map ps) ((pm_handlers pm)(a \<mapsto> h))"
    using mh(2) by (intro counted_update [OF D(6)]) simp_all
  moreover have "assigned (as_map ps) q b \<longleftrightarrow> has_port ((pm_handlers pm)(a \<mapsto> h)) q b" for q b
    using registered_iff [OF D(5), of q b] no ports by (cases "b = a") simp_all
  then have "registered (as_map ps) ((pm_handlers pm)(a \<mapsto> h))"
    using D(5) by (simp add: registered_def)
  moreover have "handlers_ok ((pm_handlers pm)(a \<mapsto> h))"
    using ports(2) mh(1) by (intro handlers_ok_update [OF D(1)])
  moreover have "owned_single ((pm_handlers pm)(a \<mapsto> h))"
    using D(2) ports(1) unfolding owned_single_def by auto
  ultimately show ?thesis
    using D(3,4) ps by (intro pm_okI [of _ ps]) simp_all
qed

lemma create_step_ok:
  assumes ok: "pm_ok pm" and ps: "pm_ports pm = Some ps" and h: "pm_handlers pm a = Some h"
    and single: "ph_owned h \<longrightarrow> as_map (ph_ports h) = Map.empty"
    and run: "CreatePort a pm = ret (p, pm')" and p: "p \<noteq> kDeletedPort"
  shows "pm_ok pm' \<and> (\<exists>ps'. pm_ports pm' = Some ps')"
proof -
  obtain s where s: "pm_prng pm = Some s"
    using run ps by (auto simp: CreatePort_def AllocatePort_def split: option.splits)
  obtain p' s' where al: "allocate_loop ps s = ret (p', s')"
    using run ps s by (auto simp: CreatePort_def AllocatePort_def ebind_eq_ret)
  then have "p' = p"
    using run ps s by (auto simp: CreatePort_def AllocatePort_def ebind_eq_ret)
  with allocate_loop_result [OF al] have "Contains ps p = ret False" "3 \<le> p"
    by simp_all
  then have "as_map ps p = None"
    using Contains_iff [OF pm_okD(3) [OF ok ps], of p] p by simp
  then show ?thesis
    using CreatePort_ok [OF ok ps s h _ al] single run p \<open>p' = p\<close> \<open>3 \<le> p\<close> by (auto elim!: returnsE)
qed

lemma pm_reach_ok:
  assumes "pm_reach E pm"
  shows "pm_ok pm \<and> (\<exists>ps. pm_ports pm = Some ps)"
  using assms
proof induction
  case (init seed)
  then show ?case using Init_ok by blast
next
  case (add_handler pm a h)
  then obtain ps where "pm_ports pm = Some ps" by blast
  with add_handler show ?case using new_handler_ok [of pm ps a h] by simp
next
  case (create pm a h p pm')
  then show ?case using create_step_ok by blast
next
  case (set_state pm ps p e st pm')
  then show ?case using SetPortState_ok [of pm ps p e st] by auto
next
  case (close pm p r pm')
  then obtain ps where ps: "pm_ports pm = Some ps" by blast
  show ?case
  proof (cases "as_map ps p")
    case None
    then show ?thesis using close ps ClosePort_miss [of pm ps p] by auto
  next
    case (Some e)
    then show ?thesis using close ps ClosePort_hit [of pm ps p e] by auto
  qed
next
  case (close_all pm a h pm')
  then obtain ps where "pm_ports pm = Some ps" by blast
  then show ?case using close_all ClosePorts_ok [of pm ps a h] by auto
next
  case (post pm m b r rel pm')
  then obtain ps where ps: "pm_ports pm = Some ps" by blast
  show ?case
  proof (cases "as_map ps (dest_port m)")
    case None
    then show ?thesis using post ps PostMessage_miss [of pm ps m E b] by auto
  next
    case (Some e)
    obtain a h where a: "pe_handler e = Some a" "pm_handlers pm a = Some h"
      using registeredD [OF pm_okD(5) [OF _ ps] Some] post.IH by metis
    obtain ns os where rep: "handler_rep (mh (ph_world h)) ns os"
      using handlers_okD(1) [OF pm_okD(1) [OF _ ps] a(2)] post.IH by (auto simp: sound_def)
    have new: "unposted m (mh (ph_world h))"
      using post.hyps(4) a(2) by blast
    show ?thesis
      using PostMessage_hit [OF conjunct1 [OF post.IH] ps Some a rep new, of E b] post.hyps(5) ps by auto
  qed
next
  case (work pm a h w)
  then obtain ps where "pm_ports pm = Some ps" by blast
  with work show ?case using pm_ok_world [of pm ps a h w] by simp
qed

section \<open>Properties\<close>

text \<open>
  C14.  The port map stays consistent.  In every state reachable from Init by creating ports,
  changing their state, closing single ports or all ports of a handler, posting messages, and by the
  work of the handlers themselves: the global table and the port sets of the handlers are well
  formed and agree on which handler owns which port, no entry refers to a deleted handler, the
  live-port counter of every handler is the number of its ports in the live state, and all message
  queues are well formed.
\<close>

theorem port_map_invariant:
  assumes "pm_reach E pm"
  shows "\<exists>ps. pm_ports pm = Some ps \<and> port_set_ok ps \<and> balanced ps \<and>
           (\<forall>p a. assigned (as_map ps) p a \<longleftrightarrow> has_port (pm_handlers pm) p a) \<and>
           (\<forall>p e. as_map ps p = Some e \<longrightarrow>
              (\<exists>a h. pe_handler e = Some a \<and> pm_handlers pm a = Some h)) \<and>
           (\<forall>a h. pm_handlers pm a = Some h \<longrightarrow>
              sound (mh (ph_world h)) \<and> port_set_ok (ph_ports h) \<and>
              live_ports (mh (ph_world h)) = int (card (live_set (as_map ps) a)))"
proof -
  obtain ps where ok: "pm_ok pm" and ps: "pm_ports pm = Some ps"
    using pm_reach_ok [OF assms] by blast
  note D = pm_okD [OF ok ps]
  have "\<exists>a h. pe_handler e = Some a \<and> pm_handlers pm a = Some h" if "as_map ps p = Some e" for p e
    using registeredD [OF D(5) that] by metis
  then show ?thesis
    using ps D handlers_okD [OF D(1)] countedD [OF D(6)] registered_iff [OF D(5)] by simp
qed

definition demo_handler :: "unit phandler" where
  "demo_handler = \<lparr>ph_world = \<lparr>mh = MessageHandler None, ext = (), log = []\<rparr>, ph_ports = PortSet (),
                   ph_owned = False, ph_current = True, ph_origin = 9, ph_group = 1\<rparr>"

definition demo_map :: "64 word \<Rightarrow> unit port_map" where
  "demo_map seed = put_handler 7 demo_handler (PortMap_Init seed port_map_start)"

lemma demo_map_reach: "pm_reach E (demo_map seed)"
  unfolding demo_map_def
proof (rule pm_reach.add_handler [OF pm_reach.init])
  show "new_handler demo_handler"
    unfolding new_handler_def demo_handler_def by auto
qed (simp add: PortMap_Init_def port_map_start_def)

theorem port_map_invariant_witness:
  "pm_reach idle_env (demo_map 5) \<and>
   (\<exists>ps. pm_ports (demo_map 5) = Some ps \<and> port_set_ok ps \<and> balanced ps \<and>
      (\<forall>p a. assigned (as_map ps) p a \<longleftrightarrow> has_port (pm_handlers (demo_map 5)) p a))"
  using port_map_invariant [OF demo_map_reach [of idle_env 5]] demo_map_reach [of idle_env 5] by blast

text \<open>
  C15.  ClosePort closes exactly the given port.  In a reachable port map it returns true for an open
  port and false (changing nothing) for any other legal port number; afterwards the port is not
  open, every other port is as before, the invariant holds, and a message posted to the closed port
  is refused without running the finalizers of its external data.
\<close>

theorem close_port_correct:
  assumes "pm_reach E pm" and "pm_ports pm = Some ps" and "0 \<le> p" and "p \<noteq> kDeletedPort"
  shows "returns (PortMap_ClosePort p pm) (\<lambda>(r, pm'). (r \<longleftrightarrow> as_map ps p \<noteq> None) \<and> pm_ok pm' \<and>
           (\<exists>ps'. pm_ports pm' = Some ps' \<and> as_map ps' = (as_map ps)(p := None)) \<and>
           (\<forall>m b. dest_port m = p \<longrightarrow>
              (\<exists>rel. PortMap_PostMessage E m b pm' = ret (False, rel, pm') \<and>
                 (\<forall>c. RunFinalizer c \<notin> set rel))))"
proof -
  have ok: "pm_ok pm"
    using pm_reach_ok [OF assms(1)] by simp
  have refused: "\<exists>rel. PortMap_PostMessage E m b pm' = ret (False, rel, pm') \<and> (\<forall>c. RunFinalizer c \<notin> set rel)"
    if "pm_ok pm'" "pm_ports pm' = Some ps'" "as_map ps' p = None" "dest_port m = p" for pm' ps' m b
    using PostMessage_miss [OF that(1,2), of m E b] that(3,4) assms(3,4) no_finalizer_when_dropped by auto
  show ?thesis
  proof (cases "as_map ps p")
    case None
    then show ?thesis
      using ClosePort_miss [OF ok assms(2) None assms(3,4)] ok assms(2) refused [OF ok assms(2) None]
      by (simp add: fun_upd_idem)
  next
    case (Some e)
    obtain pm' ps' where "PortMap_ClosePort p pm = ret (True, pm')" "pm_ok pm'" "pm_ports pm' = Some ps'"
        "as_map ps' = (as_map ps)(p := None)"
      using ClosePort_hit [OF ok assms(2) Some] by auto
    with Some refused [of pm' ps'] show ?thesis by simp
  qed
qed

theorem close_port_correct_witness:
  "pm_reach idle_env (demo_map 5) \<and>
   (\<exists>ps. pm_ports (demo_map 5) = Some ps \<and>
      returns (PortMap_ClosePort 11 (demo_map 5)) (\<lambda>(r, pm'). (r \<longleftrightarrow> as_map ps 11 \<noteq> None) \<and> pm_ok pm'))"
proof -
  have r: "pm_reach idle_env (demo_map 5)" by (rule demo_map_reach)
  obtain ps where ps: "pm_ports (demo_map 5) = Some ps"
    using pm_reach_ok [OF r] by blast
  have "returns (PortMap_ClosePort 11 (demo_map 5)) (\<lambda>(r, pm'). (r \<longleftrightarrow> as_map ps 11 \<noteq> None) \<and> pm_ok pm')"
    using close_port_correct [OF r ps, of 11] by (auto simp: kDeletedPort_def elim!: returns_mono)
  with r ps show ?thesis by blast
qed

text \<open>
  C16.  ClosePorts closes exactly the ports of the given handler, although it deletes from two tables
  while iterating over one of them: afterwards its port set is empty, its live counter is zero, its
  queues are empty, and the ports of all other handlers are as before.
\<close>

theorem close_ports_correct:
  assumes "pm_reach E pm" and "pm_ports pm = Some ps" and "pm_handlers pm a = Some h"
  shows "returns (PortMap_ClosePorts a pm) (\<lambda>pm'. pm_ok pm' \<and>
           (\<exists>ps' h'. pm_ports pm' = Some ps' \<and> pm_handlers pm' a = Some h' \<and>
              as_map ps' = (\<lambda>q. if assigned (as_map ps) q a then None else as_map ps q) \<and>
              as_map (ph_ports h') = Map.empty \<and> handler_rep (mh (ph_world h')) [] [] \<and>
              live_ports (mh (ph_world h')) = 0))"
  using pm_reach_ok [OF assms(1)] assms(2,3) by (intro ClosePorts_ok) simp_all

theorem close_ports_correct_witness:
  "\<exists>ps h. pm_reach idle_env (demo_map 5) \<and> pm_ports (demo_map 5) = Some ps \<and>
     pm_handlers (demo_map 5) 7 = Some h \<and>
     returns (PortMap_ClosePorts 7 (demo_map 5)) (\<lambda>pm'. pm_ok pm' \<and>
       (\<exists>h'. pm_handlers pm' 7 = Some h' \<and> as_map (ph_ports h') = Map.empty))"
proof -
  have r: "pm_reach idle_env (demo_map 5)" by (rule demo_map_reach)
  obtain ps where ps: "pm_ports (demo_map 5) = Some ps"
    using pm_reach_ok [OF r] by blast
  have h: "pm_handlers (demo_map 5) 7 = Some demo_handler"
    by (simp add: demo_map_def)
  have "returns (PortMap_ClosePorts 7 (demo_map 5)) (\<lambda>pm'. pm_ok pm' \<and>
       (\<exists>h'. pm_handlers pm' 7 = Some h' \<and> as_map (ph_ports h') = Map.empty))"
    using close_ports_correct [OF r ps h] by (rule returns_mono) blast
  with r ps h show ?thesis by blast
qed

text \<open>
  C17.  A message posted to an open port goes into the queue of exactly the handler that owns the
  port, by priority.  The port map afterwards is the one before with that handler replaced by what
  its own PostMessage makes of it: the port table, the generator, the other handlers and the ports
  and attributes of the receiving handler are as before, and the invariant holds.
\<close>

theorem port_map_delivers:
  assumes "pm_reach E pm" and "pm_ports pm = Some ps" and "as_map ps (dest_port m) = Some e"
    and "pe_handler e = Some a" and "pm_handlers pm a = Some h"
    and "handler_rep (mh (ph_world h)) ns os" and "unposted m (mh (ph_world h))"
  shows "returns (PortMap_PostMessage E m b pm) (\<lambda>(r, rel, pm'). r \<and> rel = [] \<and> pm_ok pm' \<and>
           (\<exists>w. PostMessage E m b (ph_world h) = ret w \<and>
              pm' = pm\<lparr>pm_handlers := (pm_handlers pm)(a \<mapsto> h\<lparr>ph_world := w\<rparr>)\<rparr> \<and>
              handler_rep (mh w) (if IsOOB m then ns else enqueue_list b m ns)
                (if IsOOB m then enqueue_list b m os else os)))"
  unfolding put_handler_def [symmetric]
  using pm_reach_ok [OF assms(1)] assms(2-) by (intro PostMessage_hit) simp_all

lemma CreatePort_world:
  assumes "CreatePort a pm = ret (p, pm')" and "pm_ports pm = Some ps" and "pm_handlers pm a = Some h"
  shows "\<exists>h'. pm_handlers pm' a = Some h' \<and> ph_world h' = ph_world h"
  using assms by (auto simp: CreatePort_def AllocatePort_def get_handler_def ebind_eq_ret split: option.splits)

lemma demo_port_open:
  obtains p pm ps e h where "pm_reach idle_env pm" "pm_ports pm = Some ps" "as_map ps p = Some e"
    "e = \<lparr>pe_handler = Some 7, pe_state = kNewPort\<rparr>" "pm_handlers pm 7 = Some h"
    "mh (ph_world h) = MessageHandler None"
proof -
  have r: "pm_reach idle_env (demo_map 5)" by (rule demo_map_reach)
  let ?ps = "PortSet default_port_entry"
  have pm: "pm_ports (demo_map 5) = Some ?ps" "pm_prng (demo_map 5) = Some 5"
      "pm_handlers (demo_map 5) 7 = Some demo_handler"
    by (simp_all add: demo_map_def PortMap_Init_def port_map_start_def put_handler_def)
  have d: "nth_draw 5 0 \<noteq> kDeletedPort" by code_simp
  obtain s' where "allocate_loop ?ps 5 = ret (nth_draw 5 0, s')"
    using allocate_loop_ok [of ?ps 0 5] d by (auto simp: PortSet_ok)
  then obtain pm' ps' where c: "CreatePort 7 (demo_map 5) = ret (nth_draw 5 0, pm')" "pm_ports pm' = Some ps'"
      "as_map ps' = (as_map ?ps)(nth_draw 5 0 \<mapsto> \<lparr>pe_handler = Some 7, pe_state = kNewPort\<rparr>)"
    using CreatePort_ok [OF conjunct1 [OF pm_reach_ok [OF r]] pm] draw_port_range(1) [of 5] d
    by (auto simp: demo_handler_def PortSet_ok elim!: returnsE)
  have r': "pm_reach idle_env pm'"
    by (rule pm_reach.create [OF r pm(3) _ c(1) d]) (simp add: demo_handler_def)
  have e: "as_map ps' (nth_draw 5 0) = Some \<lparr>pe_handler = Some 7, pe_state = kNewPort\<rparr>"
    by (simp add: c(3))
  obtain h where h: "pm_handlers pm' 7 = Some h" "ph_world h = ph_world demo_handler"
    using CreatePort_world [OF c(1) pm(1,3)] by blast
  show thesis by (rule that [OF r' c(2) e _ h(1)]) (simp_all add: h(2), simp add: demo_handler_def)
qed

theorem port_map_delivers_witness:
  "\<exists>pm ps m e h ns os. pm_reach idle_env pm \<and> pm_ports pm = Some ps \<and> as_map ps (dest_port m) = Some e \<and>
     pe_handler e = Some 7 \<and> pm_handlers pm 7 = Some h \<and> handler_rep (mh (ph_world h)) ns os \<and> \<not> IsOOB m \<and>
     unposted m (mh (ph_world h)) \<and>
     returns (PortMap_PostMessage idle_env m False pm) (\<lambda>(r, rel, pm'). r \<and> pm_ports pm' = pm_ports pm \<and>
       (\<exists>h'. pm_handlers pm' 7 = Some h' \<and> handler_rep (mh (ph_world h')) (ns @ [m]) os))"
proof -
  obtain p pm ps e h where o: "pm_reach idle_env pm" "pm_ports pm = Some ps" "as_map ps p = Some e"
      "pe_handler e = Some 7" "pm_handlers pm 7 = Some h" "mh (ph_world h) = MessageHandler None"
    by (rule demo_port_open) simp
  have rep: "handler_rep (mh (ph_world h)) [] []"
    unfolding o(6) by (rule MessageHandler_rep)
  let ?m = "raw_message 1 p 0 kNormalPriority"
  have m: "\<not> IsOOB ?m" "dest_port ?m = p" "unposted ?m (mh (ph_world h))"
    unfolding o(6) by (simp_all add: raw_message_def IsOOB_def unposted_def fresh_def MessageHandler_def MessageQueue_def)
  have "returns (PortMap_PostMessage idle_env ?m False pm) (\<lambda>(r, rel, pm'). r \<and> pm_ports pm' = pm_ports pm \<and>
       (\<exists>h'. pm_handlers pm' 7 = Some h' \<and> handler_rep (mh (ph_world h')) ([] @ [?m]) []))"
    using port_map_delivers [OF o(1,2) _ o(4,5) rep, of ?m False] o(3) m
    by (auto simp: enqueue_list_def elim!: returns_mono)
  with o rep m show ?thesis
    by (intro exI [of _ pm] exI [of _ ps] exI [of _ ?m] exI [of _ e] exI [of _ h] exI [of _ "[]"]) simp
qed

text \<open>
  C18.  A message posted after Cleanup is destroyed together with its finalizers running, although
  PostMessage returns false and the poster therefore still owns the external data: the guard for a
  missing port map returns before DropFinalizers.
\<close>

theorem post_after_cleanup_runs_finalizers:
  assumes "pm_ports pm = None" and "finalizable_data_of m = Some fd"
    and "fd_take_position fd < length (fd_records fd)"
  shows "\<exists>rel c. PortMap_PostMessage E m b pm = ret (False, rel, pm) \<and> RunFinalizer c \<in> set rel"
proof -
  have "fd_destroy fd \<noteq> []"
    using assms(3) by (simp add: fd_destroy_def fd_destroy_loop_eq)
  then obtain c where "c \<in> set (fd_destroy fd)" by (metis list.set_intros(1) neq_Nil_conv)
  then have "RunFinalizer c \<in> set (destroy_message m)"
    using assms(2) by (simp add: destroy_message_def)
  with assms(1) show ?thesis
    by (intro exI [of _ "destroy_message m"] exI [of _ c]) (simp add: PortMap_PostMessage_def)
qed

theorem post_after_cleanup_runs_finalizers_witness:
  "let fd = fd_put MessageFinalizableData 3 \<lparr>fd_data = 1, fd_peer = 10, fd_callback = 7, fd_write_callback = None\<rparr>;
       m = snapshot_message 1 11 100 64 (Some fd) kNormalPriority
   in pm_ports port_map_start = None \<and> finalizable_data_of m = Some fd \<and>
      fd_take_position fd < length (fd_records fd) \<and>
      (\<exists>rel c. PortMap_PostMessage idle_env m False port_map_start = ret (False, rel, port_map_start) \<and>
         RunFinalizer c \<in> set rel)"
  using post_after_cleanup_runs_finalizers [of "port_map_start :: unit port_map"
      "snapshot_message 1 11 100 64 (Some (fd_put MessageFinalizableData 3
         \<lparr>fd_data = 1, fd_peer = 10, fd_callback = 7, fd_write_callback = None\<rparr>)) kNormalPriority" _ idle_env False]
  by (simp add: port_map_start_def snapshot_message_def fd_put_def MessageFinalizableData_def)

text \<open>
  C19.  Setting a live port to the live state once more makes its handler count it twice.  In every
  reachable port map the second SetPortState leaves the table as it is, and when the port is closed
  the counter of its handler is one more than the number of its live ports: the handler believes in
  a live port even when it has no port left, so its isolate does not exit, and a handler owned by the
  port map is not deleted.
\<close>

theorem live_port_counted_twice:
  assumes "pm_reach E pm" and "pm_ports pm = Some ps" and "as_map ps p = Some e"
    and "pe_state e = kLivePort" and "pe_handler e = Some a"
  shows "returns (SetPortState p kLivePort pm) (\<lambda>pm1.
           (\<exists>ps1. pm_ports pm1 = Some ps1 \<and> as_map ps1 = as_map ps) \<and>
           returns (PortMap_ClosePort p pm1) (\<lambda>(r, pm2). r \<and>
             (\<exists>ps2 h2. pm_ports pm2 = Some ps2 \<and> as_map ps2 = (as_map ps)(p := None) \<and> pm_handlers pm2 a = Some h2 \<and>
                HasLivePorts (mh (ph_world h2)) \<and>
                live_ports (mh (ph_world h2)) = int (card (live_set (as_map ps2) a)) + 1)))"
proof -
  note D = pm_okD [OF conjunct1 [OF pm_reach_ok [OF assms(1)]] assms(2)]
  have same: "e\<lparr>pe_state := kLivePort\<rparr> = e"
    using assms(4) by (cases e) simp
  obtain it h where it: "it < ps_capacity ps" "live (ps_map ps ! it)" "port (ps_map ps ! it) = p"
    and h: "pm_handlers pm a = Some h"
    and run: "SetPortState p kLivePort pm = ret (pm\<lparr>pm_ports := Some (store ps it e),
        pm_handlers := (pm_handlers pm)(a \<mapsto> upd_mh increment_live_ports h)\<rparr>)"
    by (rule SetPortState_run [OF assms(2) D(3,5) assms(3), where st = kLivePort])
      (use assms(5) in \<open>simp add: same live_change_def\<close>)
  let ?ps1 = "store ps it e" and ?h1 = "upd_mh increment_live_ports h"
  let ?pm1 = "pm\<lparr>pm_ports := Some ?ps1, pm_handlers := (pm_handlers pm)(a \<mapsto> ?h1)\<rparr>"
  note S = store_ok [OF D(3) it(1,2), of e]
  have m: "as_map ?ps1 = as_map ps"
    using S(3) it(3) assms(3) by (simp add: fun_upd_idem)
  have reg: "registered (as_map ?ps1) (pm_handlers ?pm1)"
    unfolding m using registered_handler [OF D(5) h, of ?h1] by simp
  have hs: "handlers_ok (pm_handlers ?pm1)"
    using handlers_okD [OF D(1) h] handlers_ok_update [OF D(1), of ?h1 a] by simp
  have p1: "pm_ports ?pm1 = Some ?ps1" "as_map ?ps1 p = Some e"
    using assms(3) m by simp_all
  obtain h2 ps2 where c: "as_map ps2 = (as_map ps)(p := None)"
      "live_ports (mh (ph_world h2)) = live_ports (mh (ph_world h))"
      "PortMap_ClosePort p ?pm1 =
        (if \<not> HasLivePorts (mh (ph_world h2)) \<and> ph_owned h2
         then ebind (request_deletion a h2 ((put_handler a h2 ?pm1)\<lparr>pm_ports := Some ps2\<rparr>)) (\<lambda>pm2. ret (True, pm2))
         else ret (True, (put_handler a h2 ?pm1)\<lparr>pm_ports := Some ps2\<rparr>))"
    by (rule ClosePort_run [OF p1(1) S(1) reg hs p1(2)])
      (use assms(4,5) h m in \<open>auto simp: increment_live_ports_def\<close>)
  have "p \<in> live_set (as_map ps) a" "finite (live_set (as_map ps) a)"
    using assms(3-5) finite_live_set [OF finite_as_map] by (auto simp: live_set_def)
  then have "live_ports (mh (ph_world h2)) = int (card (live_set (as_map ps2) a)) + 1"
    using countedD [OF D(6) h] c(1,2) card_Suc_Diff1 [of "live_set (as_map ps) a" p]
    by (simp add: live_set_update)
  with run c m show ?thesis
    by (simp add: HasLivePorts_def)
qed

theorem live_port_counted_twice_witness:
  "\<exists>pm ps p e. pm_reach idle_env pm \<and> pm_ports pm = Some ps \<and> as_map ps p = Some e \<and>
     pe_state e = kLivePort \<and> pe_handler e = Some 7 \<and>
     returns (SetPortState p kLivePort pm) (\<lambda>pm1. returns (PortMap_ClosePort p pm1) (\<lambda>(r, pm2). r \<and>
       (\<exists>h2. pm_handlers pm2 7 = Some h2 \<and> HasLivePorts (mh (ph_world h2)))))"
proof -
  obtain p pm ps e h where o: "pm_reach idle_env pm" "pm_ports pm = Some ps" "as_map ps p = Some e"
      "e = \<lparr>pe_handler = Some 7, pe_state = kNewPort\<rparr>"
    by (rule demo_port_open)
  have legal: "legal_transition (pe_state e) kLivePort"
    by (simp add: o(4) legal_transition_def)
  obtain pm1 ps1 where s: "SetPortState p kLivePort pm = ret pm1" "pm_ports pm1 = Some ps1"
      "as_map ps1 = (as_map ps)(p \<mapsto> e\<lparr>pe_state := kLivePort\<rparr>)"
    using SetPortState_ok [OF conjunct1 [OF pm_reach_ok [OF o(1)]] o(2,3) legal] by auto
  let ?e = "\<lparr>pe_handler = Some 7, pe_state = kLivePort\<rparr>"
  have r: "pm_reach idle_env pm1"
    by (rule pm_reach.set_state [OF o(1-3) legal s(1)])
  have e: "as_map ps1 p = Some ?e"
    by (simp add: s(3) o(4))
  have "returns (SetPortState p kLivePort pm1) (\<lambda>pm2. returns (PortMap_ClosePort p pm2) (\<lambda>(r, pm3). r \<and>
       (\<exists>h2. pm_handlers pm3 7 = Some h2 \<and> HasLivePorts (mh (ph_world h2)))))"
    using live_port_counted_twice [OF r s(2) e, of 7] by (auto elim!: returnsE)
  with r s(2) e show ?thesis
    by (intro exI [of _ pm1] exI [of _ ps1] exI [of _ p] exI [of _ ?e]) simp
qed

text \<open>
  C20.  AllocatePort returns the deleted marker of the hash set whenever the generator draws it and
  the table has no deleted cell.  The \<open>continue\<close> that should skip the reserved numbers jumps to the
  loop condition, which accepts the number 3 because no cell of the table answers to it.
\<close>

theorem allocate_port_returns_deleted_marker:
  assumes "pm_reach E pm" and "pm_ports pm = Some ps" and "ps_deleted ps = 0"
    and "pm_prng pm = Some s" and "draw_port s = (kDeletedPort, s')"
  shows "AllocatePort pm = ret (kDeletedPort, pm\<lparr>pm_prng := Some s'\<rparr>)"
proof -
  have ok: "port_set_ok ps"
    using pm_okD(3) [OF conjunct1 [OF pm_reach_ok [OF assms(1)]] assms(2)] .
  have "Contains ps kDeletedPort = ret False"
    using Contains_marker [OF ok] no_marker [OF ok assms(3)] by simp
  then have "allocate_loop ps s = ret (kDeletedPort, s')"
    using assms(5) by (subst allocate_loop.simps) simp
  with assms(2,4) show ?thesis by (simp add: AllocatePort_def)
qed

theorem allocate_port_returns_deleted_marker_witness:
  "let pm = demo_map 0x259f00000001 in pm_reach idle_env pm \<and>
   (\<exists>pm'. AllocatePort pm = ret (kDeletedPort, pm'))"
proof -
  have "fst (draw_port 0x259f00000001) = kDeletedPort" by code_simp
  then have "draw_port 0x259f00000001 = (kDeletedPort, snd (draw_port 0x259f00000001))"
    by (simp add: prod_eq_iff)
  moreover have "pm_ports (demo_map s) = Some (PortSet default_port_entry)" "pm_prng (demo_map s) = Some s" for s
    by (simp_all add: demo_map_def PortMap_Init_def port_map_start_def put_handler_def)
  moreover have "ps_deleted (PortSet default_port_entry) = 0"
    by (simp add: PortSet_def)
  ultimately show ?thesis
    using allocate_port_returns_deleted_marker [OF demo_map_reach [of idle_env "0x259f00000001"]]
      demo_map_reach [of idle_env "0x259f00000001"] unfolding Let_def by blast
qed

end
