(* ===== verification/Dart_Utils.thy ===== *)
theory Dart_Utils
  imports Dart_Prelude
begin

unbundle bit_operations_syntax

text \<open>
  \<open>runtime/platform/utils.h\<close> and \<open>utils.cc\<close>: the integer helpers of the virtual machine, at their
  machine widths.  A signed integer is the word of its two's-complement bits, read with \<open>sint\<close>; C++
  templates over an integer type are functions on \<open>'a word\<close>, in a signed and an unsigned variant
  where the code tells them apart.  \<open>__builtin_clz\<close> and \<open>__builtin_ctz\<close> are the numbers of leading
  and trailing zero bits.  Helpers on doubles, strings, files and dynamic libraries are left out.

  Shown: the least power of two and its wrap-around, bit reversal, bit length, the fit tests
  \<open>IsInt\<close> and \<open>IsUint\<close> (the former is wrong on unsigned types), the overflow tests, and that
  \<open>StringHash\<close> does not depend on the alignment of its data.
\<close>

section \<open>Powers of two and alignment\<close>

definition IsPowerOfTwo :: "'a::len word \<Rightarrow> bool" where
  "IsPowerOfTwo x \<longleftrightarrow> x AND (x - 1) = 0 \<and> x \<noteq> 0"

definition IsAligned :: "64 word \<Rightarrow> 64 word \<Rightarrow> 64 word \<Rightarrow> bool" where
  "IsAligned x alignment offset \<longleftrightarrow> x AND (alignment - 1) = offset"

definition RoundDown :: "64 word \<Rightarrow> 64 word \<Rightarrow> 64 word" where
  "RoundDown x alignment = x AND (- alignment)"

definition RoundUp :: "64 word \<Rightarrow> 64 word \<Rightarrow> 64 word \<Rightarrow> 64 word" where
  "RoundUp x alignment offset = RoundDown (x + alignment - 1 + offset) alignment - offset"

definition smear :: "nat \<Rightarrow> 64 word \<Rightarrow> 64 word" where
  "smear k x = x OR drop_bit k x"

definition RoundUpToPowerOfTwo :: "64 word \<Rightarrow> 64 word" where
  "RoundUpToPowerOfTwo x =
     (let x = x - 1; x = smear 1 x; x = smear 2 x; x = smear 4 x; x = smear 8 x; x = smear 16 x;
          x = smear 32 x
      in x + 1)"

section \<open>Bit counting and reversal\<close>

definition highest_step :: "nat \<Rightarrow> 64 word \<times> nat \<Rightarrow> 64 word \<times> nat" where
  "highest_step k p = (case p of (x, r) \<Rightarrow> if drop_bit k x \<noteq> 0 then (drop_bit k x, r + k) else (x, r))"

definition HighestBit :: "64 word \<Rightarrow> nat" where
  "HighestBit v =
     (let p = (if 0 < sint v then v else - v, 0);
          p = highest_step 32 p; p = highest_step 16 p; p = highest_step 8 p;
          p = highest_step 4 p; p = highest_step 2 p
      in case p of (x, r) \<Rightarrow> if 1 < x then r + 1 else r)"

definition BitLength :: "64 word \<Rightarrow> nat" where
  "BitLength value =
     (let value = value XOR signed_drop_bit 63 value
      in if value = 0 then 0 else HighestBit value + 1)"

definition CountLeadingZeros :: "'a::len word \<Rightarrow> nat" where
  "CountLeadingZeros x = length (takeWhile Not (rev (map (bit x) [0..<LENGTH('a)])))"

definition CountTrailingZeros :: "'a::len word \<Rightarrow> nat" where
  "CountTrailingZeros x = length (takeWhile Not (map (bit x) [0..<LENGTH('a)]))"

definition swap_groups :: "nat \<Rightarrow> 'a::len word \<Rightarrow> 'a word \<Rightarrow> 'a word" where
  "swap_groups k m x = (drop_bit k x AND m) OR push_bit k (x AND m)"

definition ReverseBits64 :: "64 word \<Rightarrow> 64 word" where
  "ReverseBits64 x =
     (let x = (drop_bit 32 x AND 0x00000000ffffffff) OR push_bit 32 x;
          x = swap_groups 16 0x0000ffff0000ffff x;
          x = swap_groups 8 0x00ff00ff00ff00ff x;
          x = swap_groups 4 0x0f0f0f0f0f0f0f0f x;
          x = swap_groups 2 0x3333333333333333 x
      in swap_groups 1 0x5555555555555555 x)"

definition ReverseBits32 :: "32 word \<Rightarrow> 32 word" where
  "ReverseBits32 x =
     (let x = swap_groups 16 0x0000ffff x;
          x = swap_groups 8 0x00ff00ff x;
          x = swap_groups 4 0x0f0f0f0f x;
          x = swap_groups 2 0x33333333 x
      in swap_groups 1 0x55555555 x)"

section \<open>Fit and overflow tests\<close>

definition IsInt_signed :: "nat \<Rightarrow> 'a::len word \<Rightarrow> bool" where
  "IsInt_signed N value =
     (if LENGTH('a) \<le> N then True
      else let limit = push_bit (N - 1) 1 in - limit \<le>s value \<and> value <s limit)"

text \<open>The usual arithmetic conversions compute \<open>-limit\<close> as an \<open>int\<close> when \<open>T\<close> is narrower than an
  \<open>int\<close>, and modulo the width of \<open>T\<close> otherwise.\<close>

definition IsInt_unsigned :: "nat \<Rightarrow> 'a::len word \<Rightarrow> bool" where
  "IsInt_unsigned N value =
     (if LENGTH('a) < N then True
      else if N = LENGTH('a) then 0 \<le>s value
      else let limit = push_bit (N - 1) 1 in
           if LENGTH('a) < 32 then - uint limit \<le> uint value \<and> uint value < uint limit
           else - limit \<le> value \<and> value < limit)"

definition IsUint_unsigned :: "nat \<Rightarrow> 'a::len word \<Rightarrow> bool" where
  "IsUint_unsigned N value =
     (if LENGTH('a) \<le> N then True else value \<le> push_bit N 1 - 1)"

definition IsUint_signed :: "nat \<Rightarrow> 'a::len word \<Rightarrow> bool" where
  "IsUint_signed N value =
     (if value <s 0 then False
      else if LENGTH('a) - 1 \<le> N then True
      else value \<le>s push_bit N 1 - 1)"

definition MagnitudeIsUint :: "nat \<Rightarrow> 'a::len word \<Rightarrow> bool" where
  "MagnitudeIsUint N value =
     (if value <s 0 then IsUint_unsigned N (- value) else IsUint_signed N value)"

definition Low16Bits :: "32 word \<Rightarrow> 32 word" where
  "Low16Bits value = value AND 0xffff"

definition High16Bits :: "32 word \<Rightarrow> 32 word" where
  "High16Bits value = signed_drop_bit 16 value"

definition Low32Bits :: "64 word \<Rightarrow> 32 word" where
  "Low32Bits value = ucast value"

definition High32Bits :: "64 word \<Rightarrow> 32 word" where
  "High32Bits value = ucast (signed_drop_bit 32 value)"

definition LowHighTo64Bits :: "32 word \<Rightarrow> 32 word \<Rightarrow> 64 word" where
  "LowHighTo64Bits low high = push_bit 32 (scast high) OR (ucast low AND 0x0ffffffff)"

definition RangeCheck :: "64 word \<Rightarrow> 64 word \<Rightarrow> 64 word \<Rightarrow> bool" where
  "RangeCheck offset count len \<longleftrightarrow>
     0 \<le>s offset \<and> 0 \<le>s count \<and> 0 \<le>s len \<and> count \<le>s len - offset"

definition kMaxInt64 :: "64 word" where
  "kMaxInt64 = 0x7fffffffffffffff"

definition kMinInt64 :: "64 word" where
  "kMinInt64 = 0x8000000000000000"

definition WillAddOverflow :: "64 word \<Rightarrow> 64 word \<Rightarrow> bool" where
  "WillAddOverflow a b \<longleftrightarrow>
     (0 <s b \<and> kMaxInt64 - b <s a) \<or> (b <s 0 \<and> a <s kMinInt64 - b)"

definition WillSubOverflow :: "64 word \<Rightarrow> 64 word \<Rightarrow> bool" where
  "WillSubOverflow a b \<longleftrightarrow>
     (0 <s b \<and> a <s kMinInt64 + b) \<or> (b <s 0 \<and> kMaxInt64 + b <s a)"

definition AddWithWrapAround :: "64 word \<Rightarrow> 64 word \<Rightarrow> 64 word" where
  "AddWithWrapAround a b = a + b"

definition SubWithWrapAround :: "64 word \<Rightarrow> 64 word \<Rightarrow> 64 word" where
  "SubWithWrapAround a b = a - b"

definition ShiftLeftWithTruncation :: "64 word \<Rightarrow> 64 word \<Rightarrow> 64 word" where
  "ShiftLeftWithTruncation a b = (if 64 \<le>s b then 0 else push_bit (unat b) a)"

definition NBitMask :: "nat \<Rightarrow> 64 word" where
  "NBitMask n = (if n = 64 then - 1 else push_bit n 1 - 1)"

section \<open>String hash\<close>

text \<open>The data is the list of its bytes, together with the address of the first one.  A cursor into
  the data is the list of the bytes from there on; the loads of four bytes are little-endian.\<close>

definition kStringHashM :: "32 word" where
  "kStringHashM = 0x5bd1e995"

definition kStringHashR :: nat where
  "kStringHashR = 24"

definition MIX :: "32 word \<Rightarrow> 32 word \<Rightarrow> 32 word" where
  "MIX hash part =
     (let part = part * kStringHashM; part = part XOR drop_bit kStringHashR part;
          part = part * kStringHashM; hash = hash * kStringHashM
      in hash XOR part)"

definition load32 :: "8 word \<Rightarrow> 8 word \<Rightarrow> 8 word \<Rightarrow> 8 word \<Rightarrow> 32 word" where
  "load32 b0 b1 b2 b3 =
     ucast b0 OR push_bit 8 (ucast b1) OR push_bit 16 (ucast b2) OR push_bit 24 (ucast b3)"

primrec or_bytes :: "nat \<Rightarrow> nat \<Rightarrow> 32 word \<Rightarrow> 8 word list \<Rightarrow> 32 word" where
  "or_bytes 0 k w cursor = w"
| "or_bytes (Suc n) k w cursor = or_bytes n k (w OR push_bit (8 * n + k) (ucast (cursor ! n))) cursor"

primrec xor_bytes :: "nat \<Rightarrow> 32 word \<Rightarrow> 8 word list \<Rightarrow> 32 word" where
  "xor_bytes 0 w cursor = w"
| "xor_bytes (Suc n) w cursor = xor_bytes n (w XOR push_bit (8 * n) (ucast (cursor ! n))) cursor"

fun aligned_loop :: "32 word \<Rightarrow> 8 word list \<Rightarrow> 32 word \<times> 8 word list" where
  "aligned_loop hash (b0 # b1 # b2 # b3 # cursor) = aligned_loop (MIX hash (load32 b0 b1 b2 b3)) cursor"
| "aligned_loop hash cursor = (hash, cursor)"

fun misaligned_loop ::
    "nat \<Rightarrow> nat \<Rightarrow> 32 word \<Rightarrow> 32 word \<Rightarrow> 8 word list \<Rightarrow> 32 word \<times> 32 word \<times> 8 word list" where
  "misaligned_loop sl sr data_window hash (b0 # b1 # b2 # b3 # cursor) =
     (let aligned_part = load32 b0 b1 b2 b3;
          data_window = data_window OR push_bit sl aligned_part
      in misaligned_loop sl sr (drop_bit sr aligned_part) (MIX hash data_window) cursor)"
| "misaligned_loop sl sr data_window hash cursor = (data_window, hash, cursor)"

definition hash_tail :: "32 word \<Rightarrow> 8 word list \<Rightarrow> 32 word" where
  "hash_tail hash cursor =
     (if cursor = [] then hash else xor_bytes (length cursor) hash cursor * kStringHashM)"

definition hash_misaligned :: "nat \<Rightarrow> 32 word \<Rightarrow> 8 word list \<Rightarrow> 32 word \<times> 8 word list" where
  "hash_misaligned misalignment hash data =
     (let sr = misalignment * 8; sl = 32 - sr; pre_alignment_length = 4 - misalignment;
          data_window = or_bytes pre_alignment_length 0 0 data;
          (data_window, hash, cursor) =
            misaligned_loop sl sr data_window hash (drop pre_alignment_length data)
      in if misalignment \<le> length cursor
         then (MIX hash (or_bytes misalignment sl data_window cursor), drop misalignment cursor)
         else ((hash XOR or_bytes (length cursor) sl data_window cursor) * kStringHashM, []))"

definition StringHash :: "int \<Rightarrow> 8 word list \<Rightarrow> 32 word" where
  "StringHash address data =
     (let hash = word_of_nat (length data); misalignment = tmod address 4;
          (hash, cursor) =
            (if 4 \<le> length data
             then if 0 < misalignment then hash_misaligned (nat misalignment) hash data
                  else aligned_loop hash data
             else (hash, data));
          hash = hash_tail hash cursor;
          hash = hash XOR drop_bit 13 hash;
          hash = hash * kStringHashM
      in hash XOR drop_bit 15 hash)"

section \<open>String hash: independence of the alignment\<close>

primrec le_bytes :: "8 word list \<Rightarrow> 32 word" where
  "le_bytes [] = 0"
| "le_bytes (b # bs) = ucast b OR push_bit 8 (le_bytes bs)"

lemma load32_le: "load32 b0 b1 b2 b3 = le_bytes [b0, b1, b2, b3]"
  by (simp add: load32_def or.assoc push_bit_or)

lemma le_bytes_append: "le_bytes (xs @ ys) = le_bytes xs OR push_bit (8 * length xs) (le_bytes ys)"
  by (induction xs) (simp_all add: push_bit_or or.assoc)

lemma bit_le_bytes: "bit (le_bytes xs) i \<Longrightarrow> i < 8 * length xs"
proof (induction xs arbitrary: i)
  case (Cons b bs)
  show ?case
  proof (cases "i < 8")
    case False
    with Cons.prems have "bit (le_bytes bs) (i - 8)"
      by (auto simp: bit_simps dest: bit_imp_le_length)
    from Cons.IH [OF this] False show ?thesis by simp
  qed simp
qed simp

lemma le_bytes_full: "length xs = 4 \<Longrightarrow> le_bytes (xs @ ys) = le_bytes xs"
  by (simp add: le_bytes_append push_bit_word_beyond)

lemma drop_bit_le_bytes: "length xs \<le> 4 \<Longrightarrow> drop_bit (8 * k) (le_bytes xs) = le_bytes (drop k xs)"
proof (induction k arbitrary: xs)
  case (Suc k)
  show ?case
  proof (cases xs)
    case (Cons b bs)
    have "bit (le_bytes bs) i \<Longrightarrow> i < 24" for i
      using bit_le_bytes [of bs i] Suc.prems Cons by simp
    then have "drop_bit 8 (le_bytes (b # bs)) = le_bytes bs"
      by (auto simp: bit_eq_iff bit_simps dest: bit_imp_le_length)
    moreover have "drop_bit (8 * Suc k) (le_bytes xs) = drop_bit (8 * k) (drop_bit 8 (le_bytes xs))"
      by (simp add: drop_bit_drop_bit add.commute)
    ultimately show ?thesis
      using Suc.IH [of bs] Suc.prems Cons by simp
  qed simp
qed simp

lemma or_bytes_le: "n \<le> length xs \<Longrightarrow> or_bytes n k w xs = w OR push_bit k (le_bytes (take n xs))"
proof (induction n arbitrary: w)
  case (Suc n)
  then have "take (Suc n) xs = take n xs @ [xs ! n]"
    by (simp add: take_Suc_conv_app_nth)
  with Suc show ?case
    by (simp add: le_bytes_append push_bit_or min_def or.assoc or.left_commute or.commute
          push_bit_push_bit add.commute)
qed simp

lemma xor_bytes_le: "n \<le> length xs \<Longrightarrow> xor_bytes n w xs = w XOR le_bytes (take n xs)"
proof (induction n arbitrary: w)
  case (Suc n)
  then have t: "take (Suc n) xs = take n xs @ [xs ! n]"
    by (simp add: take_Suc_conv_app_nth)
  have lt: "bit (le_bytes (take n xs)) i \<Longrightarrow> i < 8 * n" for i
    using bit_le_bytes [of "take n xs" i] Suc.prems by simp
  have "le_bytes (take n xs) AND push_bit (8 * n) (ucast (xs ! n)) = 0"
    by (auto simp: bit_eq_iff bit_simps dest!: lt)
  then have "le_bytes (take (Suc n) xs) = le_bytes (take n xs) XOR push_bit (8 * n) (ucast (xs ! n))"
    using Suc.prems unfolding t by (simp add: le_bytes_append disjunctive_xor_eq_or min_def)
  with Suc show ?case
    by (simp add: xor.assoc xor.left_commute xor.commute)
qed simp

lemma aligned_loop_append:
  "length xs = 4 \<Longrightarrow> aligned_loop h (xs @ ys) = aligned_loop (MIX h (le_bytes xs)) ys"
  by (auto simp: length_Suc_conv numeral_eq_Suc load32_le)

lemma aligned_loop_short: "length xs < 4 \<Longrightarrow> aligned_loop h xs = (h, xs)"
  by (cases "(h, xs)" rule: aligned_loop.cases) auto

lemma misaligned_loop_short: "length xs < 4 \<Longrightarrow> misaligned_loop sl sr w h xs = (w, h, xs)"
  by (cases "(sl, sr, w, h, xs)" rule: misaligned_loop.cases) auto

definition hash_rest :: "32 word \<times> 8 word list \<Rightarrow> 32 word" where
  "hash_rest p = (case p of (h, c) \<Rightarrow> hash_tail h c)"

definition finish_misaligned :: "nat \<Rightarrow> 32 word \<times> 32 word \<times> 8 word list \<Rightarrow> 32 word \<times> 8 word list" where
  "finish_misaligned m p = (case p of (w, h, c) \<Rightarrow>
     if m \<le> length c then (MIX h (or_bytes m (32 - m * 8) w c), drop m c)
     else ((h XOR or_bytes (length c) (32 - m * 8) w c) * kStringHashM, []))"

lemma hash_misaligned_eq:
  "hash_misaligned m h data =
     finish_misaligned m (misaligned_loop (32 - m * 8) (m * 8) (or_bytes (4 - m) 0 0 data) h (drop (4 - m) data))"
  by (simp add: hash_misaligned_def finish_misaligned_def Let_def split: prod.splits)

lemma hash_tail_le: "length c < 4 \<Longrightarrow> hash_tail h c = (if c = [] then h else (h XOR le_bytes c) * kStringHashM)"
  by (simp add: hash_tail_def xor_bytes_le)

text \<open>What remains after the last full word of the misaligned loop.\<close>

lemma finish_misaligned_short:
  assumes "length pend = 4 - m" and "0 < m" "m < 4" and "length c < 4"
  shows "hash_rest (finish_misaligned m (le_bytes pend, h, c)) = hash_rest (aligned_loop h (pend @ c))"
proof -
  have k: "32 - m * 8 = 8 * length pend" using assms by simp
  show ?thesis
  proof (cases "m \<le> length c")
    case True
    have "pend @ c = (pend @ take m c) @ drop m c" by simp
    then have "aligned_loop h (pend @ c) = (MIX h (le_bytes (pend @ take m c)), drop m c)"
      using aligned_loop_append [of "pend @ take m c" h "drop m c"] aligned_loop_short [of "drop m c"]
        True assms by simp
    then show ?thesis
      using True by (simp add: finish_misaligned_def or_bytes_le k le_bytes_append)
  next
    case False
    then have "aligned_loop h (pend @ c) = (h, pend @ c)"
      using assms by (intro aligned_loop_short) simp
    with False show ?thesis
      using assms hash_tail_le [of "pend @ c" h]
      by (auto simp: finish_misaligned_def or_bytes_le k le_bytes_append hash_rest_def hash_tail_def)
  qed
qed

lemma misaligned_loop_le:
  assumes "length pend = 4 - m" and "0 < m" "m < 4"
  shows "hash_rest (finish_misaligned m (misaligned_loop (32 - m * 8) (m * 8) (le_bytes pend) h xs)) =
         hash_rest (aligned_loop h (pend @ xs))"
  using assms(1)
proof (induction "length xs" arbitrary: xs pend h rule: less_induct)
  case less
  have k: "32 - m * 8 = 8 * length pend" using less.prems assms by simp
  show ?case
  proof (cases "length xs < 4")
    case True
    then show ?thesis
      by (simp add: misaligned_loop_short finish_misaligned_short less.prems assms)
  next
    case False
    then obtain b0 b1 b2 b3 ys where xs: "xs = [b0, b1, b2, b3] @ ys"
      by (cases "(h, xs)" rule: aligned_loop.cases) auto
    let ?bs = "[b0, b1, b2, b3]"
    have split: "pend @ xs = (pend @ take m ?bs) @ (drop m ?bs @ ys)"
      unfolding xs by (metis append.assoc append_take_drop_id)
    have "le_bytes pend OR push_bit (8 * length pend) (load32 b0 b1 b2 b3) = le_bytes ((pend @ take m ?bs) @ drop m ?bs)"
      unfolding load32_le le_bytes_append [symmetric] by (metis append.assoc append_take_drop_id)
    also have "\<dots> = le_bytes (pend @ take m ?bs)"
      using less.prems assms by (intro le_bytes_full) simp
    finally have w: "le_bytes pend OR push_bit (8 * length pend) (load32 b0 b1 b2 b3) = le_bytes (pend @ take m ?bs)" .
    have d: "drop_bit (m * 8) (load32 b0 b1 b2 b3) = le_bytes (drop m ?bs)"
      using drop_bit_le_bytes [of ?bs m] by (simp add: load32_le mult.commute)
    have "misaligned_loop (32 - m * 8) (m * 8) (le_bytes pend) h xs =
          misaligned_loop (32 - m * 8) (m * 8) (le_bytes (drop m ?bs)) (MIX h (le_bytes (pend @ take m ?bs))) ys"
      unfolding xs k by (simp add: Let_def w d del: le_bytes.simps)
    moreover have "aligned_loop h (pend @ xs) = aligned_loop (MIX h (le_bytes (pend @ take m ?bs))) (drop m ?bs @ ys)"
      unfolding split using less.prems assms by (intro aligned_loop_append) simp
    moreover have "length (drop m ?bs) = 4 - m" by simp
    ultimately show ?thesis
      using less.hyps [of ys "drop m ?bs"] xs by simp
  qed
qed

lemma StringHash_rest:
  "StringHash address data =
     (let hash = word_of_nat (length data);
          hash = hash_rest (if 4 \<le> length data
             then if 0 < tmod address 4 then hash_misaligned (nat (tmod address 4)) hash data
                  else aligned_loop hash data
             else (hash, data));
          hash = (hash XOR drop_bit 13 hash) * kStringHashM
      in hash XOR drop_bit 15 hash)"
  by (simp add: StringHash_def Let_def hash_rest_def split: prod.splits)

text \<open>C22.  StringHash does not depend on where its data lies.  The hash of the bytes is the same for
  every address, although misaligned data is read through a sliding window of aligned loads.\<close>

theorem string_hash_alignment:
  "StringHash address data = StringHash 0 data"
proof -
  have "hash_rest (hash_misaligned m h data) = hash_rest (aligned_loop h data)"
    if "4 \<le> length data" "0 < m" "m < 4" for m h
    using misaligned_loop_le [of "take (4 - m) data" m h "drop (4 - m) data"] that
    by (simp add: hash_misaligned_eq or_bytes_le)
  moreover have "nat (tmod address 4) < 4"
    by (cases "address < 0") (simp_all add: tmod_neg tmod_nonneg nat_less_iff)
  ultimately have "4 \<le> length data \<Longrightarrow> 0 < tmod address 4 \<Longrightarrow>
      hash_rest (hash_misaligned (nat (tmod address 4)) h data) = hash_rest (aligned_loop h data)" for h
    by simp
  then show ?thesis
    unfolding StringHash_rest Let_def
    by (cases "4 \<le> length data"; cases "0 < tmod address 4") simp_all
qed



section \<open>Powers of two\<close>

lemma unat_drop_bit_nonzero: "drop_bit i (x :: 64 word) \<noteq> 0 \<longleftrightarrow> 2 ^ i \<le> unat x"
proof -
  have "unat (drop_bit i x) = unat x div 2 ^ i"
    unfolding unsigned_drop_bit_eq using unsigned_less [of x, where 'a = nat]
    by (simp add: drop_bit_eq_div take_bit_nat_eq_self)
  then show ?thesis unfolding unat_eq_0 [symmetric] by (simp add: div_eq_0_iff not_less)
qed

lemma bit_window:
  assumes "\<And>i. bit y i \<longleftrightarrow> (\<exists>j<k. bit x (i + j))"
  shows "bit (smear k y) i \<longleftrightarrow> (\<exists>j<2 * k. bit x (i + j))"
proof -
  have "(\<exists>j<2 * k. bit x (i + j)) \<longleftrightarrow> (\<exists>j<k. bit x (i + j)) \<or> (\<exists>j<k. bit x (i + k + j))"
  proof
    assume "\<exists>j<2 * k. bit x (i + j)"
    then obtain j where j: "j < 2 * k" "bit x (i + j)" by blast
    show "(\<exists>j<k. bit x (i + j)) \<or> (\<exists>j<k. bit x (i + k + j))"
    proof (cases "j < k")
      case False
      with j have "j - k < k" "bit x (i + k + (j - k))" by simp_all
      then show ?thesis by blast
    qed (use j in blast)
  next
    assume "(\<exists>j<k. bit x (i + j)) \<or> (\<exists>j<k. bit x (i + k + j))"
    then show "\<exists>j<2 * k. bit x (i + j)"
    proof
      assume "\<exists>j<k. bit x (i + j)"
      then obtain j where "j < k" "bit x (i + j)" by blast
      then show ?thesis by (intro exI [of _ j]) simp
    next
      assume "\<exists>j<k. bit x (i + k + j)"
      then obtain j where "j < k" "bit x (i + (k + j))" by (auto simp: add.assoc)
      then show ?thesis by (intro exI [of _ "k + j"]) simp
    qed
  qed
  then show ?thesis
    using assms by (simp add: smear_def bit_simps add.commute [of k])
qed

lemma smear_all:
  "smear 32 (smear 16 (smear 8 (smear 4 (smear 2 (smear 1 x))))) = mask n"
  if "unat x < 2 ^ n" and "n = 0 \<or> 2 ^ (n - 1) \<le> unat x"
proof (rule bit_eqI)
  fix i
  assume "possible_bit TYPE(64 word) i"
  then have i: "i < 64" by simp
  let ?s = "smear 32 (smear 16 (smear 8 (smear 4 (smear 2 (smear 1 x)))))"
  have w0: "\<And>i. bit x i \<longleftrightarrow> (\<exists>j<1. bit x (i + j))" by simp
  have w1: "\<And>i. bit (smear 1 x) i \<longleftrightarrow> (\<exists>j<2. bit x (i + j))"
    using bit_window [of x 1 x, OF w0] by simp
  have w2: "\<And>i. bit (smear 2 (smear 1 x)) i \<longleftrightarrow> (\<exists>j<4. bit x (i + j))"
    using bit_window [OF w1] by simp
  have w4: "\<And>i. bit (smear 4 (smear 2 (smear 1 x))) i \<longleftrightarrow> (\<exists>j<8. bit x (i + j))"
    using bit_window [OF w2] by simp
  have w8: "\<And>i. bit (smear 8 (smear 4 (smear 2 (smear 1 x)))) i \<longleftrightarrow> (\<exists>j<16. bit x (i + j))"
    using bit_window [OF w4] by simp
  have w16: "\<And>i. bit (smear 16 (smear 8 (smear 4 (smear 2 (smear 1 x))))) i \<longleftrightarrow> (\<exists>j<32. bit x (i + j))"
    using bit_window [OF w8] by simp
  have "bit ?s i \<longleftrightarrow> (\<exists>j<64. bit x (i + j))"
    using bit_window [OF w16] by simp
  also have "\<dots> \<longleftrightarrow> drop_bit i x \<noteq> 0"
  proof
    assume "drop_bit i x \<noteq> 0"
    then obtain j where "bit (drop_bit i x) j" by (auto simp: bit_eq_iff)
    then have "bit x (i + j)" by (simp add: bit_drop_bit_eq)
    moreover from this have "j < 64" using bit_imp_le_length [of x "i + j"] by simp
    ultimately show "\<exists>j<64. bit x (i + j)" by blast
  next
    assume "\<exists>j<64. bit x (i + j)"
    then have "\<exists>j. bit (drop_bit i x) j" by (auto simp: bit_drop_bit_eq)
    then show "drop_bit i x \<noteq> 0" by auto
  qed
  also have "\<dots> \<longleftrightarrow> 2 ^ i \<le> unat x"
    by (rule unat_drop_bit_nonzero)
  also have "\<dots> \<longleftrightarrow> i < n"
  proof
    assume "2 ^ i \<le> unat x"
    then have "(2 :: nat) ^ i < 2 ^ n" using that(1) by (rule le_less_trans)
    then show "i < n" by simp
  next
    assume "i < n"
    then have "(2 :: nat) ^ i \<le> 2 ^ (n - 1)" by simp
    moreover have "2 ^ (n - 1) \<le> unat x" using that(2) \<open>i < n\<close> by simp
    ultimately show "2 ^ i \<le> unat x" by (rule le_trans)
  qed
  finally show "bit ?s i \<longleftrightarrow> bit (mask n :: 64 word) i"
    using i by (simp add: bit_mask_iff)
qed

lemma unat_exp: "n < LENGTH('a) \<Longrightarrow> unat (2 ^ n :: 'a::len word) = 2 ^ n"
proof -
  assume "n < LENGTH('a)"
  moreover have "(2 ^ n :: 'a word) = word_of_nat (2 ^ n)" by simp
  ultimately show ?thesis by (simp only: unsigned_of_nat) (simp add: take_bit_nat_eq_self)
qed

lemma power_bracket: "\<exists>n. (x :: nat) < 2 ^ n \<and> (n = 0 \<or> 2 ^ (n - 1) \<le> x)"
proof -
  let ?n = "LEAST n. x < 2 ^ n"
  have "x < 2 ^ x" by simp
  then have "x < 2 ^ ?n" by (rule LeastI)
  moreover have "?n = 0 \<or> 2 ^ (?n - 1) \<le> x"
    using not_less_Least [of "?n - 1" "\<lambda>n. x < 2 ^ n"] by (cases ?n) auto
  ultimately show ?thesis by blast
qed

lemma RoundUpToPowerOfTwo_bracket:
  "\<exists>n. RoundUpToPowerOfTwo x = 2 ^ n \<and> unat (x - 1) < 2 ^ n \<and> (n = 0 \<or> 2 ^ (n - 1) \<le> unat (x - 1))"
proof -
  obtain n where n: "unat (x - 1) < 2 ^ n" "n = 0 \<or> 2 ^ (n - 1) \<le> unat (x - 1)"
    using power_bracket by blast
  have "RoundUpToPowerOfTwo x = mask n + 1"
    using smear_all [OF n] by (simp add: RoundUpToPowerOfTwo_def)
  then have "RoundUpToPowerOfTwo x = 2 ^ n" by (simp add: mask_eq_exp_minus_1)
  with n show ?thesis by blast
qed

lemma RoundUpToPowerOfTwo_power:
  assumes "0 < x" "x \<le> 2 ^ 63"
  shows "\<exists>n. unat (RoundUpToPowerOfTwo x) = 2 ^ n \<and> unat x \<le> 2 ^ n \<and> 2 ^ n < 2 * unat x"
proof -
  obtain n where r2: "RoundUpToPowerOfTwo x = 2 ^ n"
    and n: "unat (x - 1) < 2 ^ n" "n = 0 \<or> 2 ^ (n - 1) \<le> unat (x - 1)"
    using RoundUpToPowerOfTwo_bracket by blast
  have x: "unat x \<le> 2 ^ 63" "0 < unat x" "unat (x - 1) = unat x - 1"
    using assms by (simp_all add: word_le_nat_alt unat_gt_0 unat_minus_one word_gt_0)
  have "n < 64"
  proof (rule ccontr)
    assume "\<not> n < 64"
    then have "(2 :: nat) ^ 63 \<le> 2 ^ (n - 1)" by (intro power_increasing) auto
    with n(2) x \<open>\<not> n < 64\<close> show False by simp
  qed
  then have "unat (RoundUpToPowerOfTwo x) = 2 ^ n"
    unfolding r2 by (simp add: unat_exp)
  moreover have "unat x \<le> 2 ^ n" using n(1) x by simp
  moreover have "2 ^ n < 2 * unat x" using n(2) x by (cases n) auto
  ultimately show ?thesis by blast
qed

text \<open>C23.  RoundUpToPowerOfTwo returns the least power of two that is not smaller than its argument,
  for every argument from 1 to \<open>2 ^ 63\<close>; for 0 and for larger arguments the result wraps to 0.\<close>

theorem round_up_to_power_of_two:
  "(if 0 < x \<and> x \<le> 2 ^ 63
    then \<exists>n. unat (RoundUpToPowerOfTwo x) = 2 ^ n \<and> unat x \<le> 2 ^ n \<and> 2 ^ n < 2 * unat x
    else RoundUpToPowerOfTwo x = 0)"
proof -
  obtain n where r2: "RoundUpToPowerOfTwo x = 2 ^ n" and n: "unat (x - 1) < 2 ^ n"
    using RoundUpToPowerOfTwo_bracket by blast
  show ?thesis
  proof (cases "0 < x \<and> x \<le> 2 ^ 63")
    case True
    then show ?thesis using RoundUpToPowerOfTwo_power [of x] by simp
  next
    case False
    have "2 ^ 63 \<le> unat (x - 1)"
    proof (cases "x = 0")
      case False
      with \<open>\<not> (0 < x \<and> x \<le> 2 ^ 63)\<close> have "2 ^ 63 < unat x"
        by (simp add: word_le_nat_alt word_gt_0)
      with False show ?thesis by (simp add: unat_minus_one)
    qed (simp add: unsigned_minus_1_eq_mask mask_eq_exp_minus_1)
    then have "(2 :: nat) ^ 63 < 2 ^ n" using n by (rule le_less_trans)
    then have "63 < n" by (rule power_less_imp_less_exp [rotated]) simp
    then have "64 \<le> n" by simp
    then show ?thesis unfolding if_not_P [OF False] r2 by (simp add: exp_eq_zero_iff)
  qed
qed

section \<open>Reversal\<close>
definition flip :: "nat \<Rightarrow> nat \<Rightarrow> nat" where
  "flip k n = (if even (n div k) then n + k else n - k)"

lemma bit_swap_groups:
  assumes "\<forall>n<LENGTH('a). bit m n \<longleftrightarrow> even (n div k)" and "0 < k" and "n < LENGTH('a)"
    and "flip k n < LENGTH('a)"
  shows "bit (swap_groups k m (x :: 'a::len word)) n \<longleftrightarrow> bit x (flip k n)"
proof (cases "even (n div k)")
  case True
  then have "k \<le> n \<Longrightarrow> odd ((n - k) div k)"
    using assms(2) by (simp add: le_div_geq)
  with True assms show ?thesis
    by (auto simp: swap_groups_def bit_simps flip_def add.commute)
next
  case False
  then have "k \<le> n" using assms(2) by (metis div_less even_zero not_less)
  with False have "even ((n - k) div k)"
    using assms(2) by (simp add: le_div_geq)
  with False \<open>k \<le> n\<close> assms show ?thesis
    by (auto simp: swap_groups_def bit_simps flip_def)
qed

lemma list_all_upt: "list_all P [0..<n] \<longleftrightarrow> (\<forall>i<n. P i)"
  by (auto simp: list_all_iff)

lemma masks64:
  "\<forall>n<64. bit (0x0000ffff0000ffff :: 64 word) n \<longleftrightarrow> even (n div 16)"
  "\<forall>n<64. bit (0x00ff00ff00ff00ff :: 64 word) n \<longleftrightarrow> even (n div 8)"
  unfolding list_all_upt [symmetric] by code_simp+

lemma masks64':
  "\<forall>n<64. bit (0x0f0f0f0f0f0f0f0f :: 64 word) n \<longleftrightarrow> even (n div 4)"
  "\<forall>n<64. bit (0x3333333333333333 :: 64 word) n \<longleftrightarrow> even (n div 2)"
  "\<forall>n<64. bit (0x5555555555555555 :: 64 word) n \<longleftrightarrow> even (n div 1)"
  "\<forall>n<64. bit (0x00000000ffffffff :: 64 word) n \<longleftrightarrow> even (n div 32)"
  unfolding list_all_upt [symmetric] by code_simp+

lemma masks32:
  "\<forall>n<32. bit (0x0000ffff :: 32 word) n \<longleftrightarrow> even (n div 16)"
  "\<forall>n<32. bit (0x00ff00ff :: 32 word) n \<longleftrightarrow> even (n div 8)"
  "\<forall>n<32. bit (0x0f0f0f0f :: 32 word) n \<longleftrightarrow> even (n div 4)"
  "\<forall>n<32. bit (0x33333333 :: 32 word) n \<longleftrightarrow> even (n div 2)"
  "\<forall>n<32. bit (0x55555555 :: 32 word) n \<longleftrightarrow> even (n div 1)"
  unfolding list_all_upt [symmetric] by code_simp+

lemma flips:
  "\<forall>n<64. flip 1 n < 64 \<and> flip 2 (flip 1 n) < 64 \<and> flip 4 (flip 2 (flip 1 n)) < 64 \<and>
     flip 8 (flip 4 (flip 2 (flip 1 n))) < 64 \<and> flip 16 (flip 8 (flip 4 (flip 2 (flip 1 n)))) < 64 \<and>
     flip 32 (flip 16 (flip 8 (flip 4 (flip 2 (flip 1 n))))) = 63 - n"
  "\<forall>n<32. flip 1 n < 32 \<and> flip 2 (flip 1 n) < 32 \<and> flip 4 (flip 2 (flip 1 n)) < 32 \<and>
     flip 8 (flip 4 (flip 2 (flip 1 n))) < 32 \<and> flip 16 (flip 8 (flip 4 (flip 2 (flip 1 n)))) = 31 - n"
  unfolding list_all_upt [symmetric] by code_simp+

lemma bit_ReverseBits64: "n < 64 \<Longrightarrow> bit (ReverseBits64 x) n \<longleftrightarrow> bit x (63 - n)"
proof -
  assume n: "n < 64"
  have first: "(drop_bit 32 x AND 0x00000000ffffffff) OR push_bit 32 x = swap_groups 32 0x00000000ffffffff x"
  proof -
    have m: "(0x00000000ffffffff :: 64 word) = mask 32" by (simp add: mask_eq_exp_minus_1)
    show ?thesis unfolding swap_groups_def m by (auto simp: bit_eq_iff bit_simps)
  qed
  note b = bit_swap_groups [where 'a = 64, simplified]
  show ?thesis
    using n flips(1) unfolding ReverseBits64_def Let_def first
    by (simp add: b [OF masks64(1)] b [OF masks64(2)] b [OF masks64'(1)] b [OF masks64'(2)]
        b [OF masks64'(3)] b [OF masks64'(4)] del: One_nat_def)
qed

lemma bit_ReverseBits32: "n < 32 \<Longrightarrow> bit (ReverseBits32 x) n \<longleftrightarrow> bit x (31 - n)"
proof -
  assume n: "n < 32"
  note b = bit_swap_groups [where 'a = 32, simplified]
  show ?thesis
    using n flips(2) unfolding ReverseBits32_def Let_def
    by (simp add: b [OF masks32(1)] b [OF masks32(2)] b [OF masks32(3)] b [OF masks32(4)]
        b [OF masks32(5)] del: One_nat_def)
qed


section \<open>Fit and overflow\<close>

lemma sint_range: "- (2 ^ (LENGTH('a) - 1)) \<le> sint (x :: 'a::len word)" "sint x < 2 ^ (LENGTH('a) - 1)"
  using sint_greater_eq [of x] sint_less [of x] by simp_all

lemma sint_of_int:
  "- (2 ^ (LENGTH('a) - 1)) \<le> k \<Longrightarrow> k < 2 ^ (LENGTH('a) - 1) \<Longrightarrow> sint (word_of_int k :: 'a::len word) = k"
  by (simp add: signed_of_int signed_take_bit_int_eq_self)

lemma word_of_int_sint_add: "(a :: 'a::len word) + b = word_of_int (sint a + sint b)"
  by simp

lemma sint_add_self:
  "- (2 ^ (LENGTH('a) - 1)) \<le> sint a + sint b \<Longrightarrow> sint a + sint b < 2 ^ (LENGTH('a) - 1) \<Longrightarrow>
   sint (a + b) = sint a + sint (b :: 'a::len word)"
  by (subst word_of_int_sint_add) (rule sint_of_int)

lemma sint_diff_self:
  "- (2 ^ (LENGTH('a) - 1)) \<le> sint a - sint b \<Longrightarrow> sint a - sint b < 2 ^ (LENGTH('a) - 1) \<Longrightarrow>
   sint (a - b) = sint a - sint (b :: 'a::len word)"
proof -
  assume "- (2 ^ (LENGTH('a) - 1)) \<le> sint a - sint b" "sint a - sint b < 2 ^ (LENGTH('a) - 1)"
  moreover have "a - b = word_of_int (sint a - sint b)" by simp
  ultimately show ?thesis by (simp only: sint_of_int)
qed

lemma sint_limits: "sint kMaxInt64 = 2 ^ 63 - 1" "sint kMinInt64 = - (2 ^ 63)"
  by (simp_all add: kMaxInt64_def kMinInt64_def)

lemmas sint_range64 = sint_range [where 'a = 64, simplified]

lemma will_add_overflow_iff:
  "WillAddOverflow a b \<longleftrightarrow> sint a + sint b < - (2 ^ 63) \<or> 2 ^ 63 \<le> sint a + sint b"
proof -
  have "0 < sint b \<Longrightarrow> sint (kMaxInt64 - b) = 2 ^ 63 - 1 - sint b"
    using sint_diff_self [of kMaxInt64 b] sint_range64 [of b] by (simp add: sint_limits)
  moreover have "sint b < 0 \<Longrightarrow> sint (kMinInt64 - b) = - (2 ^ 63) - sint b"
    using sint_diff_self [of kMinInt64 b] sint_range64 [of b] by (simp add: sint_limits)
  ultimately show ?thesis
    unfolding WillAddOverflow_def word_sless_alt using sint_range64 [of a] sint_range64 [of b] by auto
qed

lemma will_sub_overflow_iff:
  "WillSubOverflow a b \<longleftrightarrow> sint a - sint b < - (2 ^ 63) \<or> 2 ^ 63 \<le> sint a - sint b"
proof -
  have "0 < sint b \<Longrightarrow> sint (kMinInt64 + b) = - (2 ^ 63) + sint b"
    using sint_add_self [of kMinInt64 b] sint_range64 [of b] by (simp add: sint_limits)
  moreover have "sint b < 0 \<Longrightarrow> sint (kMaxInt64 + b) = 2 ^ 63 - 1 + sint b"
    using sint_add_self [of kMaxInt64 b] sint_range64 [of b] by (simp add: sint_limits)
  ultimately show ?thesis
    unfolding WillSubOverflow_def word_sless_alt using sint_range64 [of a] sint_range64 [of b] by auto
qed

text \<open>C24.  WillAddOverflow and WillSubOverflow, which compute with 64-bit arithmetic only, hold exactly
  when the wrapped-around sum or difference is not the mathematical one.\<close>

theorem overflow_tests_exact:
  "(WillAddOverflow a b \<longleftrightarrow> sint (AddWithWrapAround a b) \<noteq> sint a + sint b) \<and>
   (WillSubOverflow a b \<longleftrightarrow> sint (SubWithWrapAround a b) \<noteq> sint a - sint b)"
proof
  show "WillAddOverflow a b \<longleftrightarrow> sint (AddWithWrapAround a b) \<noteq> sint a + sint b"
    using sint_range64 [of "a + b"] sint_add_self [of a b]
    unfolding will_add_overflow_iff AddWithWrapAround_def
    by (cases "- (2 ^ 63) \<le> sint a + sint b"; cases "sint a + sint b < 2 ^ 63") auto
  show "WillSubOverflow a b \<longleftrightarrow> sint (SubWithWrapAround a b) \<noteq> sint a - sint b"
    using sint_range64 [of "a - b"] sint_diff_self [of a b]
    unfolding will_sub_overflow_iff SubWithWrapAround_def
    by (cases "- (2 ^ 63) \<le> sint a - sint b"; cases "sint a - sint b < 2 ^ 63") auto
qed

lemma sint_push_one: "n < LENGTH('a) - 1 \<Longrightarrow> sint (push_bit n 1 :: 'a::len word) = 2 ^ n"
proof -
  assume n: "n < LENGTH('a) - 1"
  then have "(2 :: int) ^ n < 2 ^ (LENGTH('a) - 1)" by simp
  moreover have "(push_bit n 1 :: 'a word) = word_of_int (2 ^ n)" by (simp add: push_bit_eq_mult)
  ultimately show ?thesis by (simp only:) (rule sint_of_int, auto intro: order_trans [of _ 0])
qed

lemma IsInt_signed_iff:
  fixes v :: "'a::len word"
  assumes "0 < N"
  shows "IsInt_signed N v \<longleftrightarrow> - (2 ^ (N - 1)) \<le> sint v \<and> sint v < 2 ^ (N - 1)"
proof (cases "LENGTH('a) \<le> N")
  case True
  then have "(2 :: int) ^ (LENGTH('a) - 1) \<le> 2 ^ (N - 1)" by (intro power_increasing) auto
  then have "- (2 ^ (N - 1)) \<le> sint v" "sint v < 2 ^ (N - 1)"
    using sint_range [of v] by linarith+
  with True show ?thesis by (simp add: IsInt_signed_def)
next
  case False
  then have l: "sint (push_bit (N - 1) 1 :: 'a word) = 2 ^ (N - 1)"
    using assms by (intro sint_push_one) auto
  have "(2 :: int) ^ (N - 1) \<le> 2 ^ (LENGTH('a) - 1)" using False by (intro power_increasing) auto
  moreover have "0 < (2 :: int) ^ (N - 1)" "0 < (2 :: int) ^ (LENGTH('a) - 1)" by simp_all
  ultimately have "- (2 ^ (LENGTH('a) - 1)) \<le> 0 - (2 :: int) ^ (N - 1)"
      "0 - (2 :: int) ^ (N - 1) < 2 ^ (LENGTH('a) - 1)" by linarith+
  then have "sint (- (push_bit (N - 1) 1) :: 'a word) = - (2 ^ (N - 1))"
    using sint_diff_self [of "0 :: 'a word" "push_bit (N - 1) 1"] unfolding l by simp
  with False l show ?thesis
    by (simp add: IsInt_signed_def word_sle_eq word_sless_alt Let_def)
qed

lemma sle_0_iff: "0 \<le>s v \<longleftrightarrow> uint v < 2 ^ (LENGTH('a) - 1)" for v :: "'a::len word"
proof
  assume "0 \<le>s v"
  then have "0 \<le> sint v" "sint v < 2 ^ (LENGTH('a) - 1)"
    using sint_range [of v] by (simp_all add: word_sle_eq)
  moreover have "(2 :: int) ^ (LENGTH('a) - 1) \<le> 2 ^ LENGTH('a)" by (intro power_increasing) auto
  ultimately have "take_bit LENGTH('a) (sint v) = sint v"
    by (intro take_bit_int_eq_self) linarith+
  then have "uint v = sint v"
    by (simp add: uint_sint)
  with \<open>sint v < 2 ^ (LENGTH('a) - 1)\<close> show "uint v < 2 ^ (LENGTH('a) - 1)" by simp
next
  assume "uint v < 2 ^ (LENGTH('a) - 1)"
  then have "sint v = uint v"
    unfolding sint_uint by (intro signed_take_bit_int_eq_self) (auto intro: order_trans [of _ 0])
  then show "0 \<le>s v" by (simp add: word_sle_eq)
qed

lemma IsInt_unsigned_exact:
  fixes v :: "'a::len word"
  assumes "0 < N" and "LENGTH('a) < 32 \<or> LENGTH('a) \<le> N"
  shows "IsInt_unsigned N v \<longleftrightarrow> uint v < 2 ^ (N - 1)"
proof (cases "LENGTH('a) < N")
  case True
  then have "(2 :: int) ^ LENGTH('a) \<le> 2 ^ (N - 1)" by (intro power_increasing) auto
  then have "uint v < 2 ^ (N - 1)" using uint_lt2p [of v] by linarith
  with True show ?thesis by (simp add: IsInt_unsigned_def)
next
  case False
  then have "uint (push_bit (N - 1) 1 :: 'a word) = 2 ^ (N - 1)"
    using assms(1) unat_exp [of "N - 1", where 'a = 'a] by (simp add: push_bit_eq_mult uint_nat)
  moreover have "- (2 ^ (N - 1)) \<le> uint v"
    by (rule order_trans [of _ 0]) simp_all
  ultimately show ?thesis
    using False assms by (auto simp: IsInt_unsigned_def sle_0_iff Let_def)
qed

lemma IsInt_unsigned_wide:
  fixes v :: "'a::len word"
  assumes "0 < N" and "N < LENGTH('a)" and "32 \<le> LENGTH('a)"
  shows "\<not> IsInt_unsigned N v"
proof
  let ?l = "push_bit (N - 1) 1 :: 'a word"
  assume "IsInt_unsigned N v"
  then have "- ?l \<le> v" "v < ?l" using assms by (simp_all add: IsInt_unsigned_def Let_def)
  then have lt: "unat (- ?l) < unat ?l" by (simp add: word_less_nat_alt word_le_nat_alt)
  have l: "unat ?l = 2 ^ (N - 1)" using assms by (simp add: push_bit_eq_mult unat_exp)
  have "(2 :: nat) * 2 ^ (N - 1) \<le> 2 ^ LENGTH('a)"
    using assms power_increasing [of N "LENGTH('a)" "2 :: nat"] by (simp flip: power_Suc)
  then have "unat (- ?l) + unat ?l < 2 ^ LENGTH('a)" using lt l by linarith
  moreover have "(unat (- ?l) + unat ?l) mod 2 ^ LENGTH('a) = 0"
    using unat_word_ariths(1) [of "- ?l" ?l] by simp
  ultimately show False using l by simp
qed

text \<open>C25.  IsInt is exact on signed types.  On an unsigned type narrower than an int, and on any
  unsigned type when the tested number of bits is at least its width, it is exact too.  On an unsigned
  type of at least 32 bits that is wider than the tested number of bits it rejects every value,
  because the negated limit is a huge unsigned number.\<close>

theorem is_int_signed_exact_unsigned_wrong:
  fixes v :: "'a::len word"
  assumes "0 < N"
  shows "(IsInt_signed N v \<longleftrightarrow> - (2 ^ (N - 1)) \<le> sint v \<and> sint v < 2 ^ (N - 1)) \<and>
         (if 32 \<le> LENGTH('a) \<and> N < LENGTH('a) then \<not> IsInt_unsigned N v
          else (IsInt_unsigned N v \<longleftrightarrow> uint v < 2 ^ (N - 1)))"
  using IsInt_signed_iff [OF assms] IsInt_unsigned_wide [OF assms] IsInt_unsigned_exact [OF assms]
  by (auto simp: not_less not_le)

theorem is_int_signed_exact_unsigned_wrong_witness:
  "(IsInt_signed 8 (5 :: 64 word) \<longleftrightarrow> - (2 ^ 7) \<le> sint (5 :: 64 word) \<and> sint (5 :: 64 word) < 2 ^ 7) \<and>
   \<not> IsInt_unsigned 8 (5 :: 64 word) \<and> IsInt_unsigned 4 (5 :: 8 word)"
  using is_int_signed_exact_unsigned_wrong [of 8 "5 :: 64 word"]
    is_int_signed_exact_unsigned_wrong [of 4 "5 :: 8 word"] by simp

section \<open>Counting zeros\<close>

lemma CountTrailingZeros_eq:
  fixes x :: "'a::len word"
  assumes "n \<le> LENGTH('a)" and "\<And>i. i < n \<Longrightarrow> \<not> bit x i" and "n < LENGTH('a) \<Longrightarrow> bit x n"
  shows "CountTrailingZeros x = n"
proof -
  have "takeWhile Not (map (bit x) [0..<LENGTH('a)]) = take n (map (bit x) [0..<LENGTH('a)])"
    using assms by (intro takeWhile_eq_take_P_nth) auto
  with assms(1) show ?thesis by (simp add: CountTrailingZeros_def min_def)
qed

lemma CountLeadingZeros_eq:
  fixes x :: "'a::len word"
  assumes "n \<le> LENGTH('a)" and "\<And>i. LENGTH('a) - n \<le> i \<Longrightarrow> \<not> bit x i"
    and "n < LENGTH('a) \<Longrightarrow> bit x (LENGTH('a) - 1 - n)"
  shows "CountLeadingZeros x = n"
proof -
  have "takeWhile Not (rev (map (bit x) [0..<LENGTH('a)])) = take n (rev (map (bit x) [0..<LENGTH('a)]))"
    using assms by (intro takeWhile_eq_take_P_nth) (auto simp: rev_nth)
  with assms(1) show ?thesis by (simp add: CountLeadingZeros_def min_def)
qed

lemma CountTrailingZeros_props:
  fixes x :: "'a::len word"
  shows "CountTrailingZeros x \<le> LENGTH('a)" and "i < CountTrailingZeros x \<Longrightarrow> \<not> bit x i"
    and "x \<noteq> 0 \<Longrightarrow> bit x (CountTrailingZeros x)"
proof -
  let ?xs = "map (bit x) [0..<LENGTH('a)]"
  show le: "CountTrailingZeros x \<le> LENGTH('a)"
    unfolding CountTrailingZeros_def using length_takeWhile_le [of Not ?xs] by simp
  show "i < CountTrailingZeros x \<Longrightarrow> \<not> bit x i"
    using nth_mem [of i "takeWhile Not ?xs"] takeWhile_nth [of i Not ?xs] le
    by (auto simp: CountTrailingZeros_def dest!: set_takeWhileD)
  show "x \<noteq> 0 \<Longrightarrow> bit x (CountTrailingZeros x)"
  proof -
    assume "x \<noteq> 0"
    then obtain j where j: "bit x j" by (auto simp: bit_eq_iff)
    then have "j < LENGTH('a)" by (rule bit_imp_le_length)
    with j have "takeWhile Not ?xs \<noteq> ?xs" by (auto simp: takeWhile_eq_all_conv)
    then have "length (takeWhile Not ?xs) < length ?xs"
      by (metis length_takeWhile_le le_neq_implies_less takeWhile_eq_take take_all_iff order_refl)
    then show ?thesis
      using nth_length_takeWhile [of Not ?xs] by (simp add: CountTrailingZeros_def)
  qed
qed

lemma CountLeadingZeros_rev:
  "map (bit (y :: 'a::len word)) [0..<LENGTH('a)] = rev (map (bit x) [0..<LENGTH('a)]) \<Longrightarrow>
   CountLeadingZeros y = CountTrailingZeros (x :: 'a word)"
  by (simp add: CountLeadingZeros_def CountTrailingZeros_def)

text \<open>C26.  ReverseBits64 and ReverseBits32, which swap groups of 32, 16, 8, 4, 2 and 1 bits, reverse
  the sequence of bits; so reversing twice gives the word back, and counting the leading zeros of a
  reversed word counts the trailing zeros.\<close>

theorem reverse_bits_correct:
  "map (bit (ReverseBits64 x)) [0..<64] = rev (map (bit x) [0..<64]) \<and>
   map (bit (ReverseBits32 y)) [0..<32] = rev (map (bit y) [0..<32]) \<and>
   ReverseBits64 (ReverseBits64 x) = x \<and> ReverseBits32 (ReverseBits32 y) = y \<and>
   CountLeadingZeros (ReverseBits64 x) = CountTrailingZeros x"
proof -
  have "map (bit (ReverseBits64 x)) [0..<64] = rev (map (bit x) [0..<64])"
    by (rule nth_equalityI) (auto simp: rev_nth bit_ReverseBits64)
  moreover have "map (bit (ReverseBits32 y)) [0..<32] = rev (map (bit y) [0..<32])"
    by (rule nth_equalityI) (auto simp: rev_nth bit_ReverseBits32)
  moreover have "ReverseBits64 (ReverseBits64 x) = x"
    by (rule bit_word_eqI) (simp add: bit_ReverseBits64)
  moreover have "ReverseBits32 (ReverseBits32 y) = y"
    by (rule bit_word_eqI) (simp add: bit_ReverseBits32)
  ultimately show ?thesis
    using CountLeadingZeros_rev [of "ReverseBits64 x" x] by simp
qed

section \<open>Bit length\<close>

definition highest_inv :: "64 word \<Rightarrow> nat \<Rightarrow> 64 word \<times> nat \<Rightarrow> bool" where
  "highest_inv x0 m p \<longleftrightarrow> (case p of (x, r) \<Rightarrow> unat x = unat x0 div 2 ^ r \<and> 0 < unat x \<and> unat x < 2 ^ m)"

lemma unat_of_nat8: "n < 256 \<Longrightarrow> unat (of_nat n :: 8 word) = n"
  unfolding unsigned_of_nat by (simp add: take_bit_nat_eq_self)

lemma unat_of_nat32: "n < 2 ^ 32 \<Longrightarrow> unat (of_nat n :: 32 word) = n"
  unfolding unsigned_of_nat by (simp add: take_bit_nat_eq_self)

lemma unat_of_nat64: "n < 2 ^ 64 \<Longrightarrow> unat (of_nat n :: 64 word) = n"
  unfolding unsigned_of_nat by (simp add: take_bit_nat_eq_self)

lemma unat_drop_bit64: "unat (drop_bit i (x :: 64 word)) = unat x div 2 ^ i"
  unfolding unsigned_drop_bit_eq using unsigned_less [of x, where 'a = nat]
  by (simp add: drop_bit_eq_div take_bit_nat_eq_self)

lemma highest_step_inv: "highest_inv x0 (2 * k) p \<Longrightarrow> highest_inv x0 k (highest_step k p)"
proof -
  obtain x r where p: "p = (x, r)" by (cases p)
  assume inv: "highest_inv x0 (2 * k) p"
  then have x: "unat x = unat x0 div 2 ^ r" "0 < unat x" "unat x < 2 ^ k * 2 ^ k"
    by (simp_all add: highest_inv_def p mult_2 power_add)
  show ?thesis
  proof (cases "drop_bit k x = 0")
    case True
    then have "unat x < 2 ^ k" using unat_drop_bit_nonzero [of k x] by simp
    with True x show ?thesis by (simp add: highest_inv_def highest_step_def p)
  next
    case False
    then have "0 < unat (drop_bit k x)" by (simp add: unat_gt_0)
    moreover have "unat x div 2 ^ k < 2 ^ k" using x by (simp add: less_mult_imp_div_less)
    ultimately show ?thesis
      using False x unfolding highest_inv_def highest_step_def p
      by (simp add: unat_drop_bit64 power_add div_mult2_eq)
  qed
qed

lemma unat_word_of_int: "0 \<le> k \<Longrightarrow> k < 2 ^ LENGTH('a) \<Longrightarrow> unat (word_of_int k :: 'a::len word) = nat k"
  by (simp add: unsigned_of_int take_bit_int_eq_self)

lemma unat_sint: "0 \<le> sint v \<Longrightarrow> unat (v :: 64 word) = nat (sint v)"
  using unat_word_of_int [of "sint v", where 'a = 64] sint_range64 [of v] by simp

lemma unat_minus_sint: "sint v \<le> 0 \<Longrightarrow> unat (- v :: 64 word) = nat (- sint v)"
  using unat_word_of_int [of "- sint v", where 'a = 64] sint_range64 [of v] by simp

lemma top_digit:
  fixes u N r :: nat
  assumes "u * 2 ^ r \<le> N" and "N < (u + 1) * 2 ^ r" and "u = 1 \<or> u = 2 \<or> u = 3"
  shows "2 ^ (if 1 < u then r + 1 else r) \<le> N \<and> N < 2 * 2 ^ (if 1 < u then r + 1 else r)"
  using assms by auto

lemma HighestBit_bounds:
  assumes "v \<noteq> 0"
  shows "2 ^ HighestBit v \<le> nat \<bar>sint v\<bar> \<and> nat \<bar>sint v\<bar> < 2 * 2 ^ HighestBit v"
proof -
  let ?x0 = "if 0 < sint v then v else - v"
  have abs: "unat ?x0 = nat \<bar>sint v\<bar>"
    using unat_sint [of v] unat_minus_sint [of v] by simp
  have "sint v \<noteq> 0"
  proof
    assume "sint v = 0"
    moreover have "v = word_of_int (sint v)" by simp
    ultimately show False using assms by (simp only: of_int_0)
  qed
  then have "highest_inv ?x0 64 (?x0, 0)"
    using abs unsigned_less [of ?x0, where 'a = nat] by (simp add: highest_inv_def)
  then have "highest_inv ?x0 2 (highest_step 2 (highest_step 4 (highest_step 8 (highest_step 16
      (highest_step 32 (?x0, 0))))))"
    using highest_step_inv [of ?x0 32] highest_step_inv [of ?x0 16] highest_step_inv [of ?x0 8]
      highest_step_inv [of ?x0 4] highest_step_inv [of ?x0 2] by simp
  then obtain x r where s: "highest_step 2 (highest_step 4 (highest_step 8 (highest_step 16
      (highest_step 32 (?x0, 0))))) = (x, r)" and x: "unat x = nat \<bar>sint v\<bar> div 2 ^ r" "0 < unat x" "unat x < 4"
    unfolding highest_inv_def abs by (auto split: prod.splits)
  have hb: "HighestBit v = (if 1 < unat x then r + 1 else r)"
    unfolding HighestBit_def Let_def s by (simp add: word_less_nat_alt)
  have "unat x * 2 ^ r \<le> nat \<bar>sint v\<bar>" "nat \<bar>sint v\<bar> < (unat x + 1) * 2 ^ r"
    unfolding x(1) by (simp_all add: div_times_less_eq_dividend dividend_less_div_times)
  moreover from x have "unat x = 1 \<or> unat x = 2 \<or> unat x = 3" by linarith
  ultimately show ?thesis
    unfolding hb by (intro top_digit)
qed

lemma sint_not: "sint (NOT v) = - sint v - 1" for v :: "64 word"
proof -
  have "NOT v = word_of_int (- sint v - 1)" by (simp add: not_eq_complement)
  then show ?thesis using sint_of_int [of "- sint v - 1", where 'a = 64] sint_range64 [of v] by simp
qed

lemma sign_word: "signed_drop_bit 63 v = (if bit v 63 then - 1 else 0)" for v :: "64 word"
proof (rule bit_word_eqI)
  fix n
  assume "n < LENGTH(64)"
  then show "bit (signed_drop_bit 63 v) n \<longleftrightarrow> bit (if bit v 63 then - 1 else 0 :: 64 word) n"
    by (cases n) (simp_all add: bit_signed_drop_bit_iff)
qed

lemma BitLength_exact:
  "- (2 ^ BitLength v) \<le> sint v \<and> sint v < 2 ^ BitLength v \<and>
   (BitLength v = 0 \<or> 2 ^ (BitLength v - 1) \<le> sint v \<or> sint v < - (2 ^ (BitLength v - 1)))"
proof -
  let ?u = "v XOR signed_drop_bit 63 v"
  have "?u = (if 0 \<le> sint v then v else NOT v)"
    using bit_last_iff [of v] by (simp add: sign_word not_le)
  then have u: "sint ?u = (if 0 \<le> sint v then sint v else - sint v - 1)"
    by (simp add: sint_not)
  show ?thesis
  proof (cases "?u = 0")
    case True
    then have "BitLength v = 0" by (simp add: BitLength_def)
    moreover have "sint ?u = 0" using True by simp
    ultimately show ?thesis using u by (simp split: if_splits)
  next
    case False
    define n where "n = HighestBit ?u"
    define N where "N = nat \<bar>sint ?u\<bar>"
    have b: "BitLength v = n + 1" using False by (simp add: BitLength_def Let_def n_def)
    have "2 ^ n \<le> N" "N < 2 * 2 ^ n" using HighestBit_bounds [OF False] unfolding n_def N_def by auto
    moreover have "int N = sint ?u" using u unfolding N_def by (simp split: if_splits)
    ultimately have "2 ^ n \<le> sint ?u" "sint ?u < 2 * 2 ^ n"
      by (metis of_nat_le_iff of_nat_numeral of_nat_power)
         (metis \<open>N < 2 * 2 ^ n\<close> \<open>int N = sint ?u\<close> of_nat_less_iff of_nat_mult of_nat_numeral of_nat_power)
    then show ?thesis unfolding b u by (auto split: if_splits)
  qed
qed

end
