(* ===== verification/Arm64_Instr.thy ===== *)
theory Arm64_Instr
  imports Dart_Utils
begin

unbundle bit_operations_syntax

text \<open>
  \<open>runtime/vm/constants_arm64.h\<close>: the ARM64 instruction encoding as the assembler and the simulator
  of the virtual machine share it.  An instruction is its 32-bit word; registers are numbers (\<open>CSP\<close>
  and \<open>ZR\<close> both stand for the encoding 31).  \<open>op_mask\<close> and \<open>op_fixed\<close> are the constants that the
  macro \<open>IS_OP\<close> compares; the field accessors of class \<open>Instr\<close> follow.  Vector and floating-point
  fields are left out.
\<close>

section \<open>Registers, conditions, shifts\<close>

definition R31 :: nat where "R31 = 31"
definition CSP :: nat where "CSP = 32"
definition ZR :: nat where "ZR = 33"
definition TMP :: nat where "TMP = 16"
definition TMP2 :: nat where "TMP2 = 17"
definition LR :: nat where "LR = 30"
definition PP :: nat where "PP = 27"

definition ConcreteRegister :: "nat \<Rightarrow> nat" where
  "ConcreteRegister r = (if r = ZR \<or> r = CSP then R31 else r)"

datatype Condition =
  EQ | NE | CS | CC | MI | PL | VS | VC | HI | LS | GE | LT | GT | LE | AL | NV

definition conditions :: "Condition list" where
  "conditions = [EQ, NE, CS, CC, MI, PL, VS, VC, HI, LS, GE, LT, GT, LE, AL, NV]"

fun condition_code :: "Condition \<Rightarrow> nat" where
  "condition_code EQ = 0" | "condition_code NE = 1" | "condition_code CS = 2"
| "condition_code CC = 3" | "condition_code MI = 4" | "condition_code PL = 5"
| "condition_code VS = 6" | "condition_code VC = 7" | "condition_code HI = 8"
| "condition_code LS = 9" | "condition_code GE = 10" | "condition_code LT = 11"
| "condition_code GT = 12" | "condition_code LE = 13" | "condition_code AL = 14"
| "condition_code NV = 15"

text \<open>\<open>static_cast<Condition>\<close> of a four-bit field, and \<open>c ^ 1\<close>.\<close>

definition condition_of :: "nat \<Rightarrow> Condition" where
  "condition_of n = conditions ! (n mod 16)"

definition InvertCondition :: "Condition \<Rightarrow> Condition" where
  "InvertCondition c = condition_of (condition_code c XOR 1)"

datatype Shift = LSL | LSR | ASR | ROR

fun shift_code :: "Shift \<Rightarrow> nat" where
  "shift_code LSL = 0" | "shift_code LSR = 1" | "shift_code ASR = 2" | "shift_code ROR = 3"

definition shift_of :: "nat \<Rightarrow> Shift" where
  "shift_of n = [LSL, LSR, ASR, ROR] ! (n mod 4)"

datatype Extend = UXTB | UXTH | UXTW | UXTX | SXTB | SXTH | SXTW | SXTX

fun extend_code :: "Extend \<Rightarrow> nat" where
  "extend_code UXTB = 0" | "extend_code UXTH = 1" | "extend_code UXTW = 2" | "extend_code UXTX = 3"
| "extend_code SXTB = 4" | "extend_code SXTH = 5" | "extend_code SXTW = 6" | "extend_code SXTX = 7"

definition extend_of :: "nat \<Rightarrow> Extend" where
  "extend_of n = [UXTB, UXTH, UXTW, UXTX, SXTB, SXTH, SXTW, SXTX] ! (n mod 8)"

datatype R31Type = R31IsSP | R31IsZR

definition kXRegSizeInBits :: nat where "kXRegSizeInBits = 64"
definition kWRegSizeInBits :: nat where "kWRegSizeInBits = 32"
definition kXRegMask :: "64 word" where "kXRegMask = 0xffffffffffffffff"
definition kWRegMask :: "64 word" where "kWRegMask = 0x00000000ffffffff"

section \<open>Instruction classes\<close>

definition Bn :: "nat \<Rightarrow> 32 word" where
  "Bn n = push_bit n 1"

datatype op_class =
    DPImmediate | CompareBranch | LoadStore | DPRegister | DPSimd1 | DPSimd2
  | CompareAndBranch | ConditionalBranch | ExceptionGen | System | TestAndBranch
  | UnconditionalBranch | UnconditionalBranchReg
  | AddSubImm | Bitfield | LogicalImm | MoveWide | PCRel
  | AddSubShiftExt | AddSubWithCarry | ConditionalSelect
  | MiscDP1Source | MiscDP2Source | MiscDP3Source | LogicalShift
  | LoadRegLiteral | LoadStoreExclusive | AtomicMemory | LoadStoreReg | LoadStoreRegPair

fun op_mask :: "op_class \<Rightarrow> 32 word" where
  "op_mask DPImmediate = 0x1c000000"
| "op_mask CompareBranch = 0x1c000000"
| "op_mask LoadStore = Bn 27 OR Bn 25"
| "op_mask DPRegister = 0x0e000000"
| "op_mask DPSimd1 = 0x1e000000"
| "op_mask DPSimd2 = 0x1e000000"
| "op_mask CompareAndBranch = 0x7e000000"
| "op_mask ConditionalBranch = 0xfe000000"
| "op_mask ExceptionGen = 0xff000000"
| "op_mask System = 0xffc00000"
| "op_mask TestAndBranch = 0x7e000000"
| "op_mask UnconditionalBranch = 0x7c000000"
| "op_mask UnconditionalBranchReg = 0xfe000000"
| "op_mask AddSubImm = 0x1f000000"
| "op_mask Bitfield = 0x1f800000"
| "op_mask LogicalImm = 0x1f800000"
| "op_mask MoveWide = 0x1f800000"
| "op_mask PCRel = 0x1f000000"
| "op_mask AddSubShiftExt = 0x1f000000"
| "op_mask AddSubWithCarry = 0x1fe00000"
| "op_mask ConditionalSelect = 0x1fe00000"
| "op_mask MiscDP1Source = 0x5fe00000"
| "op_mask MiscDP2Source = 0x5fe00000"
| "op_mask MiscDP3Source = 0x1f000000"
| "op_mask LogicalShift = 0x1f000000"
| "op_mask LoadRegLiteral = 0x3b000000"
| "op_mask LoadStoreExclusive = 0x3f000000"
| "op_mask AtomicMemory = 0x3f200c00"
| "op_mask LoadStoreReg = 0x3a000000"
| "op_mask LoadStoreRegPair = 0x3a000000"

definition DPImmediateFixed :: "32 word" where "DPImmediateFixed = Bn 28"
definition CompareBranchFixed :: "32 word" where "CompareBranchFixed = Bn 28 OR Bn 26"
definition LoadStoreFixed :: "32 word" where "LoadStoreFixed = Bn 27"
definition DPRegisterFixed :: "32 word" where "DPRegisterFixed = Bn 27 OR Bn 25"
definition DPSimd1Fixed :: "32 word" where "DPSimd1Fixed = Bn 27 OR Bn 26 OR Bn 25"

fun op_fixed :: "op_class \<Rightarrow> 32 word" where
  "op_fixed DPImmediate = DPImmediateFixed"
| "op_fixed CompareBranch = CompareBranchFixed"
| "op_fixed LoadStore = LoadStoreFixed"
| "op_fixed DPRegister = DPRegisterFixed"
| "op_fixed DPSimd1 = DPSimd1Fixed"
| "op_fixed DPSimd2 = Bn 28 OR DPSimd1Fixed"
| "op_fixed CompareAndBranch = CompareBranchFixed OR Bn 29"
| "op_fixed ConditionalBranch = CompareBranchFixed OR Bn 30"
| "op_fixed ExceptionGen = CompareBranchFixed OR Bn 31 OR Bn 30"
| "op_fixed System = CompareBranchFixed OR Bn 31 OR Bn 30 OR Bn 24"
| "op_fixed TestAndBranch = CompareBranchFixed OR Bn 29 OR Bn 25"
| "op_fixed UnconditionalBranch = CompareBranchFixed"
| "op_fixed UnconditionalBranchReg = CompareBranchFixed OR Bn 31 OR Bn 30 OR Bn 25"
| "op_fixed AddSubImm = DPImmediateFixed OR Bn 24"
| "op_fixed Bitfield = 0x13000000"
| "op_fixed LogicalImm = DPImmediateFixed OR Bn 25"
| "op_fixed MoveWide = DPImmediateFixed OR Bn 25 OR Bn 23"
| "op_fixed PCRel = DPImmediateFixed"
| "op_fixed AddSubShiftExt = DPRegisterFixed OR Bn 24"
| "op_fixed AddSubWithCarry = DPRegisterFixed OR Bn 28"
| "op_fixed ConditionalSelect = DPRegisterFixed OR Bn 28 OR Bn 23"
| "op_fixed MiscDP1Source = DPRegisterFixed OR Bn 30 OR Bn 28 OR Bn 23 OR Bn 22"
| "op_fixed MiscDP2Source = DPRegisterFixed OR Bn 28 OR Bn 23 OR Bn 22"
| "op_fixed MiscDP3Source = DPRegisterFixed OR Bn 28 OR Bn 24"
| "op_fixed LogicalShift = DPRegisterFixed"
| "op_fixed LoadRegLiteral = LoadStoreFixed OR Bn 28"
| "op_fixed LoadStoreExclusive = Bn 27"
| "op_fixed AtomicMemory = Bn 29 OR Bn 28 OR Bn 27 OR Bn 21"
| "op_fixed LoadStoreReg = LoadStoreFixed OR Bn 29 OR Bn 28"
| "op_fixed LoadStoreRegPair = LoadStoreFixed OR Bn 29"

definition IsOp :: "op_class \<Rightarrow> 32 word \<Rightarrow> bool" where
  "IsOp c i \<longleftrightarrow> i AND op_mask c = op_fixed c AND op_mask c"

text \<open>The operation codes.\<close>

definition CBZ :: "32 word" where "CBZ = op_fixed CompareAndBranch"
definition CBNZ :: "32 word" where "CBNZ = op_fixed CompareAndBranch OR Bn 24"
definition BCOND :: "32 word" where "BCOND = op_fixed ConditionalBranch"
definition CLREX :: "32 word" where
  "CLREX = op_fixed System OR Bn 17 OR Bn 16 OR Bn 13 OR Bn 12 OR Bn 11 OR Bn 10 OR Bn 9 OR Bn 8 OR
     Bn 6 OR Bn 4 OR Bn 3 OR Bn 2 OR Bn 1 OR Bn 0"
definition B_op :: "32 word" where "B_op = op_fixed UnconditionalBranch"
definition BR :: "32 word" where
  "BR = op_fixed UnconditionalBranchReg OR Bn 20 OR Bn 19 OR Bn 18 OR Bn 17 OR Bn 16"
definition BLR :: "32 word" where "BLR = BR OR Bn 21"
definition RET :: "32 word" where "RET = BR OR Bn 22"
definition ADDI :: "32 word" where "ADDI = op_fixed AddSubImm"
definition SUBI :: "32 word" where "SUBI = op_fixed AddSubImm OR Bn 30"
definition SBFM :: "32 word" where "SBFM = op_fixed Bitfield"
definition BFM :: "32 word" where "BFM = op_fixed Bitfield OR Bn 29"
definition UBFM :: "32 word" where "UBFM = op_fixed Bitfield OR Bn 30"
definition Bitfield64 :: "32 word" where "Bitfield64 = Bn 31 OR Bn 22"
definition ANDI :: "32 word" where "ANDI = op_fixed LogicalImm"
definition ORRI :: "32 word" where "ORRI = op_fixed LogicalImm OR Bn 29"
definition EORI :: "32 word" where "EORI = op_fixed LogicalImm OR Bn 30"
definition ANDIS :: "32 word" where "ANDIS = op_fixed LogicalImm OR Bn 30 OR Bn 29"
definition MOVN :: "32 word" where "MOVN = op_fixed MoveWide"
definition MOVZ :: "32 word" where "MOVZ = op_fixed MoveWide OR Bn 30"
definition MOVK :: "32 word" where "MOVK = op_fixed MoveWide OR Bn 30 OR Bn 29"
definition ADD_op :: "32 word" where "ADD_op = op_fixed AddSubShiftExt"
definition SUB_op :: "32 word" where "SUB_op = op_fixed AddSubShiftExt OR Bn 30"
definition ADC :: "32 word" where "ADC = op_fixed AddSubWithCarry"
definition SBC :: "32 word" where "SBC = op_fixed AddSubWithCarry OR Bn 30"
definition CSEL :: "32 word" where "CSEL = op_fixed ConditionalSelect"
definition CSINC :: "32 word" where "CSINC = op_fixed ConditionalSelect OR Bn 10"
definition CSINV :: "32 word" where "CSINV = op_fixed ConditionalSelect OR Bn 30"
definition CSNEG :: "32 word" where "CSNEG = op_fixed ConditionalSelect OR Bn 10 OR Bn 30"
definition CLZ :: "32 word" where "CLZ = op_fixed MiscDP1Source OR Bn 12"
definition RBIT :: "32 word" where "RBIT = op_fixed MiscDP1Source"
definition UDIV :: "32 word" where "UDIV = op_fixed MiscDP2Source OR Bn 11"
definition SDIV :: "32 word" where "SDIV = op_fixed MiscDP2Source OR Bn 11 OR Bn 10"
definition LSLV :: "32 word" where "LSLV = op_fixed MiscDP2Source OR Bn 13"
definition LSRV :: "32 word" where "LSRV = op_fixed MiscDP2Source OR Bn 13 OR Bn 10"
definition ASRV :: "32 word" where "ASRV = op_fixed MiscDP2Source OR Bn 13 OR Bn 11"
definition MADD :: "32 word" where "MADD = op_fixed MiscDP3Source OR Bn 31"
definition MSUB :: "32 word" where "MSUB = op_fixed MiscDP3Source OR Bn 31 OR Bn 15"
definition SMULH :: "32 word" where "SMULH = op_fixed MiscDP3Source OR Bn 31 OR Bn 22"
definition UMULH :: "32 word" where "UMULH = op_fixed MiscDP3Source OR Bn 31 OR Bn 23 OR Bn 22"
definition AND_op :: "32 word" where "AND_op = op_fixed LogicalShift"
definition BIC :: "32 word" where "BIC = op_fixed LogicalShift OR Bn 21"
definition ORR :: "32 word" where "ORR = op_fixed LogicalShift OR Bn 29"
definition ORN :: "32 word" where "ORN = op_fixed LogicalShift OR Bn 29 OR Bn 21"
definition EOR :: "32 word" where "EOR = op_fixed LogicalShift OR Bn 30"
definition EON :: "32 word" where "EON = op_fixed LogicalShift OR Bn 30 OR Bn 21"
definition ANDS :: "32 word" where "ANDS = op_fixed LogicalShift OR Bn 30 OR Bn 29"
definition LDR :: "32 word" where "LDR = op_fixed LoadStoreReg OR Bn 22"
definition LDRS :: "32 word" where "LDRS = op_fixed LoadStoreReg OR Bn 23"
definition BICS :: "32 word" where "BICS = op_fixed LogicalShift OR Bn 30 OR Bn 29 OR Bn 21"

section \<open>Fields\<close>

definition Bit :: "32 word \<Rightarrow> nat \<Rightarrow> nat" where
  "Bit i nr = unat (drop_bit nr i AND 1)"

definition Bits :: "32 word \<Rightarrow> nat \<Rightarrow> nat \<Rightarrow> nat" where
  "Bits i shift count = unat (drop_bit shift i AND (push_bit count 1 - 1))"

definition NField :: "32 word \<Rightarrow> nat" where "NField i = Bit i 22"
definition SField :: "32 word \<Rightarrow> nat" where "SField i = Bit i 29"
definition SFField :: "32 word \<Rightarrow> nat" where "SFField i = Bit i 31"
definition SzField :: "32 word \<Rightarrow> nat" where "SzField i = Bits i 30 2"
definition RdField :: "32 word \<Rightarrow> nat" where "RdField i = Bits i 0 5"
definition RnField :: "32 word \<Rightarrow> nat" where "RnField i = Bits i 5 5"
definition RaField :: "32 word \<Rightarrow> nat" where "RaField i = Bits i 10 5"
definition RmField :: "32 word \<Rightarrow> nat" where "RmField i = Bits i 16 5"
definition RtField :: "32 word \<Rightarrow> nat" where "RtField i = Bits i 0 5"
definition Imm3Field :: "32 word \<Rightarrow> nat" where "Imm3Field i = Bits i 10 3"
definition Imm6Field :: "32 word \<Rightarrow> nat" where "Imm6Field i = Bits i 10 6"
definition Imm12Field :: "32 word \<Rightarrow> nat" where "Imm12Field i = Bits i 10 12"
definition Imm16Field :: "32 word \<Rightarrow> nat" where "Imm16Field i = Bits i 5 16"
definition HWField :: "32 word \<Rightarrow> nat" where "HWField i = Bits i 21 2"
definition ImmRField :: "32 word \<Rightarrow> nat" where "ImmRField i = Bits i 16 6"
definition ImmSField :: "32 word \<Rightarrow> nat" where "ImmSField i = Bits i 10 6"
definition Imm14Field :: "32 word \<Rightarrow> nat" where "Imm14Field i = Bits i 5 14"
definition Imm19Field :: "32 word \<Rightarrow> nat" where "Imm19Field i = Bits i 5 19"
definition Imm26Field :: "32 word \<Rightarrow> nat" where "Imm26Field i = Bits i 0 26"

text \<open>\<open>(static_cast<int32_t>(imm) << k) >> k\<close>, widened to 64 bits.\<close>

definition sign_extend_field :: "nat \<Rightarrow> nat \<Rightarrow> 64 word" where
  "sign_extend_field k imm = scast (signed_drop_bit k (push_bit k (of_nat imm :: 32 word)))"

definition SImm9Field :: "32 word \<Rightarrow> 64 word" where
  "SImm9Field i = sign_extend_field 23 (Bits i 12 9)"

definition SImm14Field :: "32 word \<Rightarrow> 64 word" where
  "SImm14Field i = sign_extend_field 18 (Imm14Field i)"

definition SImm19Field :: "32 word \<Rightarrow> 64 word" where
  "SImm19Field i = sign_extend_field 13 (Imm19Field i)"

definition SImm26Field :: "32 word \<Rightarrow> 64 word" where
  "SImm26Field i = sign_extend_field 6 (Imm26Field i)"

definition ConditionField :: "32 word \<Rightarrow> Condition" where
  "ConditionField i = condition_of (Bits i 0 4)"

definition SelectConditionField :: "32 word \<Rightarrow> Condition" where
  "SelectConditionField i = condition_of (Bits i 12 4)"

definition IsShift :: "32 word \<Rightarrow> bool" where
  "IsShift i \<longleftrightarrow> IsOp LogicalShift i \<or> Bit i 21 = 0"

definition IsExtend :: "32 word \<Rightarrow> bool" where
  "IsExtend i \<longleftrightarrow> \<not> IsOp LogicalShift i \<and> Bit i 21 = 1"

definition ShiftTypeField :: "32 word \<Rightarrow> Shift" where
  "ShiftTypeField i = shift_of (Bits i 22 2)"

definition ExtendTypeField :: "32 word \<Rightarrow> Extend" where
  "ExtendTypeField i = extend_of (Bits i 13 3)"

definition HasS :: "32 word \<Rightarrow> bool" where
  "HasS i \<longleftrightarrow> SField i = 1"

definition RdMode :: "32 word \<Rightarrow> R31Type" where
  "RdMode i =
     (if IsOp AddSubImm i \<or> (IsOp AddSubShiftExt i \<and> IsExtend i)
      then if HasS i then R31IsZR else R31IsSP
      else if IsOp LogicalImm i
      then let op = Bits i 29 2; set_flags = (op = 3) in if set_flags then R31IsZR else R31IsSP
      else R31IsZR)"

definition RnMode :: "32 word \<Rightarrow> R31Type" where
  "RnMode i =
     (if IsOp LoadStore i \<or> IsOp AddSubImm i \<or> (IsOp AddSubShiftExt i \<and> IsExtend i)
      then R31IsSP else R31IsZR)"

section \<open>Logical immediates\<close>

definition RotateRight :: "64 word \<Rightarrow> nat \<Rightarrow> nat \<Rightarrow> 64 word" where
  "RotateRight x rot width =
     (let right = rot mod 64; left = nat ((int width - int rot) mod 64)
      in push_bit left (x AND (push_bit right 1 - 1)) OR drop_bit right x)"

function repeat_loop :: "nat \<Rightarrow> nat \<Rightarrow> 64 word \<Rightarrow> 64 word" where
  "repeat_loop reg_size i result =
     (if i < reg_size \<and> 0 < i then repeat_loop reg_size (2 * i) (result OR push_bit i result) else result)"
  by auto
termination
  by (relation "measure (\<lambda>(reg_size, i, _). reg_size - i)") auto

definition RepeatBitsAcrossReg :: "nat \<Rightarrow> 64 word \<Rightarrow> nat \<Rightarrow> 64 word" where
  "RepeatBitsAcrossReg reg_size x width = repeat_loop reg_size width (x AND (push_bit width 1 - 1))"

function imm_logical_loop :: "nat \<Rightarrow> nat \<Rightarrow> nat \<Rightarrow> nat \<Rightarrow> 64 word" where
  "imm_logical_loop reg_size imm_s imm_r width =
     (if width < 2 then 0
      else if imm_s AND width = 0
      then let msk = width - 1
           in if imm_s AND msk = msk then 0
              else let bits = push_bit ((imm_s AND msk) + 1) 1 - 1
                   in RepeatBitsAcrossReg reg_size (RotateRight bits (imm_r AND msk) width) width
      else imm_logical_loop reg_size imm_s imm_r (width div 2))"
  by auto
termination
  by (relation "measure (\<lambda>(_, _, _, width). width)") auto

definition DecodeImmLogical :: "nat \<Rightarrow> nat \<Rightarrow> nat \<Rightarrow> nat \<Rightarrow> 64 word" where
  "DecodeImmLogical reg_size n imm_s imm_r =
     (if n = 1
      then if imm_s = 0x3f then 0
           else let bits = push_bit (imm_s + 1) 1 - 1 in RotateRight bits imm_r 64
      else if drop_bit 1 imm_s = 0x1f then 0
      else imm_logical_loop reg_size imm_s imm_r 0x20)"

definition ImmLogical :: "32 word \<Rightarrow> 64 word" where
  "ImmLogical i =
     (let reg_size = (if SFField i = 1 then kXRegSizeInBits else kWRegSizeInBits)
      in DecodeImmLogical reg_size (NField i) (ImmSField i) (ImmRField i))"

section \<open>Reading the fields of an assembled word\<close>

text \<open>An assembled instruction is the union of constants and of shifted field values.  The following
  rules let the simplifier compute every field and every class test of such a word.\<close>

named_theorems field_simps \<open>fields and classes of assembled instruction words\<close>

lemma Bits_eq: "Bits i s c = unat (take_bit c (drop_bit s i))"
  by (simp add: Bits_def take_bit_eq_mask mask_eq_exp_minus_1 flip: push_bit_of_1)

lemma Bit_eq [field_simps]: "Bit i n = Bits i n 1"
  by (simp add: Bit_def Bits_def)

lemma Bits_or [field_simps]: "Bits (x OR y) s c = Bits x s c OR Bits y s c"
  by (simp add: Bits_eq take_bit_or drop_bit_or unsigned_or_eq)

lemma Bits_below [field_simps]: "s + c \<le> k \<Longrightarrow> Bits (push_bit k x) s c = 0"
  by (simp add: Bits_eq) (auto simp: bit_eq_iff bit_simps)

lemma nat_high_bits: "bit (r :: nat) n \<Longrightarrow> r < 2 ^ w \<Longrightarrow> n < w"
  by (metis bit_take_bit_iff take_bit_nat_eq_self)

lemma Bits_above [field_simps]: "k \<le> s \<Longrightarrow> r < 2 ^ (s - k) \<Longrightarrow> Bits (push_bit k (of_nat r)) s c = 0"
  by (simp add: Bits_eq) (auto simp: bit_eq_iff bit_simps dest!: nat_high_bits)

lemma Bits_field [field_simps]:
  assumes "r < 2 ^ c" and "s + c \<le> 32"
  shows "Bits (push_bit s (of_nat r)) s c = r"
proof -
  have "r < 2 ^ 32" using assms power_increasing [of c 32 "2 :: nat"] by simp
  have "take_bit c (drop_bit s (push_bit s (of_nat r :: 32 word))) = of_nat r"
    using assms nat_high_bits [OF _ assms(1)] by (fastforce simp: bit_eq_iff bit_simps)
  then show ?thesis
    using \<open>r < 2 ^ 32\<close> by (simp add: Bits_eq unsigned_of_nat take_bit_nat_eq_self)
qed

lemma and_distrib_or: "(x OR y) AND m = (x AND m) OR (y AND m)" for x y m :: "32 word"
  by (rule bit.conj_disj_distrib2)

lemma field_and_mask:
  assumes "r < 2 ^ w" and "take_bit w (drop_bit k m) = 0"
  shows "push_bit k (of_nat r :: 32 word) AND m = 0"
proof (rule bit_word_eqI)
  fix n
  have "\<not> (k \<le> n \<and> n - k < w \<and> bit m n)"
  proof
    assume n: "k \<le> n \<and> n - k < w \<and> bit m n"
    then have "bit (take_bit w (drop_bit k m)) (n - k)" by (simp add: bit_simps)
    with assms(2) show False by simp
  qed
  then show "bit (push_bit k (of_nat r :: 32 word) AND m) n \<longleftrightarrow> bit (0 :: 32 word) n"
    using nat_high_bits [OF _ assms(1), of "n - k"] by (auto simp: bit_simps)
qed

lemmas field_masks [field_simps] =
  field_and_mask [where w = 1, simplified] field_and_mask [where w = 2, simplified]
  field_and_mask [where w = 3, simplified] field_and_mask [where w = 4, simplified]
  field_and_mask [where w = 5, simplified] field_and_mask [where w = 6, simplified]
  field_and_mask [where w = 12, simplified] field_and_mask [where w = 16, simplified]

lemma Bits_of_nat_above [field_simps]: "r < 2 ^ s \<Longrightarrow> Bits (of_nat r) s c = 0"
  using Bits_above [of 0 s r c] by simp

lemma Bits_of_nat_0 [field_simps]: "r < 2 ^ c \<Longrightarrow> c \<le> 32 \<Longrightarrow> Bits (of_nat r) 0 c = r"
  using Bits_field [of r c 0] by simp

lemmas low_field_masks [field_simps] =
  field_masks [of _ 0, simplified]

lemma Bits_numeral [field_simps]:
  "Bits (numeral n) s c = unat (take_bit c (drop_bit s (numeral n :: 32 word)))" "Bits 0 s c = 0"
  by (simp_all add: Bits_eq)

lemmas instr_fields = SzField_def NField_def SField_def SFField_def RdField_def RnField_def RaField_def RmField_def
  RtField_def Imm3Field_def Imm6Field_def Imm12Field_def Imm16Field_def HWField_def ImmRField_def
  ImmSField_def ConditionField_def SelectConditionField_def ShiftTypeField_def ExtendTypeField_def

lemma condition_of_code [simp]: "condition_of (condition_code c) = c"
  by (cases c) (simp_all add: condition_of_def conditions_def)

lemma condition_code_less [simp]: "16 \<le> n \<Longrightarrow> condition_code c < n"
  by (cases c) simp_all

lemma shift_of_code [simp]: "shift_of (shift_code sh) = sh"
  by (cases sh) (simp_all add: shift_of_def)

lemma shift_code_less [simp]: "4 \<le> n \<Longrightarrow> shift_code sh < n"
  by (cases sh) simp_all

lemma Bits_if [field_simps]: "Bits (if b then x else y) s c = (if b then Bits x s c else Bits y s c)"
  by simp

lemma and_if: "(if b then x else y) AND m = (if b then x AND m else y AND m)" for x y m :: "32 word"
  by simp

text \<open>An instruction of one class is of every wider class, and of no class with other fixed bits.\<close>

lemma IsOp_conflict:
  assumes "IsOp a i" and "op_fixed a AND op_mask a AND op_mask b \<noteq> op_fixed b AND op_mask b AND op_mask a"
  shows "\<not> IsOp b i"
proof
  assume "IsOp b i"
  then have "op_fixed a AND op_mask a AND op_mask b = (i AND op_mask a) AND op_mask b"
    and "op_fixed b AND op_mask b AND op_mask a = (i AND op_mask b) AND op_mask a"
    using assms(1) by (simp_all add: IsOp_def and.assoc)
  then show False using assms(2) by (simp add: ac_simps)
qed

lemma IsOp_wider:
  assumes "IsOp a i" and "op_mask a AND op_mask b = op_mask b"
    and "op_fixed a AND op_mask a AND op_mask b = op_fixed b AND op_mask b"
  shows "IsOp b i"
proof -
  have "i AND op_mask b = (i AND op_mask a) AND op_mask b" using assms(2) by (simp add: and.assoc)
  also have "\<dots> = op_fixed b AND op_mask b" using assms(1,3) by (simp add: IsOp_def) (simp add: and.assoc)
  finally show ?thesis by (simp add: IsOp_def)
qed

end
