(* ===== verification/Arm64_Simulator.thy ===== *)
theory Arm64_Simulator
  imports Arm64_Instr
begin

unbundle bit_operations_syntax

text \<open>
  \<open>runtime/vm/simulator_arm64.{h,cc}\<close>: the interpreter for ARM64 machine code, its integer and branch
  instructions.  The state is the register file (index 31 is the stack pointer; the zero register is
  not stored), the flags, the program counter and the exclusive monitor.  Every \<open>Decode\<close> method is a
  function from the instruction word and the state to the next state; stopping in the debugger
  (unimplemented instruction, unaligned stack pointer, illegal address) is the fault \<open>Unreachable\<close>,
  and a C++ shift by too many positions the fault \<open>BadShift\<close>.  Signed arithmetic wraps.

  The atomic, pair, literal and exclusive loads and stores, vector and floating-point instructions and
  the exception instructions are the parameter \<open>other\<close> of the dispatcher; instruction fetch is the
  parameter \<open>fetch\<close>.

  Shown: the flags and conditions of comparisons, and the shifted operands of 32-bit instructions
  (the logical right shift reads bits of the upper register half).
\<close>

section \<open>State\<close>

record sim =
  registers :: "nat \<Rightarrow> 64 word"
  n_flag :: bool
  z_flag :: bool
  c_flag :: bool
  v_flag :: bool
  pc :: "64 word"
  last_pc :: "64 word"
  pc_modified :: bool
  icount :: nat
  exclusive_access_addr :: "64 word"
  exclusive_access_value :: "64 word"
  memory :: "64 word \<Rightarrow> 8 word option"

definition unimplemented :: "'a exec" where
  "unimplemented = raise_fault Unreachable"

definition set_register :: "nat \<Rightarrow> 64 word \<Rightarrow> R31Type \<Rightarrow> sim \<Rightarrow> sim exec" where
  "set_register reg x r31t s =
     (if reg \<noteq> R31 \<or> r31t \<noteq> R31IsZR
      then if reg = R31 \<and> \<not> IsAligned x 16 0 then raise_fault Unreachable
           else ret (s\<lparr>registers := (registers s)(reg := x)\<rparr>)
      else ret s)"

definition get_register :: "nat \<Rightarrow> R31Type \<Rightarrow> sim \<Rightarrow> 64 word" where
  "get_register reg r31t s = (if reg = R31 \<and> r31t = R31IsZR then 0 else registers s reg)"

definition set_wregister :: "nat \<Rightarrow> 32 word \<Rightarrow> R31Type \<Rightarrow> sim \<Rightarrow> sim exec" where
  "set_wregister reg x r31t s =
     (if reg \<noteq> R31 \<or> r31t \<noteq> R31IsZR
      then ret (s\<lparr>registers := (registers s)(reg := LowHighTo64Bits x 0)\<rparr>)
      else ret s)"

definition get_wregister :: "nat \<Rightarrow> R31Type \<Rightarrow> sim \<Rightarrow> 32 word" where
  "get_wregister reg r31t s =
     (if reg = R31 \<and> r31t = R31IsZR then 0 else ucast (registers s reg))"

definition set_pc :: "64 word \<Rightarrow> sim \<Rightarrow> sim" where
  "set_pc x s = s\<lparr>pc_modified := True, last_pc := pc s, pc := x\<rparr>"

definition ClearExclusive :: "sim \<Rightarrow> sim" where
  "ClearExclusive s = s\<lparr>exclusive_access_addr := 0, exclusive_access_value := 0\<rparr>"

section \<open>Flags\<close>

definition SetNZFlagsW :: "32 word \<Rightarrow> sim \<Rightarrow> sim" where
  "SetNZFlagsW val s = s\<lparr>n_flag := val <s 0, z_flag := val = 0\<rparr>"

definition CarryFromW :: "32 word \<Rightarrow> 32 word \<Rightarrow> 32 word \<Rightarrow> bool" where
  "CarryFromW left right carry \<longleftrightarrow>
     drop_bit 32 (ucast left + ucast right + ucast carry :: 64 word) \<noteq> 0"

definition OverflowFromW :: "32 word \<Rightarrow> 32 word \<Rightarrow> 32 word \<Rightarrow> bool" where
  "OverflowFromW left right carry \<longleftrightarrow>
     (let result = scast left + scast right + scast carry :: 64 word
      in signed_drop_bit 31 result \<noteq> signed_drop_bit 32 result)"

definition SetNZFlagsX :: "64 word \<Rightarrow> sim \<Rightarrow> sim" where
  "SetNZFlagsX val s = s\<lparr>n_flag := val <s 0, z_flag := val = 0\<rparr>"

definition CarryFromX :: "64 word \<Rightarrow> 64 word \<Rightarrow> 64 word \<Rightarrow> bool \<Rightarrow> bool" where
  "CarryFromX alu_out left right addition =
     (if addition
      then signed_drop_bit 63 ((left AND right) OR ((left OR right) AND NOT alu_out)) \<noteq> 0
      else signed_drop_bit 63 ((NOT left AND right) OR ((NOT left OR right) AND alu_out)) = 0)"

definition OverflowFromX :: "64 word \<Rightarrow> 64 word \<Rightarrow> 64 word \<Rightarrow> bool \<Rightarrow> bool" where
  "OverflowFromX alu_out left right addition =
     (if addition
      then signed_drop_bit 63 ((alu_out XOR left) AND (alu_out XOR right)) \<noteq> 0
      else signed_drop_bit 63 ((left XOR right) AND (alu_out XOR left)) \<noteq> 0)"

definition SetCFlag :: "bool \<Rightarrow> sim \<Rightarrow> sim" where
  "SetCFlag val s = s\<lparr>c_flag := val\<rparr>"

definition SetVFlag :: "bool \<Rightarrow> sim \<Rightarrow> sim" where
  "SetVFlag val s = s\<lparr>v_flag := val\<rparr>"

definition ConditionallyExecute :: "32 word \<Rightarrow> sim \<Rightarrow> bool exec" where
  "ConditionallyExecute i s =
     (let cond = (if IsOp ConditionalSelect i then SelectConditionField i else ConditionField i)
      in case cond of
           EQ \<Rightarrow> ret (z_flag s)
         | NE \<Rightarrow> ret (\<not> z_flag s)
         | CS \<Rightarrow> ret (c_flag s)
         | CC \<Rightarrow> ret (\<not> c_flag s)
         | MI \<Rightarrow> ret (n_flag s)
         | PL \<Rightarrow> ret (\<not> n_flag s)
         | VS \<Rightarrow> ret (v_flag s)
         | VC \<Rightarrow> ret (\<not> v_flag s)
         | HI \<Rightarrow> ret (c_flag s \<and> \<not> z_flag s)
         | LS \<Rightarrow> ret (\<not> c_flag s \<or> z_flag s)
         | GE \<Rightarrow> ret (n_flag s = v_flag s)
         | LT \<Rightarrow> ret (n_flag s \<noteq> v_flag s)
         | GT \<Rightarrow> ret (\<not> z_flag s \<and> n_flag s = v_flag s)
         | LE \<Rightarrow> ret (z_flag s \<or> n_flag s \<noteq> v_flag s)
         | AL \<Rightarrow> ret True
         | NV \<Rightarrow> raise_fault Unreachable)"

section \<open>Data processing with immediates\<close>

definition DecodeMoveWide :: "32 word \<Rightarrow> sim \<Rightarrow> sim exec" where
  "DecodeMoveWide i s =
     (let rd = RdField i; hw = HWField i; shift = 16 * hw;
          shifted_imm = push_bit shift (of_nat (Imm16Field i)) :: 64 word
      in if SFField i \<noteq> 0
         then if Bits i 29 2 = 0 then set_register rd (NOT shifted_imm) (RdMode i) s
              else if Bits i 29 2 = 2 then set_register rd shifted_imm (RdMode i) s
              else if Bits i 29 2 = 3
              then let rd_val = get_register rd (RdMode i) s;
                       result = (rd_val AND NOT (push_bit shift 0xffff)) OR shifted_imm
                   in set_register rd result (RdMode i) s
              else unimplemented
         else if hw AND 0x2 = 0
         then if Bits i 29 2 = 0
              then set_wregister rd (ucast (NOT shifted_imm AND kWRegMask)) (RdMode i) s
              else if Bits i 29 2 = 2
              then set_wregister rd (ucast (shifted_imm AND kWRegMask)) (RdMode i) s
              else if Bits i 29 2 = 3
              then let rd_val = get_wregister rd (RdMode i) s;
                       result = ucast ((scast rd_val AND NOT (push_bit shift 0xffff)) OR shifted_imm)
                   in set_wregister rd result (RdMode i) s
              else unimplemented
         else unimplemented)"

definition set_flags_x :: "64 word \<Rightarrow> 64 word \<Rightarrow> 64 word \<Rightarrow> bool \<Rightarrow> sim \<Rightarrow> sim" where
  "set_flags_x alu_out left right addition s =
     SetVFlag (OverflowFromX alu_out left right addition)
       (SetCFlag (CarryFromX alu_out left right addition) (SetNZFlagsX alu_out s))"

definition set_flags_w :: "32 word \<Rightarrow> 32 word \<Rightarrow> 32 word \<Rightarrow> 32 word \<Rightarrow> sim \<Rightarrow> sim" where
  "set_flags_w alu_out left right carry_in s =
     SetVFlag (OverflowFromW left right carry_in)
       (SetCFlag (CarryFromW left right carry_in) (SetNZFlagsW alu_out s))"

definition DecodeAddSubImm :: "32 word \<Rightarrow> sim \<Rightarrow> sim exec" where
  "DecodeAddSubImm i s =
     (let addition = (Bit i 30 = 0); rd = RdField i; rn = RnField i;
          imm = (if Bit i 22 = 1 then push_bit 12 (of_nat (Imm12Field i))
                 else of_nat (Imm12Field i)) :: 32 word
      in if SFField i \<noteq> 0
         then let rn_val = get_register rn (RnMode i) s;
                  alu_out = (if addition then rn_val + ucast imm else rn_val - ucast imm)
              in ebind (set_register rd alu_out (RdMode i) s) (\<lambda>s.
                 ret (if HasS i then set_flags_x alu_out rn_val (ucast imm) addition s else s))
         else let rn_val = get_wregister rn (RnMode i) s;
                  (carry_in, imm) = (if \<not> addition then (1, NOT imm) else (0, imm));
                  alu_out = rn_val + imm + carry_in
              in ebind (set_wregister rd alu_out (RdMode i) s) (\<lambda>s.
                 ret (if HasS i then set_flags_w alu_out rn_val imm carry_in s else s)))"

definition bitfield_mask :: "nat \<Rightarrow> nat \<Rightarrow> nat \<Rightarrow> 64 word" where
  "bitfield_mask bitwidth r_bit s_bit =
     (let msk = NBitMask (s_bit + 1)
      in if r_bit \<le> s_bit then drop_bit r_bit msk else push_bit (bitwidth - r_bit) msk)"

definition DecodeBitfield :: "32 word \<Rightarrow> sim \<Rightarrow> sim exec" where
  "DecodeBitfield i s =
     (let bitwidth = (if SFField i = 0 then 32 else 64);
          op = Bits i 29 2; sign_extend = (op = 0); zero_extend = (op = 2);
          rn = RnField i; rd = RdField i;
          result = get_register rn (RnMode i) s AND NBitMask bitwidth;
          r_bit = ImmRField i; s_bit = ImmSField i;
          msk = bitfield_mask bitwidth r_bit s_bit
      in if s_bit < r_bit \<and> bitwidth < r_bit then raise_fault BadShift
         else let result = (if r_bit \<le> s_bit then signed_drop_bit r_bit result
                            else push_bit (bitwidth - r_bit) result);
                  result = result AND msk;
                  result =
                    (if sign_extend
                     then let highest_bit = nat ((int s_bit - int r_bit) mod int bitwidth);
                              shift = 64 - highest_bit - 1
                          in signed_drop_bit shift (push_bit shift result)
                     else if \<not> zero_extend
                     then result OR (get_register rd (RnMode i) s AND NOT msk)
                     else result)
              in if bitwidth = 64 then set_register rd result (RdMode i) s
                 else set_wregister rd (ucast result) (RdMode i) s)"

definition DecodeLogicalImm :: "32 word \<Rightarrow> sim \<Rightarrow> sim exec" where
  "DecodeLogicalImm i s =
     (let op = Bits i 29 2; set_flags = (op = 3);
          out_size = (if SFField i = 0 \<and> NField i = 0 then kWRegSizeInBits else kXRegSizeInBits);
          rn = RnField i; rd = RdField i;
          rn_val = get_register rn (RnMode i) s;
          imm = ImmLogical i
      in if imm = 0 then unimplemented
         else let alu_out = (if op = 0 then rn_val AND imm
                             else if op = 1 then rn_val OR imm
                             else if op = 2 then rn_val XOR imm
                             else rn_val AND imm);
                  s = (if set_flags
                       then SetVFlag False (SetCFlag False
                              (if out_size = kXRegSizeInBits then SetNZFlagsX alu_out s
                               else SetNZFlagsW (ucast alu_out) s))
                       else s)
              in if out_size = kXRegSizeInBits then set_register rd alu_out (RdMode i) s
                 else set_wregister rd (ucast alu_out) (RdMode i) s)"

definition DecodePCRel :: "32 word \<Rightarrow> sim \<Rightarrow> sim exec" where
  "DecodePCRel i s =
     (if Bit i 31 = 0
      then let rd = RdField i; immhi = SImm19Field i; immlo = of_nat (Bits i 29 2);
               off = push_bit 2 immhi OR immlo; dest = pc s + off
           in set_register rd dest (RdMode i) s
      else unimplemented)"

definition DecodeDPImmediate :: "32 word \<Rightarrow> sim \<Rightarrow> sim exec" where
  "DecodeDPImmediate i s =
     (if IsOp MoveWide i then DecodeMoveWide i s
      else if IsOp AddSubImm i then DecodeAddSubImm i s
      else if IsOp Bitfield i then DecodeBitfield i s
      else if IsOp LogicalImm i then DecodeLogicalImm i s
      else if IsOp PCRel i then DecodePCRel i s
      else unimplemented)"

section \<open>Branches and system instructions\<close>

definition DecodeCompareAndBranch :: "32 word \<Rightarrow> sim \<Rightarrow> sim exec" where
  "DecodeCompareAndBranch i s =
     (let op = Bit i 24; rt = RtField i; imm19 = SImm19Field i; dest = pc s + push_bit 2 imm19;
          msk = (if SFField i = 1 then kXRegMask else kWRegMask);
          rt_val = get_register rt R31IsZR s AND msk
      in if op = 0 then ret (if rt_val = 0 then set_pc dest s else s)
         else ret (if rt_val \<noteq> 0 then set_pc dest s else s))"

definition DecodeConditionalBranch :: "32 word \<Rightarrow> sim \<Rightarrow> sim exec" where
  "DecodeConditionalBranch i s =
     (if Bit i 24 \<noteq> 0 \<or> Bit i 4 \<noteq> 0 then unimplemented
      else let imm19 = SImm19Field i; dest = pc s + push_bit 2 imm19
           in ebind (ConditionallyExecute i s) (\<lambda>taken. ret (if taken then set_pc dest s else s)))"

definition DecodeSystem :: "32 word \<Rightarrow> sim \<Rightarrow> sim exec" where
  "DecodeSystem i s =
     (if i = CLREX then ret (ClearExclusive s)
      else if Bits i 0 8 = 0x1f \<and> Bits i 12 4 = 2 \<and> Bits i 16 3 = 3 \<and> Bits i 19 2 = 0 \<and> Bit i 21 = 0
      then if Bits i 8 4 = 0 then ret s else unimplemented
      else unimplemented)"

definition DecodeTestAndBranch :: "32 word \<Rightarrow> sim \<Rightarrow> sim exec" where
  "DecodeTestAndBranch i s =
     (let op = Bit i 24; bitpos = Bits i 19 5 OR push_bit 5 (Bit i 31);
          imm14 = SImm14Field i; dest = pc s + push_bit 2 imm14;
          rt = RtField i; rt_val = get_register rt R31IsZR s
      in if op = 0 then ret (if rt_val AND push_bit bitpos 1 = 0 then set_pc dest s else s)
         else ret (if rt_val AND push_bit bitpos 1 \<noteq> 0 then set_pc dest s else s))"

definition DecodeUnconditionalBranch :: "32 word \<Rightarrow> sim \<Rightarrow> sim exec" where
  "DecodeUnconditionalBranch i s =
     (let link = (Bit i 31 = 1); imm26 = SImm26Field i; dest = pc s + push_bit 2 imm26;
          ret_addr = pc s + 4; s = set_pc dest s
      in if link then set_register LR ret_addr R31IsSP s else ret s)"

definition DecodeUnconditionalBranchReg :: "32 word \<Rightarrow> sim \<Rightarrow> sim exec" where
  "DecodeUnconditionalBranchReg i s =
     (if Bits i 0 5 = 0 \<and> Bits i 10 6 = 0 \<and> Bits i 16 5 = 0x1f
      then if Bits i 21 4 = 0
           then let rn = RnField i; dest = get_register rn (RnMode i) s in ret (set_pc dest s)
           else if Bits i 21 4 = 1
           then let rn = RnField i; dest = get_register rn (RnMode i) s; ret_addr = pc s + 4
                in set_register LR ret_addr R31IsSP (set_pc dest s)
           else if Bits i 21 4 = 2
           then let rn = RnField i; rn_val = get_register rn (RnMode i) s in ret (set_pc rn_val s)
           else unimplemented
      else unimplemented)"

definition DecodeCompareBranch ::
    "(32 word \<Rightarrow> sim \<Rightarrow> sim exec) \<Rightarrow> 32 word \<Rightarrow> sim \<Rightarrow> sim exec" where
  "DecodeCompareBranch other i s =
     (if IsOp CompareAndBranch i then DecodeCompareAndBranch i s
      else if IsOp ConditionalBranch i then DecodeConditionalBranch i s
      else if IsOp ExceptionGen i then other i s
      else if IsOp System i then DecodeSystem i s
      else if IsOp TestAndBranch i then DecodeTestAndBranch i s
      else if IsOp UnconditionalBranch i then DecodeUnconditionalBranch i s
      else if IsOp UnconditionalBranchReg i then DecodeUnconditionalBranchReg i s
      else unimplemented)"

section \<open>Data processing with registers\<close>

text \<open>A rotation of a 32-bit register by more than 32 positions is a reserved encoding (an invalid C++
  shift); the subtraction below then yields 0.\<close>

definition ShiftOperand :: "nat \<Rightarrow> 64 word \<Rightarrow> Shift \<Rightarrow> nat \<Rightarrow> 64 word" where
  "ShiftOperand reg_size x shift_type amount =
     (if amount = 0 then x
      else let msk = (if reg_size = kXRegSizeInBits then kXRegMask else kWRegMask)
           in case shift_type of
                LSL \<Rightarrow> push_bit amount x AND msk
              | LSR \<Rightarrow> drop_bit amount x
              | ASR \<Rightarrow> (let s_shift = kXRegSizeInBits - reg_size;
                            s_value = signed_drop_bit s_shift (push_bit s_shift x)
                        in signed_drop_bit amount s_value AND msk)
              | ROR \<Rightarrow> (let x = (if reg_size = kWRegSizeInBits then x AND kWRegMask else x)
                        in drop_bit amount x OR
                           push_bit (reg_size - amount) (x AND (push_bit amount 1 - 1))))"

definition ExtendOperand :: "nat \<Rightarrow> 64 word \<Rightarrow> Extend \<Rightarrow> nat \<Rightarrow> 64 word" where
  "ExtendOperand reg_size x extend_type amount =
     (let x = (case extend_type of
                 UXTB \<Rightarrow> x AND 0xff
               | UXTH \<Rightarrow> x AND 0xffff
               | UXTW \<Rightarrow> x AND 0xffffffff
               | SXTB \<Rightarrow> signed_drop_bit 56 (push_bit 56 x)
               | SXTH \<Rightarrow> signed_drop_bit 48 (push_bit 48 x)
               | SXTW \<Rightarrow> signed_drop_bit 32 (push_bit 32 x)
               | UXTX \<Rightarrow> x
               | SXTX \<Rightarrow> x);
          msk = (if reg_size = kXRegSizeInBits then kXRegMask else kWRegMask)
      in push_bit amount x AND msk)"

definition DecodeShiftExtendOperand :: "32 word \<Rightarrow> sim \<Rightarrow> 64 word" where
  "DecodeShiftExtendOperand i s =
     (let rm = RmField i; rm_val = get_register rm R31IsZR s;
          size = (if SFField i \<noteq> 0 then kXRegSizeInBits else kWRegSizeInBits)
      in if IsShift i then ShiftOperand size rm_val (ShiftTypeField i) (Imm6Field i)
         else ExtendOperand size rm_val (ExtendTypeField i) (Imm3Field i))"

definition DecodeAddSubShiftExt :: "32 word \<Rightarrow> sim \<Rightarrow> sim exec" where
  "DecodeAddSubShiftExt i s =
     (let addition = (Bit i 30 = 0); rd = RdField i; rn = RnField i;
          rm_val = DecodeShiftExtendOperand i s
      in if SFField i \<noteq> 0
         then let rn_val = get_register rn (RnMode i) s;
                  alu_out = rn_val + (if addition then rm_val else - rm_val)
              in ebind (set_register rd alu_out (RdMode i) s) (\<lambda>s.
                 ret (if HasS i then set_flags_x alu_out rn_val rm_val addition s else s))
         else let rn_val = get_wregister rn (RnMode i) s;
                  rm_val32 = ucast (rm_val AND kWRegMask) :: 32 word;
                  (carry_in, rm_val32) = (if \<not> addition then (1, NOT rm_val32) else (0, rm_val32));
                  alu_out = rn_val + rm_val32 + carry_in
              in ebind (set_wregister rd alu_out (RdMode i) s) (\<lambda>s.
                 ret (if HasS i then set_flags_w alu_out rn_val rm_val32 carry_in s else s)))"

definition DecodeAddSubWithCarry :: "32 word \<Rightarrow> sim \<Rightarrow> sim exec" where
  "DecodeAddSubWithCarry i s =
     (let addition = (Bit i 30 = 0); rd = RdField i; rn = RnField i; rm = RmField i;
          rn_val64 = get_register rn R31IsZR s; rn_val32 = get_wregister rn R31IsZR s;
          rm_val64 = get_register rm R31IsZR s; rm_val32 = get_wregister rm R31IsZR s;
          carry_in = (if c_flag s then 1 else 0) :: 32 word
      in if SFField i \<noteq> 0
         then let alu_out = rn_val64 + (if addition then rm_val64 else NOT rm_val64) + ucast carry_in
              in ebind (set_register rd alu_out R31IsZR s) (\<lambda>s.
                 ret (if HasS i then set_flags_x alu_out rn_val64 rm_val64 addition s else s))
         else let rm_val32 = (if \<not> addition then NOT rm_val32 else rm_val32);
                  alu_out = rn_val32 + rm_val32 + carry_in
              in ebind (set_wregister rd alu_out R31IsZR s) (\<lambda>s.
                 ret (if HasS i then set_flags_w alu_out rn_val32 rm_val32 carry_in s else s)))"

definition DecodeLogicalShift :: "32 word \<Rightarrow> sim \<Rightarrow> sim exec" where
  "DecodeLogicalShift i s =
     (let op = push_bit 1 (Bits i 29 2) OR Bit i 21; rd = RdField i; rn = RnField i;
          rn_val = get_register rn (RnMode i) s;
          rm_val = DecodeShiftExtendOperand i s;
          alu_out = (if op = 0 then rn_val AND rm_val
                     else if op = 1 then rn_val AND NOT rm_val
                     else if op = 2 then rn_val OR rm_val
                     else if op = 3 then rn_val OR NOT rm_val
                     else if op = 4 then rn_val XOR rm_val
                     else if op = 5 then rn_val XOR NOT rm_val
                     else if op = 6 then rn_val AND rm_val
                     else rn_val AND NOT rm_val);
          s = (if op = 6 \<or> op = 7
               then SetVFlag False (SetCFlag False
                      (if SFField i = 1 then SetNZFlagsX alu_out s else SetNZFlagsW (ucast alu_out) s))
               else s)
      in if SFField i = 1 then set_register rd alu_out (RdMode i) s
         else set_wregister rd (ucast (alu_out AND kWRegMask)) (RdMode i) s)"

definition divide64 :: "64 word \<Rightarrow> 64 word \<Rightarrow> bool \<Rightarrow> 64 word" where
  "divide64 num bottom is_signed =
     (if bottom = 0 then 0
      else if is_signed
      then if num = 0x8000000000000000 \<and> bottom = 0xffffffffffffffff then 0x8000000000000000
           else word_of_int (tdiv (sint num) (sint bottom))
      else num div bottom)"

definition divide32 :: "32 word \<Rightarrow> 32 word \<Rightarrow> bool \<Rightarrow> 32 word" where
  "divide32 num bottom is_signed =
     (if bottom = 0 then 0
      else if is_signed
      then if num = 0x80000000 \<and> bottom = 0xffffffff then 0x80000000
           else word_of_int (tdiv (sint num) (sint bottom))
      else num div bottom)"

definition DecodeMiscDP1Source :: "32 word \<Rightarrow> sim \<Rightarrow> sim exec" where
  "DecodeMiscDP1Source i s =
     (if Bit i 29 \<noteq> 0 then unimplemented
      else let rd = RdField i; rn = RnField i; op = Bits i 10 10;
               rn_val64 = get_register rn R31IsZR s; rn_val32 = get_wregister rn R31IsZR s
           in if op = 4
              then if SFField i = 1
                   then set_register rd (of_nat (CountLeadingZeros rn_val64)) R31IsZR s
                   else set_wregister rd (of_nat (CountLeadingZeros rn_val32)) R31IsZR s
              else if op = 0
              then if SFField i = 1 then set_register rd (ReverseBits64 rn_val64) R31IsZR s
                   else set_wregister rd (ReverseBits32 rn_val32) R31IsZR s
              else unimplemented)"

text \<open>The variable shifts of 32-bit registers take the amount modulo 64, as the code does; an amount of
  at least 32 is an invalid C++ shift.\<close>

definition shift32 :: "(nat \<Rightarrow> 32 word) \<Rightarrow> 32 word \<Rightarrow> nat \<Rightarrow> sim \<Rightarrow> sim exec" where
  "shift32 f rm_val32 rd s =
     (let amount = unat (rm_val32 AND 63)
      in if 32 \<le> amount then raise_fault BadShift else set_wregister rd (f amount) R31IsZR s)"

definition DecodeMiscDP2Source :: "32 word \<Rightarrow> sim \<Rightarrow> sim exec" where
  "DecodeMiscDP2Source i s =
     (if Bit i 29 \<noteq> 0 then unimplemented
      else let rd = RdField i; rn = RnField i; rm = RmField i; op = Bits i 10 5;
               rn_val64 = get_register rn R31IsZR s; rm_val64 = get_register rm R31IsZR s;
               rn_val32 = get_wregister rn R31IsZR s; rm_val32 = get_wregister rm R31IsZR s
           in if op = 2 \<or> op = 3
              then let is_signed = (Bit i 10 = 1)
                   in if SFField i = 1
                      then set_register rd (divide64 rn_val64 rm_val64 is_signed) R31IsZR s
                      else set_wregister rd (divide32 rn_val32 rm_val32 is_signed) R31IsZR s
              else if op = 8
              then if SFField i = 1
                   then set_register rd (push_bit (unat (rm_val64 AND 63)) rn_val64) R31IsZR s
                   else shift32 (\<lambda>k. push_bit k rn_val32) rm_val32 rd s
              else if op = 9
              then if SFField i = 1
                   then set_register rd (drop_bit (unat (rm_val64 AND 63)) rn_val64) R31IsZR s
                   else shift32 (\<lambda>k. drop_bit k rn_val32) rm_val32 rd s
              else if op = 10
              then if SFField i = 1
                   then set_register rd (signed_drop_bit (unat (rm_val64 AND 63)) rn_val64) R31IsZR s
                   else shift32 (\<lambda>k. signed_drop_bit k rn_val32) rm_val32 rd s
              else unimplemented)"

definition DecodeMiscDP3Source :: "32 word \<Rightarrow> sim \<Rightarrow> sim exec" where
  "DecodeMiscDP3Source i s =
     (let rd = RdField i; rn = RnField i; rm = RmField i; ra = RaField i;
          x = \<lambda>r. get_register r R31IsZR s; w = \<lambda>r. get_wregister r R31IsZR s
      in if Bits i 29 2 = 0 \<and> Bits i 21 3 = 0 \<and> Bit i 15 = 0
         then if SFField i = 1 then set_register rd (x ra + x rn * x rm) R31IsZR s
              else set_wregister rd (w ra + w rn * w rm) R31IsZR s
         else if Bits i 29 2 = 0 \<and> Bits i 21 3 = 0 \<and> Bit i 15 = 1
         then if SFField i = 1 then set_register rd (x ra - x rn * x rm) R31IsZR s
              else set_wregister rd (w ra - w rn * w rm) R31IsZR s
         else if Bits i 29 3 = 4 \<and> Bits i 21 3 = 2 \<and> Bit i 15 = 0
         then set_register rd (word_of_int (drop_bit 64 (sint (x rn) * sint (x rm)))) R31IsZR s
         else if Bits i 29 3 = 4 \<and> Bits i 21 3 = 6 \<and> Bit i 15 = 0
         then set_register rd (word_of_int (drop_bit 64 (uint (x rn) * uint (x rm)))) R31IsZR s
         else if Bits i 29 3 = 4 \<and> Bit i 15 = 0
         then if Bits i 21 3 = 5
              then set_register rd (x ra + ucast (w rn) * ucast (w rm)) R31IsZR s
              else set_register rd (x ra + scast (w rn) * scast (w rm)) R31IsZR s
         else unimplemented)"

definition DecodeConditionalSelect :: "32 word \<Rightarrow> sim \<Rightarrow> sim exec" where
  "DecodeConditionalSelect i s =
     (let rd = RdField i; rn = RnField i; rm = RmField i;
          rm_val64 = get_register rm R31IsZR s; rm_val32 = get_wregister rm R31IsZR s;
          rn_val64 = get_register rn (RnMode i) s; rn_val32 = get_wregister rn (RnMode i) s;
          select = \<lambda>else64 else32.
            ebind (ConditionallyExecute i s) (\<lambda>c.
              if SFField i = 1 then set_register rd (if c then rn_val64 else else64) (RdMode i) s
              else set_wregister rd (if c then rn_val32 else else32) (RdMode i) s)
      in if Bits i 29 2 = 0 \<and> Bits i 10 2 = 0 then select rm_val64 rm_val32
         else if Bits i 29 2 = 0 \<and> Bits i 10 2 = 1 then select (rm_val64 + 1) (rm_val32 + 1)
         else if Bits i 29 2 = 2 \<and> Bits i 10 2 = 0 then select (NOT rm_val64) (NOT rm_val32)
         else if Bits i 29 2 = 2 \<and> Bits i 10 2 = 1 then select (- rm_val64) (- rm_val32)
         else unimplemented)"

definition DecodeDPRegister :: "32 word \<Rightarrow> sim \<Rightarrow> sim exec" where
  "DecodeDPRegister i s =
     (if IsOp AddSubShiftExt i then DecodeAddSubShiftExt i s
      else if IsOp AddSubWithCarry i then DecodeAddSubWithCarry i s
      else if IsOp LogicalShift i then DecodeLogicalShift i s
      else if IsOp MiscDP1Source i then DecodeMiscDP1Source i s
      else if IsOp MiscDP2Source i then DecodeMiscDP2Source i s
      else if IsOp MiscDP3Source i then DecodeMiscDP3Source i s
      else if IsOp ConditionalSelect i then DecodeConditionalSelect i s
      else unimplemented)"

section \<open>Loads and stores\<close>

definition IsIllegalAddress :: "64 word \<Rightarrow> bool" where
  "IsIllegalAddress addr \<longleftrightarrow> addr < 64 * 1024"

definition FLAG_sim_allow_unaligned_accesses :: bool where
  "FLAG_sim_allow_unaligned_accesses = True"

text \<open>The host memory, byte by byte in little-endian order; a byte that is not mapped is out of bounds.\<close>

primrec LoadUnaligned :: "nat \<Rightarrow> 64 word \<Rightarrow> sim \<Rightarrow> 64 word exec" where
  "LoadUnaligned 0 addr s = ret 0"
| "LoadUnaligned (Suc n) addr s =
     (case memory s addr of
        None \<Rightarrow> raise_fault OutOfBounds
      | Some b \<Rightarrow> ebind (LoadUnaligned n (addr + 1) s) (\<lambda>high. ret (ucast b OR push_bit 8 high)))"

primrec StoreUnaligned :: "nat \<Rightarrow> 64 word \<Rightarrow> 64 word \<Rightarrow> sim \<Rightarrow> sim exec" where
  "StoreUnaligned 0 addr x s = ret s"
| "StoreUnaligned (Suc n) addr x s =
     (case memory s addr of
        None \<Rightarrow> raise_fault OutOfBounds
      | Some _ \<Rightarrow> StoreUnaligned n (addr + 1) (drop_bit 8 x) (s\<lparr>memory := (memory s)(addr \<mapsto> ucast x)\<rparr>))"

text \<open>\<open>ReadBU\<close>, \<open>ReadHU\<close>, \<open>ReadWU\<close> and \<open>ReadX\<close> read 1, 2, 4 and 8 bytes; the signed variants extend the
  sign of what these read.\<close>

definition ReadU :: "nat \<Rightarrow> 64 word \<Rightarrow> sim \<Rightarrow> 64 word exec" where
  "ReadU n addr s =
     (if FLAG_sim_allow_unaligned_accesses \<or> addr AND (of_nat n - 1) = 0 then LoadUnaligned n addr s
      else raise_fault Unreachable)"

definition WriteU :: "nat \<Rightarrow> 64 word \<Rightarrow> 64 word \<Rightarrow> sim \<Rightarrow> sim exec" where
  "WriteU n addr x s =
     (if FLAG_sim_allow_unaligned_accesses \<or> addr AND (of_nat n - 1) = 0 then StoreUnaligned n addr x s
      else raise_fault Unreachable)"

text \<open>The address of a load or store and the address to write back to the base register, if any; no
  address for a reserved encoding.\<close>

definition load_store_address :: "32 word \<Rightarrow> sim \<Rightarrow> (64 word \<times> 64 word option) option" where
  "load_store_address i s =
     (let rn_val = get_register (RnField i) R31IsSP s; size = SzField i
      in if Bit i 24 = 1
         then Some (rn_val + ucast (push_bit size (of_nat (Imm12Field i)) :: 32 word), None)
         else if Bits i 10 2 = 0 then Some (rn_val + SImm9Field i, None)
         else if Bit i 10 = 1
         then if Bit i 11 = 1 then Some (rn_val + SImm9Field i, Some (rn_val + SImm9Field i))
              else Some (rn_val, Some (rn_val + SImm9Field i))
         else if Bits i 10 2 = 2
         then let ext = ExtendTypeField i;
                  scale = (if ext = UXTX \<and> Bit i 12 = 1 then size else 0);
                  rm_val = get_register (RmField i) R31IsZR s
              in Some (rn_val + ExtendOperand kXRegSizeInBits rm_val ext scale, None)
         else None)"

text \<open>Loads and stores of the vector registers (bit 26) are the parameter \<open>other\<close>.\<close>

definition DecodeLoadStoreReg ::
    "(32 word \<Rightarrow> sim \<Rightarrow> sim exec) \<Rightarrow> 32 word \<Rightarrow> sim \<Rightarrow> sim exec" where
  "DecodeLoadStoreReg other i s =
     (if Bit i 26 = 1 then other i s
      else let rn = RnField i; rt = RtField i; size = SzField i
           in case load_store_address i s of
                None \<Rightarrow> unimplemented
              | Some (address, wb) \<Rightarrow>
                  if IsIllegalAddress address then raise_fault Unreachable
                  else ebind
                    (if Bits i 22 2 = 0
                     then WriteU (2 ^ size) address
                            (if size = 3 then get_register rt R31IsZR s else ucast (get_wregister rt R31IsZR s)) s
                     else if size = 3 \<and> Bits i 22 2 = 3 then unimplemented
                     else
                       (let is_signed = (Bit i 23 = 1);
                            use_w = (is_signed \<and> Bit i 22 = 1) \<or> (\<not> is_signed \<and> size = 2)
                        in ebind (ReadU (2 ^ size) address s) (\<lambda>val.
                           let val = (if is_signed then signed_take_bit (8 * 2 ^ size - 1) val else val)
                           in if use_w then set_wregister rt (ucast val) R31IsZR s
                              else set_register rt val R31IsZR s)))
                    (\<lambda>s. case wb of None \<Rightarrow> ret s | Some wb_address \<Rightarrow> set_register rn wb_address R31IsSP s))"

definition DecodeLoadStore ::
    "(32 word \<Rightarrow> sim \<Rightarrow> sim exec) \<Rightarrow> 32 word \<Rightarrow> sim \<Rightarrow> sim exec" where
  "DecodeLoadStore other i s =
     (if IsOp AtomicMemory i then other i s
      else if IsOp LoadStoreReg i then DecodeLoadStoreReg other i s
      else if IsOp LoadStoreRegPair i then other i s
      else if IsOp LoadRegLiteral i then other i s
      else if IsOp LoadStoreExclusive i then other i s
      else unimplemented)"

section \<open>The execution loop\<close>

definition InstructionDecode ::
    "(32 word \<Rightarrow> sim \<Rightarrow> sim exec) \<Rightarrow> 32 word \<Rightarrow> sim \<Rightarrow> sim exec" where
  "InstructionDecode other i s =
     (let instr = pc s; s = s\<lparr>pc_modified := False\<rparr>
      in ebind (if IsOp DPImmediate i then DecodeDPImmediate i s
                else if IsOp CompareBranch i then DecodeCompareBranch other i s
                else if IsOp LoadStore i then DecodeLoadStore other i s
                else if IsOp DPRegister i then DecodeDPRegister i s
                else if IsOp DPSimd1 i then other i s
                else if IsOp DPSimd2 i then other i s
                else unimplemented)
           (\<lambda>s. ret (if \<not> pc_modified s then set_pc (instr + 4) s else s)))"

definition kEndSimulatingPC :: "64 word" where
  "kEndSimulatingPC = - 2"

text \<open>Fetching from an address without code reads memory out of bounds.\<close>

definition Execute_step ::
    "(32 word \<Rightarrow> sim \<Rightarrow> sim exec) \<Rightarrow> (64 word \<Rightarrow> 32 word option) \<Rightarrow> sim \<Rightarrow> sim exec" where
  "Execute_step other fetch s =
     (let s = s\<lparr>icount := icount s + 1\<rparr>
      in if IsIllegalAddress (pc s) then raise_fault Unreachable
         else case fetch (pc s) of
                None \<Rightarrow> raise_fault OutOfBounds
              | Some i \<Rightarrow> InstructionDecode other i s)"

partial_function (option) Execute ::
    "(32 word \<Rightarrow> sim \<Rightarrow> sim exec) \<Rightarrow> (64 word \<Rightarrow> 32 word option) \<Rightarrow> sim \<Rightarrow> sim exec" where
  "Execute other fetch s =
     (if pc s = kEndSimulatingPC then ret s
      else ebind (Execute_step other fetch s) (\<lambda>s'. Execute other fetch s'))"

section \<open>The flags\<close>

lemmas uint_range64 = unsigned_less [where 'a = int and 'b = 64, simplified] uint_nonnegative [where 'a = 64]

lemma uint_cases64: "uint (x :: 64 word) = (if sint x < 0 then sint x + 2 ^ 64 else sint x)"
proof -
  have "uint x = sint x mod 2 ^ 64"
    using unsigned_of_int [of "sint x", where 'b = 64 and 'a = int] by (simp add: take_bit_eq_mod)
  moreover have "sint x mod 2 ^ 64 = (sint x + 2 ^ 64) mod 2 ^ 64" by simp
  ultimately show ?thesis
    using sint_range64 [of x] by (auto simp del: mod_add_self2)
qed

lemma top_bit64: "bit (x :: 64 word) 63 \<longleftrightarrow> 2 ^ 63 \<le> uint x"
  using bit_last_iff [of x] sint_range64 [of x] uint_cases64 [of x] by auto

lemma sint_uint64: "sint (x :: 64 word) = (if 2 ^ 63 \<le> uint x then uint x - 2 ^ 64 else uint x)"
  using sint_range64 [of x] uint_cases64 [of x] by auto

lemma uint_obtain64:
  obtains n where "uint (x :: 64 word) = n" "0 \<le> n" "n < 2 ^ 64"
  using uint_range64 [of x] by simp

lemma carry_bits:
  "CarryFromX a l r True \<longleftrightarrow> (bit l 63 \<and> bit r 63) \<or> ((bit l 63 \<or> bit r 63) \<and> \<not> bit a 63)"
  "CarryFromX a l r False \<longleftrightarrow> \<not> ((\<not> bit l 63 \<and> bit r 63) \<or> ((\<not> bit l 63 \<or> bit r 63) \<and> bit a 63))"
  by (simp_all add: CarryFromX_def sign_word bit_simps)

lemma overflow_bits:
  "OverflowFromX a l r True \<longleftrightarrow> bit a 63 \<noteq> bit l 63 \<and> bit a 63 \<noteq> bit r 63"
  "OverflowFromX a l r False \<longleftrightarrow> bit l 63 \<noteq> bit r 63 \<and> bit a 63 \<noteq> bit l 63"
  by (auto simp: OverflowFromX_def sign_word bit_simps)

lemmas uint_arith64 = uint_plus_if' [where 'a = 64, simplified] uint_sub_if' [where 'a = 64, simplified]

lemma CarryFromX_add: "CarryFromX (l + r) l r True \<longleftrightarrow> 2 ^ 64 \<le> uint l + uint r"
proof -
  obtain L where L: "uint l = L" and l: "0 \<le> L" "L < 2 ^ 64" by (rule uint_obtain64)
  obtain R where R: "uint r = R" and r: "0 \<le> R" "R < 2 ^ 64" by (rule uint_obtain64)
  show ?thesis
    using l r unfolding carry_bits top_bit64 uint_arith64 L R by auto
qed

lemma CarryFromX_sub: "CarryFromX (l - r) l r False \<longleftrightarrow> r \<le> l"
proof -
  obtain L where L: "uint l = L" and l: "0 \<le> L" "L < 2 ^ 64" by (rule uint_obtain64)
  obtain R where R: "uint r = R" and r: "0 \<le> R" "R < 2 ^ 64" by (rule uint_obtain64)
  show ?thesis
    using l r unfolding carry_bits top_bit64 uint_arith64 word_le_def L R by auto
qed

lemma OverflowFromX_add:
  "OverflowFromX (l + r) l r True \<longleftrightarrow> sint l + sint r < - (2 ^ 63) \<or> 2 ^ 63 \<le> sint l + sint r"
proof -
  obtain L where L: "uint l = L" and l: "0 \<le> L" "L < 2 ^ 64" by (rule uint_obtain64)
  obtain R where R: "uint r = R" and r: "0 \<le> R" "R < 2 ^ 64" by (rule uint_obtain64)
  show ?thesis
    using l r unfolding overflow_bits top_bit64 uint_arith64 sint_uint64 L R by auto
qed

lemma OverflowFromX_sub:
  "OverflowFromX (l - r) l r False \<longleftrightarrow> sint l - sint r < - (2 ^ 63) \<or> 2 ^ 63 \<le> sint l - sint r"
proof -
  obtain L where L: "uint l = L" and l: "0 \<le> L" "L < 2 ^ 64" by (rule uint_obtain64)
  obtain R where R: "uint r = R" and r: "0 \<le> R" "R < 2 ^ 64" by (rule uint_obtain64)
  show ?thesis
    using l r unfolding overflow_bits top_bit64 uint_arith64 sint_uint64 L R by auto
qed

text \<open>The signed order of two words from the sign and the overflow of their difference.\<close>

lemma signed_order_from_diff:
  fixes l r :: "'a::len word"
  shows "(l - r <s 0) \<noteq> (sint l - sint r < - (2 ^ (LENGTH('a) - 1)) \<or> 2 ^ (LENGTH('a) - 1) \<le> sint l - sint r)
         \<longleftrightarrow> l <s r"
proof -
  define P :: int where "P = 2 ^ (LENGTH('a) - 1)"
  have w: "(2 :: int) ^ LENGTH('a) = 2 * P" unfolding P_def by (simp flip: power_Suc)
  have z: "(word_of_int (2 * P) :: 'a word) = 0"
    unfolding w [symmetric] by simp
  have shift: "l - r = word_of_int (sint l - sint r + 2 * P)" "l - r = word_of_int (sint l - sint r - 2 * P)"
    using z by simp_all
  have sh: "- P \<le> sint l" "sint l < P" "- P \<le> sint r" "sint r < P"
    using sint_range [of l] sint_range [of r] unfolding P_def by auto
  have of: "- P \<le> k \<Longrightarrow> k < P \<Longrightarrow> sint (word_of_int k :: 'a word) = k" for k
    using sint_of_int [of k, where 'a = 'a] unfolding P_def by simp
  consider "sint l - sint r < - P" | "P \<le> sint l - sint r" | "- P \<le> sint l - sint r" "sint l - sint r < P"
    by linarith
  then have "(sint (l - r) < 0) \<noteq> (sint l - sint r < - P \<or> P \<le> sint l - sint r) \<longleftrightarrow> sint l < sint r"
  proof cases
    case 1
    then have "sint (l - r) = sint l - sint r + 2 * P" unfolding shift(1) using sh by (intro of) auto
    with 1 sh show ?thesis by auto
  next
    case 2
    then have "sint (l - r) = sint l - sint r - 2 * P" unfolding shift(2) using sh by (intro of) auto
    with 2 sh show ?thesis by auto
  next
    case 3
    then have "sint (l - r) = sint l - sint r" using sint_diff_self [of l r] unfolding P_def by simp
    with 3 show ?thesis by auto
  qed
  then show ?thesis unfolding word_sless_alt P_def by simp
qed

lemma sint_scast_sum:
  "sint (scast l + scast r + scast c :: 64 word) = sint l + sint r + sint c" for l r c :: "32 word"
proof -
  have r: "- (2 ^ 31) \<le> sint x" "sint x < 2 ^ 31" for x :: "32 word"
    using sint_range [of x] by simp_all
  have sc: "sint (scast x :: 64 word) = sint x" for x :: "32 word"
    by (simp add: sint_up_scast is_up)
  have 1: "sint (scast l + scast r :: 64 word) = sint l + sint r"
    using sint_add_self [of "scast l :: 64 word" "scast r"] r [of l] r [of r] by (simp add: sc)
  then show ?thesis
    using sint_add_self [of "scast l + scast r :: 64 word" "scast c"] r [of l] r [of r] r [of c]
    by (simp add: sc)
qed

lemma shift_31_32:
  assumes "- (2 ^ 32) \<le> sint x" and "sint x < 2 ^ 32"
  shows "signed_drop_bit 31 x \<noteq> signed_drop_bit 32 (x :: 64 word) \<longleftrightarrow>
         sint x < - (2 ^ 31) \<or> 2 ^ 31 \<le> sint x"
proof -
  have "signed_drop_bit 31 x = signed_drop_bit 32 x \<longleftrightarrow> sint x div 2 ^ 31 = sint x div 2 ^ 32"
    by (simp add: word_eq_iff_signed [where 'a = int] sint_signed_drop_bit_eq drop_bit_eq_div)
  moreover have "k div 2 ^ 31 \<noteq> k div 2 ^ 32 \<longleftrightarrow> k < - (2 ^ 31) \<or> 2 ^ 31 \<le> k"
    if "- (2 ^ 32) \<le> k" "k < 2 ^ 32" for k :: int
  proof -
    have q: "k div 2 ^ 32 = (k div 2 ^ 31) div 2"
      by (simp flip: zdiv_zmult2_eq)
    have "- 2 \<le> k div 2 ^ 31" "k div 2 ^ 31 < 2"
      using that by (simp_all add: zle_div_iff zdiv_lt_iff)
    then have "k div 2 ^ 31 = - 2 \<or> k div 2 ^ 31 = - 1 \<or> k div 2 ^ 31 = 0 \<or> k div 2 ^ 31 = 1"
      by linarith
    moreover have "k < - (2 ^ 31) \<longleftrightarrow> k div 2 ^ 31 < - 1" "2 ^ 31 \<le> k \<longleftrightarrow> 1 \<le> k div 2 ^ 31"
      by (simp_all add: zle_div_iff zdiv_lt_iff)
    ultimately show ?thesis unfolding q by auto
  qed
  ultimately show ?thesis
    using assms by blast
qed

lemma OverflowFromW_sub:
  "OverflowFromW l (NOT r) 1 \<longleftrightarrow> sint l - sint r < - (2 ^ 31) \<or> 2 ^ 31 \<le> sint l - sint r"
proof -
  have r: "- (2 ^ 31) \<le> sint x" "sint x < 2 ^ 31" for x :: "32 word"
    using sint_range [of x] by simp_all
  have "sint (NOT r) = - sint r - 1"
  proof -
    have "NOT r = word_of_int (- sint r - 1)" by (simp add: not_eq_complement)
    then show ?thesis using sint_of_int [of "- sint r - 1", where 'a = 32] r [of r] by simp
  qed
  then have "sint (scast l + scast (NOT r) + scast (1 :: 32 word) :: 64 word) = sint l - sint r"
    using sint_scast_sum [of l "NOT r" 1] by simp
  then show ?thesis
    using shift_31_32 [of "scast l + scast (NOT r) + scast (1 :: 32 word)"] r [of l] r [of r]
    by (simp add: OverflowFromW_def Let_def)
qed

lemma CarryFromW_sub: "CarryFromW l (NOT r) 1 \<longleftrightarrow> r \<le> l"
proof -
  have lt: "unat x < 2 ^ 32" for x :: "32 word" using unsigned_less [of x, where 'a = nat] by simp
  have "unat (r + NOT r) = 2 ^ 32 - 1"
    by (simp add: not_eq_complement unsigned_minus_1_eq_mask mask_eq_exp_minus_1)
  then have n: "unat (NOT r) = 2 ^ 32 - 1 - unat r"
    using lt [of r] lt [of "NOT r"] unat_word_ariths(1) [of r "NOT r"] by (simp add: mod_if split: if_splits)
  have "unat (ucast l + ucast (NOT r) + ucast (1 :: 32 word) :: 64 word) = unat l + unat (NOT r) + 1"
    using lt [of l] lt [of r] n by (simp add: unat_word_ariths unsigned_ucast_eq take_bit_nat_eq_self)
  then show ?thesis
    using lt [of l] lt [of r] n unfolding CarryFromW_def unat_drop_bit_nonzero word_le_nat_alt by auto
qed

definition compare :: "Condition \<Rightarrow> 'a::len word \<Rightarrow> 'a word \<Rightarrow> bool" where
  "compare c l r =
     (let overflow = sint l - sint r < - (2 ^ (LENGTH('a) - 1)) \<or> 2 ^ (LENGTH('a) - 1) \<le> sint l - sint r
      in case c of
           EQ \<Rightarrow> l = r | NE \<Rightarrow> l \<noteq> r | CS \<Rightarrow> r \<le> l | CC \<Rightarrow> l < r
         | MI \<Rightarrow> l - r <s 0 | PL \<Rightarrow> \<not> l - r <s 0 | VS \<Rightarrow> overflow | VC \<Rightarrow> \<not> overflow
         | HI \<Rightarrow> r < l | LS \<Rightarrow> l \<le> r | GE \<Rightarrow> r \<le>s l | LT \<Rightarrow> l <s r | GT \<Rightarrow> r <s l | LE \<Rightarrow> l \<le>s r
         | AL \<Rightarrow> True | NV \<Rightarrow> False)"

definition instr_condition :: "32 word \<Rightarrow> Condition" where
  "instr_condition i = (if IsOp ConditionalSelect i then SelectConditionField i else ConditionField i)"

lemma condition_from_flags:
  fixes l r :: "'a::len word"
  assumes "instr_condition i \<noteq> NV"
    and "n_flag s \<longleftrightarrow> l - r <s 0" and "z_flag s \<longleftrightarrow> l - r = 0" and "c_flag s \<longleftrightarrow> r \<le> l"
    and "v_flag s \<longleftrightarrow> sint l - sint r < - (2 ^ (LENGTH('a) - 1)) \<or> 2 ^ (LENGTH('a) - 1) \<le> sint l - sint r"
  shows "ConditionallyExecute i s = ret (compare (instr_condition i) l r)"
proof -
  have lt: "n_flag s \<noteq> v_flag s \<longleftrightarrow> l <s r"
    using signed_order_from_diff [of l r] assms(2,5) by simp
  have o: "r \<le>s l \<longleftrightarrow> \<not> l <s r" "r <s l \<longleftrightarrow> l \<noteq> r \<and> \<not> l <s r" "l \<le>s r \<longleftrightarrow> l = r \<or> l <s r"
    by (auto simp: word_sle_eq word_sless_alt word_eq_iff_signed [where 'a = int])
  have u: "l < r \<longleftrightarrow> \<not> r \<le> l" "r < l \<longleftrightarrow> r \<le> l \<and> l \<noteq> r" "l \<le> r \<longleftrightarrow> \<not> r \<le> l \<or> l = r"
    by auto
  show ?thesis
    using assms(1) lt
    by (cases "instr_condition i")
       (auto simp: ConditionallyExecute_def compare_def Let_def assms(2-5) o u simp flip: instr_condition_def)
qed

text \<open>C27.  Comparing two registers and testing a condition agree with the mathematical comparison.
  After the flags of a subtraction have been set, 64-bit or 32-bit, every condition code (all but the
  reserved NV) is evaluated to the comparison of the two operands that it stands for: equality, the
  unsigned orders, the signed orders, sign and overflow of the difference.\<close>

theorem condition_flags_correct:
  assumes "instr_condition i \<noteq> NV"
  shows "ConditionallyExecute i (set_flags_x (l - r) l r False s) = ret (compare (instr_condition i) l r) \<and>
         ConditionallyExecute i (set_flags_w (l' + NOT r' + 1) l' (NOT r') 1 s) = ret (compare (instr_condition i) l' r')"
proof
  show "ConditionallyExecute i (set_flags_x (l - r) l r False s) = ret (compare (instr_condition i) l r)"
    using assms
    by (intro condition_from_flags)
       (simp_all add: set_flags_x_def SetVFlag_def SetCFlag_def SetNZFlagsX_def CarryFromX_sub OverflowFromX_sub)
  have d: "l' + NOT r' + 1 = l' - r'" by (simp add: not_eq_complement)
  show "ConditionallyExecute i (set_flags_w (l' + NOT r' + 1) l' (NOT r') 1 s) = ret (compare (instr_condition i) l' r')"
    using assms unfolding d
    by (intro condition_from_flags)
       (simp_all add: set_flags_w_def SetVFlag_def SetCFlag_def SetNZFlagsW_def CarryFromW_sub OverflowFromW_sub)
qed

definition demo_sim :: sim where
  "demo_sim = \<lparr>registers = (\<lambda>_. 0), n_flag = False, z_flag = False, c_flag = False, v_flag = False,
     pc = 0x20000, last_pc = 0, pc_modified = False, icount = 0,
     exclusive_access_addr = 0, exclusive_access_value = 0, memory = (\<lambda>_. None)\<rparr>"

lemmas op_consts [simp] = DPImmediateFixed_def CompareBranchFixed_def LoadStoreFixed_def
  DPRegisterFixed_def DPSimd1Fixed_def Bn_def

theorem condition_flags_correct_witness:
  "instr_condition 0x5400000b = LT \<and>
   ConditionallyExecute 0x5400000b (set_flags_x (1 - 2) 1 2 False demo_sim) = ret (compare LT (1 :: 64 word) 2) \<and>
   ConditionallyExecute 0x5400000b (set_flags_w (1 + NOT 2 + 1) 1 (NOT 2) 1 demo_sim) = ret (compare LT (1 :: 32 word) 2)"
proof -
  have "instr_condition 0x5400000b = LT"
    by (simp add: instr_condition_def IsOp_def ConditionField_def Bits_def condition_of_def conditions_def)
  then show ?thesis
    using condition_flags_correct [where i = "0x5400000b" and l = 1 and r = 2 and s = demo_sim and l' = 1 and r' = 2]
    by (simp only:) simp
qed

section \<open>Shifted operands of 32-bit instructions\<close>

lemma bit_wmask: "bit kWRegMask n \<longleftrightarrow> n < 32"
proof -
  have m: "kWRegMask = mask 32" by (simp add: kWRegMask_def mask_eq_exp_minus_1)
  show ?thesis unfolding m by (subst bit_mask_iff) auto
qed

lemma bit_exp_minus_1: "k \<le> LENGTH('a) \<Longrightarrow> bit (2 ^ k - 1 :: 'a::len word) n \<longleftrightarrow> n < k"
proof -
  assume "k \<le> LENGTH('a)"
  moreover have "(2 ^ k - 1 :: 'a word) = mask k" by (simp add: mask_eq_exp_minus_1)
  ultimately show ?thesis by (auto simp: bit_mask_iff)
qed

text \<open>C28.  Shifted register operands of 32-bit instructions.  For every shift amount from 1 to 31 the
  left shift, the arithmetic right shift and the rotation depend on the low half of the register
  only, as they must; the logical right shift is right only if the bits just above the low half are
  zero, because the simulator forgets to mask the register.\<close>

theorem shift_operand_32:
  assumes "0 < k" and "k < 32"
  shows "ucast (ShiftOperand 32 x LSL k) = push_bit k (ucast x :: 32 word) \<and>
         ucast (ShiftOperand 32 x ASR k) = signed_drop_bit k (ucast x :: 32 word) \<and>
         ucast (ShiftOperand 32 x ROR k) = word_rotr k (ucast x :: 32 word) \<and>
         (ucast (ShiftOperand 32 x LSR k) = drop_bit k (ucast x :: 32 word) \<longleftrightarrow>
          take_bit k (drop_bit 32 x) = 0)"
proof (intro conjI)
  note sizes = kXRegSizeInBits_def kWRegSizeInBits_def
  show "ucast (ShiftOperand 32 x LSL k) = push_bit k (ucast x :: 32 word)"
    using assms by (intro bit_word_eqI) (auto simp: ShiftOperand_def sizes bit_simps bit_wmask)
  show "ucast (ShiftOperand 32 x ASR k) = signed_drop_bit k (ucast x :: 32 word)"
    using assms by (intro bit_word_eqI) (auto simp: ShiftOperand_def sizes bit_simps bit_wmask)
  show "ucast (ShiftOperand 32 x ROR k) = word_rotr k (ucast x :: 32 word)"
  proof (rule bit_word_eqI)
    fix n
    assume "n < LENGTH(32)"
    then have n: "n < 32" by simp
    have "(n + k) mod 32 = (if n + k < 32 then n + k else n + k - 32)" using n assms by (simp add: mod_if)
    then show "bit (ucast (ShiftOperand 32 x ROR k) :: 32 word) n \<longleftrightarrow> bit (word_rotr k (ucast x :: 32 word)) n"
      using n assms bit_exp_minus_1 [of k "n + k - 32", where 'a = 64]
      by (auto simp: ShiftOperand_def sizes bit_simps bit_wmask bit_word_rotr_iff ac_simps)
  qed
  have sh: "ShiftOperand 32 x LSR k = drop_bit k x" using assms by (simp add: ShiftOperand_def)
  show "ucast (ShiftOperand 32 x LSR k) = drop_bit k (ucast x :: 32 word) \<longleftrightarrow> take_bit k (drop_bit 32 x) = 0"
  proof
    assume eq: "ucast (ShiftOperand 32 x LSR k) = drop_bit k (ucast x :: 32 word)"
    have "\<not> bit x (32 + j)" if "j < k" for j
    proof -
      have "bit (ucast (drop_bit k x) :: 32 word) (32 - k + j) \<longleftrightarrow> bit (drop_bit k (ucast x :: 32 word)) (32 - k + j)"
        using eq unfolding sh by simp
      then show ?thesis using that assms by (simp add: bit_simps)
    qed
    then show "take_bit k (drop_bit 32 x) = 0"
      by (intro bit_word_eqI) (auto simp: bit_simps)
  next
    assume z: "take_bit k (drop_bit 32 x) = 0"
    have high: "k + n < 32" if "n < 32" "bit x (k + n)" for n
    proof -
      have "\<not> bit (take_bit k (drop_bit 32 x)) (k + n - 32)" unfolding z by simp
      then show ?thesis using that by (cases "k + n < 32") (simp_all add: bit_simps)
    qed
    show "ucast (ShiftOperand 32 x LSR k) = drop_bit k (ucast x :: 32 word)"
      unfolding sh by (intro bit_word_eqI) (auto simp: bit_simps dest: high)
  qed
qed

theorem shift_operand_32_witness:
  "ucast (ShiftOperand 32 0x100000000 LSL 4) = push_bit 4 (ucast (0x100000000 :: 64 word) :: 32 word) \<and>
   ucast (ShiftOperand 32 0x100000000 LSR 4) \<noteq> drop_bit 4 (ucast (0x100000000 :: 64 word) :: 32 word)"
  using shift_operand_32 [of 4 "0x100000000"] by simp

end
