(* ===== verification/Arm64_Assembler.thy ===== *)
theory Arm64_Assembler
  imports Arm64_Simulator
begin

unbundle bit_operations_syntax

text \<open>
  \<open>runtime/vm/compiler/assembler/assembler_arm64.{h,cc}\<close>: the encoders of the integer and branch
  instructions and the macros that load and use arbitrary constants.  An \<open>Emit\<close> method is the
  instruction word it appends to the code buffer; a macro is the list of words it appends.  The
  \<open>ASSERT\<close>s on operands are the predicate \<open>valid\<close> of the theory \<open>Arm64_Exec\<close>.  The index that the object
  pool builder gives to a constant (\<open>ObjectPoolBuilder::FindImmediate\<close>) is the parameter
  \<open>find_immediate\<close>.
\<close>

section \<open>Operands\<close>

datatype OperandSize =
    kByte | kUnsignedByte | kTwoBytes | kUnsignedTwoBytes | kFourBytes | kUnsignedFourBytes | kEightBytes

datatype OperandType = Shifted | Extended | Immediate | BitfieldImm | Unknown

record Operand =
  op_encoding :: "32 word"
  op_type :: OperandType

definition Rd_enc :: "nat \<Rightarrow> 32 word" where "Rd_enc r = push_bit 0 (of_nat (ConcreteRegister r))"
definition Rm_enc :: "nat \<Rightarrow> 32 word" where "Rm_enc r = push_bit 16 (of_nat (ConcreteRegister r))"
definition Rn_enc :: "nat \<Rightarrow> 32 word" where "Rn_enc r = push_bit 5 (of_nat (ConcreteRegister r))"
definition Ra_enc :: "nat \<Rightarrow> 32 word" where "Ra_enc r = push_bit 10 (of_nat (ConcreteRegister r))"
definition Rt_enc :: "nat \<Rightarrow> 32 word" where "Rt_enc r = push_bit 0 (of_nat (ConcreteRegister r))"

definition Operand_reg :: "nat \<Rightarrow> Operand" where
  "Operand_reg rm = \<lparr>op_encoding = Rm_enc rm, op_type = Shifted\<rparr>"

definition Operand_shift :: "nat \<Rightarrow> Shift \<Rightarrow> nat \<Rightarrow> Operand" where
  "Operand_shift rm shift imm =
     \<lparr>op_encoding = push_bit 10 (of_nat imm) OR Rm_enc rm OR push_bit 22 (of_nat (shift_code shift)),
      op_type = Shifted\<rparr>"

definition Operand_extend :: "nat \<Rightarrow> Extend \<Rightarrow> nat \<Rightarrow> Operand" where
  "Operand_extend rm ext imm =
     \<lparr>op_encoding = Bn 21 OR Rm_enc rm OR push_bit 13 (of_nat (extend_code ext)) OR
        push_bit 10 (of_nat (imm AND 0x7)),
      op_type = Extended\<rparr>"

definition Operand_imm :: "32 word \<Rightarrow> Operand" where
  "Operand_imm imm =
     \<lparr>op_encoding = (if IsUint_signed 12 imm then push_bit 10 imm
        else Bn 22 OR push_bit 10 (signed_drop_bit 12 imm)),
      op_type = Immediate\<rparr>"

definition Operand_bits :: "nat \<Rightarrow> nat \<Rightarrow> nat \<Rightarrow> Operand" where
  "Operand_bits n imm_s imm_r =
     \<lparr>op_encoding = push_bit 22 (of_nat n) OR push_bit 10 (of_nat imm_s) OR push_bit 16 (of_nat imm_r),
      op_type = BitfieldImm\<rparr>"

section \<open>Logical immediates\<close>

definition count_step :: "nat \<Rightarrow> 64 word \<Rightarrow> 64 word \<Rightarrow> 64 word" where
  "count_step k m x = (drop_bit k x AND m) + (x AND m)"

definition CountOneBits :: "64 word \<Rightarrow> nat \<Rightarrow> nat" where
  "CountOneBits x width =
     (let x = x AND drop_bit (64 - width) 0xffffffffffffffff;
          x = count_step 1 0x5555555555555555 x;
          x = count_step 2 0x3333333333333333 x;
          x = count_step 4 0x0f0f0f0f0f0f0f0f x;
          x = count_step 8 0x00ff00ff00ff00ff x;
          x = count_step 16 0x0000ffff0000ffff x;
          x = count_step 32 0x00000000ffffffff x
      in unat x)"

definition CountLeadingZeros_width :: "64 word \<Rightarrow> nat \<Rightarrow> nat" where
  "CountLeadingZeros_width x width =
     (if width = 64 then CountLeadingZeros x else CountLeadingZeros (ucast x :: 32 word))"

function logical_loop ::
    "64 word \<Rightarrow> nat \<Rightarrow> nat \<Rightarrow> nat \<Rightarrow> nat \<Rightarrow> nat \<Rightarrow> nat \<Rightarrow> int \<Rightarrow> Operand option" where
  "logical_loop x lead_zero lead_one trail_zero trail_one width set_bits imm_s_fixed =
     (if width < 2 then None
      else if width = 2 then Some (Operand_bits 0 0x3c (unat (x AND 3) - 1))
      else
        let n = (if width = 64 then 1 else 0);
            imm_s = nat ((imm_s_fixed OR (int set_bits - 1)) AND 0x3f);
            imm_r = (if lead_zero + set_bits = width then 0
                     else if 0 < lead_zero then width - trail_zero else lead_one)
        in if lead_zero + trail_zero + set_bits = width then Some (Operand_bits n imm_s imm_r)
           else if lead_one + trail_one + (width - set_bits) = width then Some (Operand_bits n imm_s imm_r)
           else let msk = push_bit (width div 2) 1 - 1
                in if x AND msk = drop_bit (width div 2) x AND msk
                   then logical_loop x lead_zero lead_one trail_zero trail_one
                          (width div 2) (set_bits div 2) (drop_bit 1 imm_s_fixed)
                   else None)"
  by auto
termination
  by (relation "measure (\<lambda>(_, _, _, _, _, width, _, _). width)") auto

definition IsImmLogical :: "64 word \<Rightarrow> nat \<Rightarrow> Operand option" where
  "IsImmLogical x width =
     (let x = (if width = kWRegSizeInBits then x AND 0xffffffff else x)
      in if x = 0 \<or> x = 0xffffffffffffffff \<or> (width = kWRegSizeInBits \<and> x = 0xffffffff) then None
         else logical_loop x
                (CountLeadingZeros_width x width) (CountLeadingZeros_width (NOT x) width)
                (CountTrailingZeros x) (CountTrailingZeros (NOT x))
                width (CountOneBits x width)
                (if width = kXRegSizeInBits then - 128 else - 64))"

definition CanHold :: "64 word \<Rightarrow> nat \<Rightarrow> Operand" where
  "CanHold imm sz =
     (if IsUint_signed 12 imm
      then \<lparr>op_encoding = ucast (push_bit 10 imm), op_type = Immediate\<rparr>
      else if imm AND 0xfff = 0 \<and> IsUint_signed 12 (signed_drop_bit 12 imm)
      then \<lparr>op_encoding = Bn 22 OR ucast (push_bit 10 (signed_drop_bit 12 imm)), op_type = Immediate\<rparr>
      else case IsImmLogical imm sz of
             Some o' \<Rightarrow> o'\<lparr>op_type := BitfieldImm\<rparr>
           | None \<Rightarrow> \<lparr>op_encoding = 0, op_type = Unknown\<rparr>)"

section \<open>Encoders\<close>

definition size_bit :: "OperandSize \<Rightarrow> 32 word" where
  "size_bit sz = (if sz = kEightBytes then Bn 31 else 0)"

definition flags_bit :: "bool \<Rightarrow> 32 word" where
  "flags_bit set_flags = (if set_flags then Bn 29 else 0)"

definition EmitAddSubImmOp :: "32 word \<Rightarrow> nat \<Rightarrow> nat \<Rightarrow> Operand \<Rightarrow> OperandSize \<Rightarrow> bool \<Rightarrow> 32 word" where
  "EmitAddSubImmOp op rd rn o' sz set_flags =
     op OR size_bit sz OR flags_bit set_flags OR Rd_enc rd OR Rn_enc rn OR op_encoding o'"

definition EmitAddSubShiftExtOp :: "32 word \<Rightarrow> nat \<Rightarrow> nat \<Rightarrow> Operand \<Rightarrow> OperandSize \<Rightarrow> bool \<Rightarrow> 32 word" where
  "EmitAddSubShiftExtOp op rd rn o' sz set_flags =
     op OR size_bit sz OR flags_bit set_flags OR Rd_enc rd OR Rn_enc rn OR op_encoding o'"

definition AddSubHelper :: "OperandSize \<Rightarrow> bool \<Rightarrow> bool \<Rightarrow> nat \<Rightarrow> nat \<Rightarrow> Operand \<Rightarrow> 32 word" where
  "AddSubHelper os set_flags subtract rd rn o' =
     (let crd = ConcreteRegister rd; crn = ConcreteRegister rn
      in if op_type o' = Immediate
         then EmitAddSubImmOp (if subtract then SUBI else ADDI) crd crn o' os set_flags
         else if op_type o' = Shifted
         then EmitAddSubShiftExtOp (if subtract then SUB_op else ADD_op) crd crn o' os set_flags
         else EmitAddSubShiftExtOp (if subtract then SUB_op else ADD_op) crd crn o' os set_flags)"

definition AddSubWithCarryHelper :: "OperandSize \<Rightarrow> bool \<Rightarrow> bool \<Rightarrow> nat \<Rightarrow> nat \<Rightarrow> nat \<Rightarrow> 32 word" where
  "AddSubWithCarryHelper sz set_flags subtract rd rn rm =
     (if subtract then SBC else ADC) OR size_bit sz OR flags_bit set_flags OR
     Rd_enc rd OR Rn_enc rn OR Rm_enc rm"

definition EmitBitfieldOp :: "32 word \<Rightarrow> nat \<Rightarrow> nat \<Rightarrow> nat \<Rightarrow> nat \<Rightarrow> OperandSize \<Rightarrow> 32 word" where
  "EmitBitfieldOp op rd rn r_imm s_imm sz =
     (let instr = op OR (if sz = kEightBytes then Bitfield64 else 0)
      in instr OR op_encoding (Operand_bits 0 s_imm r_imm) OR Rd_enc rd OR Rn_enc rn)"

definition EmitLogicalImmOp :: "32 word \<Rightarrow> nat \<Rightarrow> nat \<Rightarrow> Operand \<Rightarrow> OperandSize \<Rightarrow> 32 word" where
  "EmitLogicalImmOp op rd rn o' sz = op OR size_bit sz OR Rd_enc rd OR Rn_enc rn OR op_encoding o'"

definition EmitLogicalShiftOp :: "32 word \<Rightarrow> nat \<Rightarrow> nat \<Rightarrow> Operand \<Rightarrow> OperandSize \<Rightarrow> 32 word" where
  "EmitLogicalShiftOp op rd rn o' sz = op OR size_bit sz OR Rd_enc rd OR Rn_enc rn OR op_encoding o'"

text \<open>A branch whose offset does not fit is reported to the compiler (\<open>None\<close>).\<close>

definition kImm19Mask :: "32 word" where
  "kImm19Mask = push_bit 5 0x7ffff"

definition EncodeImm19BranchOffset :: "64 word \<Rightarrow> 32 word \<Rightarrow> 32 word option" where
  "EncodeImm19BranchOffset imm instr =
     (if \<not> IsInt_signed 21 imm then None
      else let imm32 = ucast imm :: 32 word;
               off = push_bit 5 (signed_drop_bit 2 imm32) AND kImm19Mask
           in Some ((instr AND NOT kImm19Mask) OR off))"

definition EmitCompareAndBranchOp :: "32 word \<Rightarrow> nat \<Rightarrow> 64 word \<Rightarrow> OperandSize \<Rightarrow> 32 word option" where
  "EmitCompareAndBranchOp op rt imm sz =
     map_option (\<lambda>encoded_offset. op OR size_bit sz OR Rt_enc rt OR encoded_offset)
       (EncodeImm19BranchOffset imm 0)"

definition EmitConditionalBranchOp :: "32 word \<Rightarrow> Condition \<Rightarrow> 64 word \<Rightarrow> 32 word option" where
  "EmitConditionalBranchOp op cond imm =
     map_option (\<lambda>off. op OR push_bit 0 (of_nat (condition_code cond)) OR off)
       (EncodeImm19BranchOffset imm 0)"

definition EmitMoveWideOp :: "32 word \<Rightarrow> nat \<Rightarrow> 64 word \<Rightarrow> nat \<Rightarrow> OperandSize \<Rightarrow> 32 word" where
  "EmitMoveWideOp op rd imm hw_idx sz =
     op OR size_bit sz OR Rd_enc rd OR push_bit 21 (of_nat hw_idx) OR push_bit 5 (ucast (imm AND 0xffff))"

definition EmitMiscDP1Source :: "32 word \<Rightarrow> nat \<Rightarrow> nat \<Rightarrow> OperandSize \<Rightarrow> 32 word" where
  "EmitMiscDP1Source op rd rn sz = op OR size_bit sz OR Rd_enc rd OR Rn_enc rn"

definition EmitMiscDP2Source :: "32 word \<Rightarrow> nat \<Rightarrow> nat \<Rightarrow> nat \<Rightarrow> OperandSize \<Rightarrow> 32 word" where
  "EmitMiscDP2Source op rd rn rm sz = op OR size_bit sz OR Rd_enc rd OR Rn_enc rn OR Rm_enc rm"

definition EmitMiscDP3Source :: "32 word \<Rightarrow> nat \<Rightarrow> nat \<Rightarrow> nat \<Rightarrow> nat \<Rightarrow> OperandSize \<Rightarrow> 32 word" where
  "EmitMiscDP3Source op rd rn rm ra sz =
     op OR size_bit sz OR Rd_enc rd OR Rn_enc rn OR Rm_enc rm OR Ra_enc ra"

definition EmitConditionalSelect :: "32 word \<Rightarrow> nat \<Rightarrow> nat \<Rightarrow> nat \<Rightarrow> Condition \<Rightarrow> OperandSize \<Rightarrow> 32 word" where
  "EmitConditionalSelect op rd rn rm cond sz =
     op OR size_bit sz OR Rd_enc rd OR Rn_enc rn OR Rm_enc rm OR push_bit 12 (of_nat (condition_code cond))"

definition EmitUnconditionalBranchRegOp :: "32 word \<Rightarrow> nat \<Rightarrow> 32 word" where
  "EmitUnconditionalBranchRegOp op rn = op OR Rn_enc rn"

section \<open>Instructions\<close>

definition add :: "nat \<Rightarrow> nat \<Rightarrow> Operand \<Rightarrow> OperandSize \<Rightarrow> 32 word" where
  "add rd rn o' sz = AddSubHelper sz False False rd rn o'"
definition adds :: "nat \<Rightarrow> nat \<Rightarrow> Operand \<Rightarrow> OperandSize \<Rightarrow> 32 word" where
  "adds rd rn o' sz = AddSubHelper sz True False rd rn o'"
definition sub :: "nat \<Rightarrow> nat \<Rightarrow> Operand \<Rightarrow> OperandSize \<Rightarrow> 32 word" where
  "sub rd rn o' sz = AddSubHelper sz False True rd rn o'"
definition subs :: "nat \<Rightarrow> nat \<Rightarrow> Operand \<Rightarrow> OperandSize \<Rightarrow> 32 word" where
  "subs rd rn o' sz = AddSubHelper sz True True rd rn o'"
definition cmp :: "nat \<Rightarrow> Operand \<Rightarrow> OperandSize \<Rightarrow> 32 word" where
  "cmp rn o' sz = subs ZR rn o' sz"
definition cmn :: "nat \<Rightarrow> Operand \<Rightarrow> OperandSize \<Rightarrow> 32 word" where
  "cmn rn o' sz = adds ZR rn o' sz"
definition CompareRegisters :: "nat \<Rightarrow> nat \<Rightarrow> 32 word" where
  "CompareRegisters rn rm =
     (if rn = CSP then cmp CSP (Operand_extend rm UXTX 0) kEightBytes
      else cmp rn (Operand_reg rm) kEightBytes)"
definition adc :: "nat \<Rightarrow> nat \<Rightarrow> nat \<Rightarrow> 32 word" where
  "adc rd rn rm = AddSubWithCarryHelper kEightBytes False False rd rn rm"
definition sbc :: "nat \<Rightarrow> nat \<Rightarrow> nat \<Rightarrow> 32 word" where
  "sbc rd rn rm = AddSubWithCarryHelper kEightBytes False True rd rn rm"
definition and_instr :: "nat \<Rightarrow> nat \<Rightarrow> Operand \<Rightarrow> OperandSize \<Rightarrow> 32 word" where
  "and_instr rd rn o' sz = EmitLogicalShiftOp AND_op rd rn o' sz"
definition orr :: "nat \<Rightarrow> nat \<Rightarrow> Operand \<Rightarrow> OperandSize \<Rightarrow> 32 word" where
  "orr rd rn o' sz = EmitLogicalShiftOp ORR rd rn o' sz"
definition eor :: "nat \<Rightarrow> nat \<Rightarrow> Operand \<Rightarrow> OperandSize \<Rightarrow> 32 word" where
  "eor rd rn o' sz = EmitLogicalShiftOp EOR rd rn o' sz"
definition clz :: "nat \<Rightarrow> nat \<Rightarrow> 32 word" where
  "clz rd rn = EmitMiscDP1Source CLZ rd rn kEightBytes"
definition rbit :: "nat \<Rightarrow> nat \<Rightarrow> 32 word" where
  "rbit rd rn = EmitMiscDP1Source RBIT rd rn kEightBytes"
definition udiv_instr :: "nat \<Rightarrow> nat \<Rightarrow> nat \<Rightarrow> OperandSize \<Rightarrow> 32 word" where
  "udiv_instr rd rn rm sz = EmitMiscDP2Source UDIV rd rn rm sz"
definition sdiv_instr :: "nat \<Rightarrow> nat \<Rightarrow> nat \<Rightarrow> OperandSize \<Rightarrow> 32 word" where
  "sdiv_instr rd rn rm sz = EmitMiscDP2Source SDIV rd rn rm sz"
definition lslv :: "nat \<Rightarrow> nat \<Rightarrow> nat \<Rightarrow> OperandSize \<Rightarrow> 32 word" where
  "lslv rd rn rm sz = EmitMiscDP2Source LSLV rd rn rm sz"
definition lsrv :: "nat \<Rightarrow> nat \<Rightarrow> nat \<Rightarrow> OperandSize \<Rightarrow> 32 word" where
  "lsrv rd rn rm sz = EmitMiscDP2Source LSRV rd rn rm sz"
definition asrv :: "nat \<Rightarrow> nat \<Rightarrow> nat \<Rightarrow> OperandSize \<Rightarrow> 32 word" where
  "asrv rd rn rm sz = EmitMiscDP2Source ASRV rd rn rm sz"
definition madd :: "nat \<Rightarrow> nat \<Rightarrow> nat \<Rightarrow> nat \<Rightarrow> OperandSize \<Rightarrow> 32 word" where
  "madd rd rn rm ra sz = EmitMiscDP3Source MADD rd rn rm ra sz"
definition msub :: "nat \<Rightarrow> nat \<Rightarrow> nat \<Rightarrow> nat \<Rightarrow> OperandSize \<Rightarrow> 32 word" where
  "msub rd rn rm ra sz = EmitMiscDP3Source MSUB rd rn rm ra sz"
definition smulh :: "nat \<Rightarrow> nat \<Rightarrow> nat \<Rightarrow> OperandSize \<Rightarrow> 32 word" where
  "smulh rd rn rm sz = EmitMiscDP3Source SMULH rd rn rm R31 sz"
definition umulh :: "nat \<Rightarrow> nat \<Rightarrow> nat \<Rightarrow> OperandSize \<Rightarrow> 32 word" where
  "umulh rd rn rm sz = EmitMiscDP3Source UMULH rd rn rm R31 sz"
definition csel :: "nat \<Rightarrow> nat \<Rightarrow> nat \<Rightarrow> Condition \<Rightarrow> 32 word" where
  "csel rd rn rm cond = EmitConditionalSelect CSEL rd rn rm cond kEightBytes"
definition csinc :: "nat \<Rightarrow> nat \<Rightarrow> nat \<Rightarrow> Condition \<Rightarrow> OperandSize \<Rightarrow> 32 word" where
  "csinc rd rn rm cond sz = EmitConditionalSelect CSINC rd rn rm cond sz"
definition br :: "nat \<Rightarrow> 32 word" where
  "br rn = EmitUnconditionalBranchRegOp BR rn"
definition blr :: "nat \<Rightarrow> 32 word" where
  "blr rn = EmitUnconditionalBranchRegOp BLR rn"
definition ret_instr :: "nat \<Rightarrow> 32 word" where
  "ret_instr rn = EmitUnconditionalBranchRegOp RET rn"
definition cset :: "nat \<Rightarrow> Condition \<Rightarrow> 32 word" where
  "cset rd cond = csinc rd ZR ZR (InvertCondition cond) kEightBytes"
definition movk :: "nat \<Rightarrow> 64 word \<Rightarrow> nat \<Rightarrow> 32 word" where
  "movk rd imm hw_idx = EmitMoveWideOp MOVK (ConcreteRegister rd) imm hw_idx kEightBytes"
definition movn :: "nat \<Rightarrow> 64 word \<Rightarrow> nat \<Rightarrow> 32 word" where
  "movn rd imm hw_idx = EmitMoveWideOp MOVN (ConcreteRegister rd) imm hw_idx kEightBytes"
definition movz :: "nat \<Rightarrow> 64 word \<Rightarrow> nat \<Rightarrow> 32 word" where
  "movz rd imm hw_idx = EmitMoveWideOp MOVZ (ConcreteRegister rd) imm hw_idx kEightBytes"

definition logical_imm :: "32 word \<Rightarrow> nat \<Rightarrow> nat \<Rightarrow> 64 word \<Rightarrow> OperandSize \<Rightarrow> 32 word option" where
  "logical_imm op rd rn imm sz =
     (let width = (if sz = kEightBytes then kXRegSizeInBits else kWRegSizeInBits)
      in map_option (\<lambda>imm_op. EmitLogicalImmOp op rd rn imm_op sz) (IsImmLogical imm width))"

definition orri :: "nat \<Rightarrow> nat \<Rightarrow> 64 word \<Rightarrow> OperandSize \<Rightarrow> 32 word option" where
  "orri rd rn imm sz = logical_imm ORRI rd rn imm sz"
definition andi :: "nat \<Rightarrow> nat \<Rightarrow> 64 word \<Rightarrow> OperandSize \<Rightarrow> 32 word option" where
  "andi rd rn imm sz = logical_imm ANDI rd rn imm sz"
definition eori :: "nat \<Rightarrow> nat \<Rightarrow> 64 word \<Rightarrow> OperandSize \<Rightarrow> 32 word option" where
  "eori rd rn imm sz = logical_imm EORI rd rn imm sz"

section \<open>Loads\<close>

fun Log2OperandSizeBytes :: "OperandSize \<Rightarrow> nat" where
  "Log2OperandSizeBytes kByte = 0"
| "Log2OperandSizeBytes kUnsignedByte = 0"
| "Log2OperandSizeBytes kTwoBytes = 1"
| "Log2OperandSizeBytes kUnsignedTwoBytes = 1"
| "Log2OperandSizeBytes kFourBytes = 2"
| "Log2OperandSizeBytes kUnsignedFourBytes = 2"
| "Log2OperandSizeBytes kEightBytes = 3"

definition IsSignedOperand :: "OperandSize \<Rightarrow> bool" where
  "IsSignedOperand os \<longleftrightarrow> os = kByte \<or> os = kTwoBytes \<or> os = kFourBytes"

datatype AddressType =
    Offset | PreIndex | PostIndex | PairOffset | PairPreIndex | PairPostIndex | Reg | PCOffset

record Address =
  addr_type :: AddressType
  addr_base :: nat
  addr_offset :: "32 word"

definition Address_offset :: "nat \<Rightarrow> 32 word \<Rightarrow> Address" where
  "Address_offset rn offset = \<lparr>addr_type = Offset, addr_base = rn, addr_offset = offset\<rparr>"

definition Address_reg :: "nat \<Rightarrow> nat \<Rightarrow> Extend \<Rightarrow> bool \<Rightarrow> Address" where
  "Address_reg rn rm ext scaled =
     \<lparr>addr_type = Reg, addr_base = rn,
      addr_offset = (if scaled then Bn 12 else 0) OR Rm_enc rm OR push_bit 13 (of_nat (extend_code ext))\<rparr>"

definition CanHoldOffset :: "32 word \<Rightarrow> AddressType \<Rightarrow> OperandSize \<Rightarrow> bool" where
  "CanHoldOffset offset at sz =
     (let scale = Log2OperandSizeBytes sz
      in if at = Offset
         then (IsUint_signed (12 + scale) offset \<and> offset = push_bit scale (signed_drop_bit scale offset)) \<or>
              IsInt_signed 9 offset
         else if at = PCOffset then IsInt_signed 21 offset \<and> offset = push_bit 2 (signed_drop_bit 2 offset)
         else if at = PreIndex \<or> at = PostIndex then IsInt_signed 9 offset
         else IsInt_signed (7 + scale) offset \<and> offset = push_bit scale (drop_bit scale offset))"

text \<open>The encoding of an address.  Its \<open>ASSERT\<close> is \<open>CanHoldOffset\<close>: an offset that neither form of
  \<open>Offset\<close> can hold is a fatal error, which the callers exclude.\<close>

definition address_encoding :: "Address \<Rightarrow> OperandSize \<Rightarrow> 32 word" where
  "address_encoding a sz =
     (let offset = addr_offset a; base = addr_base a; scale = Log2OperandSizeBytes sz
      in case addr_type a of
           Offset \<Rightarrow>
             if IsUint_signed (12 + scale) offset \<and> offset = push_bit scale (signed_drop_bit scale offset)
             then Bn 24 OR push_bit 10 (signed_drop_bit scale offset) OR Rn_enc base
             else push_bit 12 (offset AND 0x1ff) OR Rn_enc base
         | PreIndex \<Rightarrow> (Bn 11 OR Bn 10) OR push_bit 12 (offset AND 0x1ff) OR Rn_enc base
         | PostIndex \<Rightarrow> Bn 10 OR push_bit 12 (offset AND 0x1ff) OR Rn_enc base
         | PairOffset \<Rightarrow> Bn 24 OR (push_bit 15 (signed_drop_bit scale offset) AND push_bit 15 0x7f) OR Rn_enc base
         | PairPreIndex \<Rightarrow>
             (Bn 24 OR Bn 23) OR (push_bit 15 (signed_drop_bit scale offset) AND push_bit 15 0x7f) OR Rn_enc base
         | PairPostIndex \<Rightarrow> Bn 23 OR (push_bit 15 (signed_drop_bit scale offset) AND push_bit 15 0x7f) OR Rn_enc base
         | PCOffset \<Rightarrow> push_bit 5 (signed_drop_bit 2 offset) AND kImm19Mask
         | Reg \<Rightarrow> Bn 21 OR Bn 11 OR Rn_enc base OR offset)"

definition EmitLoadStoreReg :: "32 word \<Rightarrow> nat \<Rightarrow> Address \<Rightarrow> OperandSize \<Rightarrow> 32 word" where
  "EmitLoadStoreReg op rt a sz =
     op OR push_bit 30 (of_nat (Log2OperandSizeBytes sz AND 0x3)) OR Rt_enc rt OR address_encoding a sz"

text \<open>\<open>ldr\<close> with an address that is not relative to the program counter.\<close>

definition ldr :: "nat \<Rightarrow> Address \<Rightarrow> OperandSize \<Rightarrow> 32 word" where
  "ldr rt a sz = (if IsSignedOperand sz then EmitLoadStoreReg LDRS rt a sz else EmitLoadStoreReg LDR rt a sz)"

definition element_offset :: "nat \<Rightarrow> 32 word" where
  "element_offset index = of_nat (16 + index * 8)"

definition LoadWordFromPoolIndex :: "nat \<Rightarrow> nat \<Rightarrow> nat \<Rightarrow> 32 word list" where
  "LoadWordFromPoolIndex dst index pp =
     (let offset = element_offset index; upper20 = offset AND 0xfffff000;
          op = CanHold (ucast upper20) kXRegSizeInBits
      in if CanHoldOffset offset Offset kEightBytes
         then [ldr dst (Address_offset pp offset) kEightBytes]
         else if op_type op = Immediate
         then let lower12 = offset AND 0x00000fff
              in [add dst pp op kEightBytes, ldr dst (Address_offset dst lower12) kEightBytes]
         else let offset_low = ucast (Low16Bits offset) :: 16 word; offset_high = ucast (High16Bits offset) :: 16 word
              in [movz dst (ucast offset_low) 0] @
                 (if offset_high \<noteq> 0 then [movk dst (ucast offset_high) 1] else []) @
                 [ldr dst (Address_reg pp dst UXTX False) kEightBytes])"

section \<open>Constants\<close>

text \<open>The half-words of a constant.\<close>

definition halfwords :: "64 word \<Rightarrow> 16 word \<times> 16 word \<times> 16 word \<times> 16 word" where
  "halfwords imm =
     (let w0 = Low32Bits imm; w1 = High32Bits imm
      in (ucast (Low16Bits w0), ucast (High16Bits w0), ucast (Low16Bits w1), ucast (High16Bits w1)))"

text \<open>The tail of \<open>LoadImmediate\<close>: the first non-zero half-word is moved with zeroing, the others are
  inserted.\<close>

definition move_halfword :: "nat \<Rightarrow> 16 word \<Rightarrow> nat \<Rightarrow> 32 word list \<times> bool \<Rightarrow> 32 word list \<times> bool" where
  "move_halfword reg h hw p =
     (case p of (code, initialized) \<Rightarrow>
        if h \<noteq> 0
        then if initialized then (code @ [movk reg (ucast h) hw], initialized)
             else (code @ [movz reg (ucast h) hw], True)
        else (code, initialized))"

definition LoadImmediate ::
    "bool \<Rightarrow> (64 word \<Rightarrow> nat) \<Rightarrow> nat \<Rightarrow> 64 word \<Rightarrow> 32 word list" where
  "LoadImmediate constant_pool_allowed find_immediate reg imm =
     (if imm = 0 then [movz reg 0 0]
      else case (op_type (CanHold imm kXRegSizeInBits), orri reg ZR imm kEightBytes) of
        (BitfieldImm, Some instr) \<Rightarrow> [instr]
      | _ \<Rightarrow>
        let (h0, h1, h2, h3) = halfwords imm; w1 = High32Bits imm
        in if w1 = 0xffffffff
           then if h1 = 0xffff then [movn reg (NOT (ucast h0)) 0]
                else [movn reg (NOT (ucast h1)) 1, movk reg (ucast h0) 0]
           else if h3 = 0xffff
           then [movn reg (NOT (ucast h2)) 2] @
                (if h1 \<noteq> 0xffff then [movk reg (ucast h1) 1] else []) @
                (if h0 \<noteq> 0xffff then [movk reg (ucast h0) 0] else [])
           else if w1 \<noteq> 0 \<and> constant_pool_allowed then LoadWordFromPoolIndex reg (find_immediate imm) PP
           else fst (move_halfword reg h3 3 (move_halfword reg h2 2 (move_halfword reg h1 1
                  (move_halfword reg h0 0 ([], False))))))"

definition mov :: "nat \<Rightarrow> nat \<Rightarrow> 32 word" where
  "mov rd rn =
     (if rd = CSP \<or> rn = CSP then add rd rn (Operand_imm 0) kEightBytes
      else orr rd ZR (Operand_reg rn) kEightBytes)"

definition AddImmediate ::
    "bool \<Rightarrow> (64 word \<Rightarrow> nat) \<Rightarrow> nat \<Rightarrow> nat \<Rightarrow> 64 word \<Rightarrow> OperandSize \<Rightarrow> 32 word list" where
  "AddImmediate constant_pool_allowed find_immediate dest rn imm sz =
     (let width = (if sz = kEightBytes then kXRegSizeInBits else kWRegSizeInBits)
      in if imm = 0
         then if dest \<noteq> rn then [mov dest rn] else []
         else if op_type (CanHold imm width) = Immediate then [add dest rn (CanHold imm width) sz]
         else if op_type (CanHold (- imm) width) = Immediate then [sub dest rn (CanHold (- imm) width) sz]
         else LoadImmediate constant_pool_allowed find_immediate TMP2 imm @ [add dest rn (Operand_reg TMP2) sz])"

definition CompareImmediate ::
    "bool \<Rightarrow> (64 word \<Rightarrow> nat) \<Rightarrow> nat \<Rightarrow> 64 word \<Rightarrow> OperandSize \<Rightarrow> 32 word list" where
  "CompareImmediate constant_pool_allowed find_immediate rn imm sz =
     (let width = (if sz = kEightBytes then kXRegSizeInBits else kWRegSizeInBits)
      in if op_type (CanHold imm width) = Immediate then [cmp rn (CanHold imm width) sz]
         else if op_type (CanHold (- imm) width) = Immediate then [cmn rn (CanHold (- imm) width) sz]
         else LoadImmediate constant_pool_allowed find_immediate TMP2 imm @ [cmp rn (Operand_reg TMP2) sz])"

end
