(* ===== verification/Arm64_Immediate.thy ===== *)
theory Arm64_Immediate
  imports Arm64_Assembler
begin

unbundle bit_operations_syntax

text \<open>
  The logical immediates of ARM64 (\<open>Operand::IsImmLogical\<close> of \<open>assembler_arm64.cc\<close> and
  \<open>Instr::ImmLogical\<close> of \<open>constants_arm64.h\<close>): the bit count computed by pairwise sums is the number of
  ones, the decoder expands its three fields to a repeated and rotated run of ones, and the recogniser
  accepts exactly these values, with the fields that are decoded to them.
\<close>

declare repeat_loop.simps [simp del] imm_logical_loop.simps [simp del] logical_loop.simps [simp del]

section \<open>Counting one bits\<close>

text \<open>The sum of the first \<open>n\<close> fields of \<open>k\<close> bits, and one step of the counting: neighbouring fields
  are added into fields of twice the size.\<close>

primrec sum_fields :: "nat \<Rightarrow> nat \<Rightarrow> nat \<Rightarrow> nat" where
  "sum_fields k 0 x = 0"
| "sum_fields k (Suc n) x = x mod 2 ^ k + sum_fields k n (x div 2 ^ k)"

primrec pair_fields :: "nat \<Rightarrow> nat \<Rightarrow> nat \<Rightarrow> nat" where
  "pair_fields k 0 x = 0"
| "pair_fields k (Suc n) x =
     x mod 2 ^ k + x div 2 ^ k mod 2 ^ k + 2 ^ (2 * k) * pair_fields k n (x div 2 ^ (2 * k))"

primrec field_mask :: "nat \<Rightarrow> nat \<Rightarrow> nat" where
  "field_mask k 0 = 0"
| "field_mask k (Suc n) = mask k + 2 ^ (2 * k) * field_mask k n"

lemma field_mask_numeral: "field_mask k (numeral n) = mask k + 2 ^ (2 * k) * field_mask k (pred_numeral n)"
  "field_mask k 1 = mask k"
  by (simp_all add: numeral_eq_Suc)

lemma pair_bound: "0 < k \<Longrightarrow> x mod 2 ^ k + y mod 2 ^ k < (2 :: nat) ^ (2 * k)"
proof -
  assume "0 < k"
  then have "(2 :: nat) ^ Suc k \<le> 2 ^ (2 * k)" by (intro power_increasing) auto
  moreover have "x mod 2 ^ k < 2 ^ k" "y mod 2 ^ k < 2 ^ k" by simp_all
  ultimately show ?thesis by (simp only: power_Suc)
qed

lemma sum_pair_fields: "0 < k \<Longrightarrow> sum_fields (2 * k) n (pair_fields k n x) = sum_fields k (2 * n) x"
proof (induction n arbitrary: x)
  case (Suc n)
  have "x div 2 ^ k div 2 ^ k = x div 2 ^ (2 * k)" by (simp add: mult_2 power_add div_mult2_eq)
  then show ?case using Suc pair_bound [OF Suc.prems, of x "x div 2 ^ k"] by simp
qed simp

lemma pair_fields_bound: "0 < k \<Longrightarrow> pair_fields k n x < 2 ^ (2 * k * n)"
proof (induction n arbitrary: x)
  case (Suc n)
  have "pair_fields k n (x div 2 ^ (2 * k)) + 1 \<le> 2 ^ (2 * k * n)" using Suc by (simp add: Suc_le_eq)
  then have "2 ^ (2 * k) * pair_fields k n (x div 2 ^ (2 * k)) + 2 ^ (2 * k) \<le> 2 ^ (2 * k) * 2 ^ (2 * k * n)"
    by (metis add_mult_distrib2 mult.right_neutral mult_le_mono2)
  then show ?case using pair_bound [OF Suc.prems, of x "x div 2 ^ k"]
    by (simp add: power_add algebra_simps)
qed simp

lemma and_split_nat: "x AND (a + 2 ^ j * m) = (x mod 2 ^ j AND a) + 2 ^ j * (x div 2 ^ j AND m)"
  if "a < 2 ^ j" for x a m :: nat
proof -
  let ?y = "a + 2 ^ j * m"
  have "x AND ?y = push_bit j (drop_bit j (x AND ?y)) + take_bit j (x AND ?y)"
    by (rule bits_ident [symmetric])
  also have "drop_bit j (x AND ?y) = x div 2 ^ j AND m"
    using that by (subst drop_bit_and) (simp add: drop_bit_eq_div)
  also have "take_bit j (x AND ?y) = (x mod 2 ^ j AND a)"
    using that by (subst take_bit_and) (simp add: take_bit_eq_mod)
  finally show ?thesis by (simp add: push_bit_eq_mult)
qed

lemma and_low_mask: "x AND mask k = x mod 2 ^ k" for x :: nat
  using take_bit_eq_mask [of k x] by (simp add: take_bit_eq_mod)

lemma count_pairs:
  "(x div 2 ^ k AND field_mask k n) + (x AND field_mask k n) = pair_fields k n x"
proof (induction n arbitrary: x)
  case (Suc n)
  have a: "mask k < (2 :: nat) ^ (2 * k)"
    by (rule less_le_trans [of _ "2 ^ k"]) (simp_all add: mask_nat_less_exp power_increasing)
  have m: "x mod 2 ^ (2 * k) mod 2 ^ k = x mod 2 ^ k" for x :: nat
    by (simp add: mod_mod_cancel le_imp_power_dvd)
  have c: "x div 2 ^ k div 2 ^ (2 * k) = x div 2 ^ (2 * k) div 2 ^ k"
    by (metis div_mult2_eq mult.commute)
  show ?case
    using Suc [of "x div 2 ^ (2 * k)"]
    by (simp add: and_split_nat [OF a] and_low_mask m c distrib_left [symmetric] add_ac)
qed simp

lemma count_step_pairs:
  assumes "0 < k" and "2 * k * n = 64" and "unat m = field_mask k n"
  shows "unat (count_step k m x) = pair_fields k n (unat x)"
proof -
  have "unat (drop_bit k x AND m) + unat (x AND m) = pair_fields k n (unat x)"
    using count_pairs [of "unat x" k n]
    by (simp only: unsigned_and_eq unat_drop_bit64 assms(3))
  moreover have "pair_fields k n (unat x) < 2 ^ 64"
    using pair_fields_bound [OF assms(1), of n "unat x"] assms(2) by simp
  ultimately show ?thesis
    unfolding count_step_def by (subst unat_word_ariths) simp
qed

lemma sum_bits: "sum_fields 1 n x = card {i. i < n \<and> bit x i}"
proof (induction n arbitrary: x)
  case (Suc n)
  have "{i. i < Suc n \<and> bit x i} = (if odd x then {0} else {}) \<union> Suc ` {i. i < n \<and> bit (x div 2) i}"
  proof (rule set_eqI)
    fix i
    show "i \<in> {i. i < Suc n \<and> bit x i} \<longleftrightarrow> i \<in> (if odd x then {0} else {}) \<union> Suc ` {i. i < n \<and> bit (x div 2) i}"
      by (cases i) (auto simp: bit_0 bit_Suc)
  qed
  moreover have "card (Suc ` {i. i < n \<and> bit (x div 2) i}) = card {i. i < n \<and> bit (x div 2) i}"
    by (rule card_image) simp
  ultimately have "card {i. i < Suc n \<and> bit x i} = (if odd x then 1 else 0) + card {i. i < n \<and> bit (x div 2) i}"
    by (auto simp: card_insert_if)
  then show ?case using Suc by (simp add: mod2_eq_if)
qed simp

lemma CountOneBits_64: "CountOneBits x 64 = card {i. i < 64 \<and> bit x i}"
proof -
  have masks: "unat (0x5555555555555555 :: 64 word) = field_mask 1 32"
    "unat (0x3333333333333333 :: 64 word) = field_mask 2 16"
    "unat (0x0f0f0f0f0f0f0f0f :: 64 word) = field_mask 4 8"
    "unat (0x00ff00ff00ff00ff :: 64 word) = field_mask 8 4"
    "unat (0x0000ffff0000ffff :: 64 word) = field_mask 16 2"
    "unat (0x00000000ffffffff :: 64 word) = field_mask 32 1"
    by (simp_all add: field_mask_numeral mask_eq_exp_minus_1)
  have m1: "(0xffffffffffffffff :: 64 word) = - 1" by simp
  have ones: "x AND drop_bit (64 - 64) 0xffffffffffffffff = x" unfolding m1 by (simp only: diff_self_eq_0 drop_bit_0 id_apply and.right_neutral)
  note step = count_step_pairs [OF _ _ masks(1)] count_step_pairs [OF _ _ masks(2)] count_step_pairs [OF _ _ masks(3)]
    count_step_pairs [OF _ _ masks(4)] count_step_pairs [OF _ _ masks(5)] count_step_pairs [OF _ _ masks(6)]
  define y where "y = pair_fields 32 1 (pair_fields 16 2 (pair_fields 8 4 (pair_fields 4 8 (pair_fields 2 16
    (pair_fields 1 32 (unat x))))))"
  have "CountOneBits x 64 = y"
    unfolding CountOneBits_def Let_def ones y_def by (simp add: step del: pair_fields.simps One_nat_def)
  also have "y = sum_fields 64 1 y"
  proof -
    have "y < 2 ^ 64"
      using pair_fields_bound [of 32 1] unfolding y_def by (simp del: pair_fields.simps One_nat_def)
    then show ?thesis by simp
  qed
  also have "\<dots> = sum_fields 1 64 (unat x)"
  proof -
    note double = sum_pair_fields [of 32 1] sum_pair_fields [of 16 2] sum_pair_fields [of 8 4]
      sum_pair_fields [of 4 8] sum_pair_fields [of 2 16] sum_pair_fields [of 1 32]
    show ?thesis
      unfolding y_def using double by (simp del: pair_fields.simps sum_fields.simps One_nat_def)
  qed
  also have "\<dots> = card {i. i < 64 \<and> bit x i}"
    unfolding sum_bits by (simp add: bit_unsigned_iff)
  finally show ?thesis .
qed

section \<open>Decoding a logical immediate\<close>

text \<open>The value that an immediate stands for: \<open>k\<close> ones in every group of \<open>w\<close> bits, rotated right by
  \<open>r\<close> positions.\<close>

definition is_pattern :: "nat \<Rightarrow> nat \<Rightarrow> nat \<Rightarrow> 64 word \<Rightarrow> bool" where
  "is_pattern w k r x \<longleftrightarrow> (\<forall>i<64. bit x i \<longleftrightarrow> (i + r) mod w < k)"

lemma is_pattern_unique: "is_pattern w k r x \<Longrightarrow> is_pattern w k r y \<Longrightarrow> x = y"
  by (rule bit_word_eqI) (simp add: is_pattern_def)

lemma add_mod_once: "(i + r) mod w = (if i + r < w then i + r else i + r - w)"
  if "i < w" "r < w" for i r w :: nat
  using that by (simp add: mod_if)

lemma bit_RotateRight:
  assumes "r < w" "w \<le> 64" "k \<le> w"
  shows "bit (RotateRight (push_bit k 1 - 1) r w) i \<longleftrightarrow> i < w \<and> (i + r) mod w < k"
proof -
  define l where "l = nat ((int w - int r) mod 64)"
  have l: "l = (if w - r = 64 then 0 else w - r)"
  proof -
    have "(int w - int r) mod 64 = int ((w - r) mod 64)" using assms by (simp add: of_nat_diff zmod_int)
    then show ?thesis unfolding l_def using assms by (simp add: mod_if)
  qed
  have rr: "r mod 64 = r" using assms by simp
  have lo: "bit (2 ^ k - 1 :: 64 word) n \<longleftrightarrow> n < k" "bit (2 ^ r - 1 :: 64 word) n \<longleftrightarrow> n < r" for n
    using assms by (auto intro!: bit_exp_minus_1)
  show ?thesis
    using assms add_mod_once [of i w r]
    unfolding RotateRight_def Let_def l_def [symmetric] rr l
    by (auto simp: bit_simps lo dest: bit_imp_le_length split: if_splits)
qed

lemma bit_repeat_loop:
  assumes "64 = i * 2 ^ j" and "0 < i" and "\<And>n. bit v n \<Longrightarrow> n < i"
  shows "bit (repeat_loop 64 i v) n \<longleftrightarrow> n < 64 \<and> bit v (n mod i)"
  using assms
proof (induction j arbitrary: i v)
  case 0
  then show ?case by (auto simp: repeat_loop.simps [of 64 64])
next
  case (Suc j)
  define v' where "v' = v OR push_bit i v"
  have "64 = 2 * (i * 2 ^ j)" using Suc.prems(1) by simp
  moreover have "i \<le> i * 2 ^ j" by simp
  ultimately have i: "2 * i \<le> 64" by linarith
  have v': "bit v' m \<longleftrightarrow> m < 2 * i \<and> bit v (m mod i)" for m
  proof (cases "m < i")
    case True
    then show ?thesis unfolding v'_def by (simp add: bit_simps)
  next
    case False
    have "bit v' m \<longleftrightarrow> m < 64 \<and> bit v (m - i)"
      using False Suc.prems(3) [of m] unfolding v'_def by (auto simp: bit_simps)
    moreover have "m < 2 * i" if "bit v (m - i)" using Suc.prems(3) [OF that] by linarith
    moreover have "m mod i = m - i" if "m < 2 * i" using that False by (simp add: mod_if)
    ultimately show ?thesis using i by auto
  qed
  have "bit (repeat_loop 64 (2 * i) v') n \<longleftrightarrow> n < 64 \<and> bit v' (n mod (2 * i))"
    using Suc.prems v' by (intro Suc.IH) auto
  moreover have "repeat_loop 64 i v = repeat_loop 64 (2 * i) v'"
    using i Suc.prems(2) by (subst repeat_loop.simps) (simp add: v'_def)
  ultimately show ?case
    using v' Suc.prems(2) by (simp add: mod_mod_cancel)
qed

lemma RepeatBits_pattern:
  assumes "w \<in> {2, 4, 8, 16, 32}" and "r < w" and "0 < k" and "k < w"
  shows "is_pattern w k r (RepeatBitsAcrossReg 64 (RotateRight (push_bit k 1 - 1) r w) w)"
proof -
  have w: "0 < w" "w \<le> 64" and j: "\<exists>j. 64 = w * 2 ^ j"
    using assms(1) by (auto intro: exI [of _ 5] exI [of _ 4] exI [of _ 3] exI [of _ 2] exI [of _ 1])
  then obtain j where j: "64 = w * 2 ^ j" by blast
  define v where "v = RotateRight (push_bit k 1 - 1) r w"
  have v: "bit v i \<longleftrightarrow> i < w \<and> (i + r) mod w < k" for i
    unfolding v_def using assms w by (intro bit_RotateRight) auto
  have m: "v AND (push_bit w 1 - 1) = v"
    using w v bit_exp_minus_1 [of w, where 'a = 64] by (intro bit_word_eqI) (auto simp: bit_simps)
  have "bit (repeat_loop 64 w v) n \<longleftrightarrow> n < 64 \<and> bit v (n mod w)" for n
    using v w by (intro bit_repeat_loop [OF j]) auto
  then show ?thesis
    unfolding RepeatBitsAcrossReg_def v_def [symmetric] m is_pattern_def
    using v w by (simp add: mod_add_left_eq)
qed

text \<open>The fields \<open>imm_s\<close> of a group size and a number of ones.\<close>

definition imm_s_of :: "nat \<Rightarrow> nat \<Rightarrow> nat" where
  "imm_s_of w k = (if w = 64 then k - 1 else 64 - 2 * w + (k - 1))"

lemma imm_s_select:
  assumes "w \<in> {2, 4, 8, 16, 32}" and "0 < k" and "k < w"
  shows "v \<in> {2, 4, 8, 16, 32} \<Longrightarrow> w < v \<Longrightarrow> imm_s_of w k AND v \<noteq> 0"
    and "imm_s_of w k AND w = 0" and "imm_s_of w k AND (w - 1) = k - 1"
    and "drop_bit 1 (imm_s_of w k) \<noteq> 0x1f"
proof -
  have *: "list_all (\<lambda>w. list_all (\<lambda>k. list_all (\<lambda>v. \<not> w < v \<or> imm_s_of w k AND v \<noteq> 0) [2, 4, 8, 16, 32] \<and>
      imm_s_of w k AND w = 0 \<and> imm_s_of w k AND (w - 1) = k - 1 \<and> drop_bit 1 (imm_s_of w k) \<noteq> 0x1f)
      [1..<w]) [2, 4, 8, 16, 32]"
    by code_simp
  show "v \<in> {2, 4, 8, 16, 32} \<Longrightarrow> w < v \<Longrightarrow> imm_s_of w k AND v \<noteq> 0"
    "imm_s_of w k AND w = 0" "imm_s_of w k AND (w - 1) = k - 1" "drop_bit 1 (imm_s_of w k) \<noteq> 0x1f"
    using * assms unfolding list_all_iff by auto
qed

lemma mask_field:
  assumes "w \<in> {2, 4, 8, 16, 32}" and "r < w"
  shows "r AND (w - 1) = (r :: nat)"
proof -
  have "list_all (\<lambda>w. list_all (\<lambda>r. r AND (w - 1) = r) [0..<w]) [2, 4, 8, 16, 32 :: nat]"
    by code_simp
  then show ?thesis using assms unfolding list_all_iff by auto
qed

lemma imm_logical_loop_found:
  assumes "w \<in> {2, 4, 8, 16, 32}" and "r < w" and "0 < k" and "k < w"
  shows "is_pattern w k r (imm_logical_loop 64 (imm_s_of w k) r w)"
proof -
  have k: "k - 1 \<noteq> w - 1" "k - 1 + 1 = k" "\<not> w < 2" using assms by auto
  show ?thesis
    using RepeatBits_pattern [OF assms] imm_s_select [OF assms(1,3,4)] mask_field [OF assms(1,2)] k
    by (subst imm_logical_loop.simps) (simp add: Let_def del: One_nat_def)
qed

lemma imm_logical_loop_skip:
  assumes "w \<in> {2, 4, 8, 16, 32}" "0 < k" "k < w" and "v \<in> {4, 8, 16, 32}" "w < v"
  shows "imm_logical_loop 64 (imm_s_of w k) r v = imm_logical_loop 64 (imm_s_of w k) r (v div 2)"
  using imm_s_select(1) [OF assms(1-3), of v] assms(4,5)
  by (subst imm_logical_loop.simps) auto

lemma DecodeImmLogical_pattern:
  assumes "w \<in> {2, 4, 8, 16, 32, 64}" and "r < w" and "0 < k" and "k < w"
  shows "is_pattern w k r (DecodeImmLogical 64 (if w = 64 then 1 else 0) (imm_s_of w k) r)"
proof (cases "w = 64")
  case True
  then have "k - 1 \<noteq> 63" "k - 1 + 1 = k" "r < 64" "k \<le> 64" using assms by auto
  then show ?thesis
    using True bit_RotateRight [of r 64 k]
    by (simp add: DecodeImmLogical_def imm_s_of_def is_pattern_def Let_def del: One_nat_def)
next
  case False
  then have w: "w \<in> {2, 4, 8, 16, 32}" using assms by auto
  note skip = imm_logical_loop_skip [OF w assms(3,4), of _ r]
  have "imm_logical_loop 64 (imm_s_of w k) r 32 = imm_logical_loop 64 (imm_s_of w k) r w"
    using w skip [of 32] skip [of 16] skip [of 8] skip [of 4]
    by auto
  then show ?thesis
    using imm_logical_loop_found [OF w assms(2-4)] imm_s_select(4) [OF w assms(3,4)] False
    by (simp add: DecodeImmLogical_def)
qed

section \<open>Recognising a logical immediate\<close>

definition periodic :: "nat \<Rightarrow> 64 word \<Rightarrow> bool" where
  "periodic w x \<longleftrightarrow> (\<forall>i<64. bit x i \<longleftrightarrow> bit x (i mod w))"

definition group_sizes :: "nat set" where
  "group_sizes = {2, 4, 8, 16, 32, 64}"

lemma group_size_dvd: "w \<in> group_sizes \<Longrightarrow> w dvd 64 \<and> 0 < w \<and> w \<le> 64"
  by (auto simp: group_sizes_def)

lemma periodicD: "periodic w x \<Longrightarrow> i < 64 \<Longrightarrow> bit x i \<longleftrightarrow> bit x (i mod w)"
  unfolding periodic_def by blast

lemma periodic_not: "w \<in> group_sizes \<Longrightarrow> periodic w x \<Longrightarrow> periodic w (NOT x)"
proof -
  assume w: "w \<in> group_sizes" and p: "periodic w x"
  show ?thesis unfolding periodic_def
  proof (intro allI impI)
    fix i :: nat
    assume "i < 64"
    moreover have "i mod w < 64"
      using group_size_dvd [OF w] by (meson less_le_trans mod_less_divisor)
    ultimately show "bit (NOT x) i \<longleftrightarrow> bit (NOT x) (i mod w)"
      using periodicD [OF p, of i] by (simp add: bit_simps)
  qed
qed

lemma periodic_nonzero:
  assumes "w \<in> group_sizes" "periodic w x" "x \<noteq> 0"
  shows "\<exists>i<w. bit x i"
proof -
  obtain i where i: "bit x i"
    using assms(3) by (auto simp: bit_eq_iff)
  moreover have "i < 64" using bit_imp_le_length [OF i] by simp
  ultimately have "bit x (i mod w)" using periodicD [OF assms(2)] by blast
  then show ?thesis using group_size_dvd [OF assms(1)] by (intro exI [of _ "i mod w"]) simp
qed

lemma CountLeadingZeros_props:
  fixes x :: "64 word"
  assumes "x \<noteq> 0"
  shows "CountLeadingZeros x < 64" "64 - CountLeadingZeros x \<le> i \<Longrightarrow> \<not> bit x i" "bit x (63 - CountLeadingZeros x)"
proof -
  have "rev (map (bit x) [0..<64]) = map (bit (word_reverse x)) [0..<64]"
    by (rule nth_equalityI) (simp_all add: rev_nth bit_word_reverse_iff)
  then have eq: "CountLeadingZeros x = CountTrailingZeros (word_reverse x)"
    by (simp add: CountLeadingZeros_def CountTrailingZeros_def)
  obtain j where j: "bit x j" using assms by (auto simp: bit_eq_iff)
  then have "bit (word_reverse x) (63 - j)"
    using bit_imp_le_length [OF j] by (simp add: bit_word_reverse_iff)
  then have nz: "word_reverse x \<noteq> 0" by auto
  note tz = CountTrailingZeros_props [where x = "word_reverse x"]
  have b: "bit x (63 - n) \<longleftrightarrow> bit (word_reverse x) n" if "n < 64" for n
    using that by (simp add: bit_word_reverse_iff)
  show lt: "CountLeadingZeros x < 64"
    using bit_imp_le_length [OF tz(3) [OF nz]] unfolding eq by simp
  show "bit x (63 - CountLeadingZeros x)"
    using b [of "CountLeadingZeros x"] lt tz(3) [OF nz] unfolding eq by simp
  show "\<not> bit x i" if "64 - CountLeadingZeros x \<le> i"
  proof
    assume "bit x i"
    then have "i < 64" by (auto dest: bit_imp_le_length)
    then have "bit (word_reverse x) (63 - i)" using b [of "63 - i"] \<open>bit x i\<close> by simp
    moreover have "63 - i < CountTrailingZeros (word_reverse x)" using that \<open>i < 64\<close> unfolding eq by arith
    ultimately show False using tz(2) by blast
  qed
qed

lemma leading_zeros_in_group:
  assumes w: "w \<in> group_sizes" and p: "periodic w x" and "x \<noteq> 0"
  shows "CountLeadingZeros x < w" "w - CountLeadingZeros x \<le> i \<Longrightarrow> i < w \<Longrightarrow> \<not> bit x i"
    "bit x (w - 1 - CountLeadingZeros x)"
proof -
  note lz = CountLeadingZeros_props [OF \<open>x \<noteq> 0\<close>]
  have up: "bit x (i + (64 - w)) \<longleftrightarrow> bit x i" if "i < w" for i
  proof -
    have "w dvd 64 - w" using group_size_dvd [OF w] by (simp add: dvd_diff_nat)
    then have "(i + (64 - w)) mod w = i"
      using that by (metis add_0_right dvd_imp_mod_0 mod_add_right_eq mod_less)
    moreover have "i + (64 - w) < 64" using that group_size_dvd [OF w] by linarith
    ultimately show ?thesis using p unfolding periodic_def by metis
  qed
  show lt: "CountLeadingZeros x < w"
  proof (rule ccontr)
    assume *: "\<not> CountLeadingZeros x < w"
    obtain i where i: "i < w" "bit x i" using periodic_nonzero [OF assms] by auto
    then have "bit x (i + (64 - w))" using up by simp
    moreover have "64 - CountLeadingZeros x \<le> i + (64 - w)" using * by linarith
    ultimately show False using lz(2) by blast
  qed
  show "\<not> bit x i" if "w - CountLeadingZeros x \<le> i" "i < w"
  proof -
    have "64 - CountLeadingZeros x \<le> i + (64 - w)" using that lt group_size_dvd [OF w] by linarith
    then show ?thesis using lz(2) up [OF that(2)] by blast
  qed
  have "w - 1 - CountLeadingZeros x + (64 - w) = 63 - CountLeadingZeros x"
    using lt group_size_dvd [OF w] by linarith
  then show "bit x (w - 1 - CountLeadingZeros x)"
    using up [of "w - 1 - CountLeadingZeros x"] lz(3) lt by simp
qed

lemma trailing_zeros_in_group:
  assumes "w \<in> group_sizes" "periodic w x" "x \<noteq> 0"
  shows "CountTrailingZeros x < w" "i < CountTrailingZeros x \<Longrightarrow> \<not> bit x i" "bit x (CountTrailingZeros x)"
proof -
  note tz = CountTrailingZeros_props [where x = x]
  show "bit x (CountTrailingZeros x)" using tz(3) assms(3) by simp
  show "\<not> bit x i" if "i < CountTrailingZeros x" for i using tz(2) that by simp
  obtain j where "j < w" "bit x j" using periodic_nonzero [OF assms] by auto
  then show "CountTrailingZeros x < w" using tz(2) [of j] by (meson le_less_trans not_less)
qed

text \<open>If the leading zeros, the trailing zeros and the ones make up the whole group, then the ones are
  contiguous.\<close>

lemma contiguous_ones:
  assumes "w \<in> group_sizes" "periodic w x" "x \<noteq> 0"
    and "CountLeadingZeros x + CountTrailingZeros x + card {i. i < w \<and> bit x i} = w" and "i < w"
  shows "bit x i \<longleftrightarrow> CountTrailingZeros x \<le> i \<and> i < w - CountLeadingZeros x"
proof -
  note lz = leading_zeros_in_group [OF assms(1-3)] and tz = trailing_zeros_in_group [OF assms(1-3)]
  let ?S = "{CountTrailingZeros x..<w - CountLeadingZeros x}"
  have "{i. i < w \<and> bit x i} \<subseteq> ?S"
  proof
    fix i assume "i \<in> {i. i < w \<and> bit x i}"
    then have "\<not> i < CountTrailingZeros x" "\<not> w - CountLeadingZeros x \<le> i" using lz(2) tz(2) by blast+
    then show "i \<in> ?S" by simp
  qed
  moreover have "card ?S = card {i. i < w \<and> bit x i}" using assms(4) by simp
  ultimately have "{i. i < w \<and> bit x i} = ?S" by (intro card_subset_eq) auto
  then have "i \<in> {i. i < w \<and> bit x i} \<longleftrightarrow> i \<in> ?S" by (rule arg_cong)
  then show ?thesis using assms(5) by simp
qed

lemma pattern_from_group:
  assumes w: "w \<in> group_sizes" and p: "periodic w x" and r: "r < w"
    and g: "\<And>m. m < w \<Longrightarrow> bit x m \<longleftrightarrow> (if m + r < w then m + r else m + r - w) < k"
  shows "is_pattern w k r x"
  unfolding is_pattern_def
proof (intro allI impI)
  fix i :: nat
  assume i: "i < 64"
  have m: "i mod w < w" using group_size_dvd [OF w] by simp
  have "bit x i \<longleftrightarrow> bit x (i mod w)" by (rule periodicD [OF p i])
  also have "\<dots> \<longleftrightarrow> (i mod w + r) mod w < k" unfolding add_mod_once [OF m r] by (rule g [OF m])
  also have "(i mod w + r) mod w = (i + r) mod w" by (rule mod_add_left_eq)
  finally show "bit x i \<longleftrightarrow> (i + r) mod w < k" .
qed

lemma ones_in_group:
  assumes "w \<in> group_sizes" "periodic w x" "x \<noteq> 0" "x \<noteq> - 1"
  shows "0 < card {i. i < w \<and> bit x i}" "card {i. i < w \<and> bit x i} < w"
    "card {i. i < w \<and> bit (NOT x) i} = w - card {i. i < w \<and> bit x i}"
proof -
  show "0 < card {i. i < w \<and> bit x i}"
    using periodic_nonzero [OF assms(1-3)] by (auto simp: card_gt_0_iff)
  have "NOT x \<noteq> 0" using assms(4) by (metis bit.double_compl bit.compl_zero)
  then obtain j where j: "j < w" "bit (NOT x) j"
    using periodic_nonzero [OF assms(1) periodic_not [OF assms(1,2)]] by auto
  then have "j \<notin> {i. i < w \<and> bit x i}" by (simp add: bit_simps)
  with j(1) have "{i. i < w \<and> bit x i} \<subset> {..<w}" by blast
  then have "card {i. i < w \<and> bit x i} < card {..<w}" by (intro psubset_card_mono) simp_all
  then show "card {i. i < w \<and> bit x i} < w" by simp
  have "{i. i < w \<and> bit (NOT x) i} = {..<w} - {i. i < w \<and> bit x i}"
    using group_size_dvd [OF assms(1)] by (auto simp: bit_simps)
  then show "card {i. i < w \<and> bit (NOT x) i} = w - card {i. i < w \<and> bit x i}"
    by (simp add: card_Diff_subset subset_eq)
qed

definition rotation :: "nat \<Rightarrow> nat \<Rightarrow> 64 word \<Rightarrow> nat" where
  "rotation w k x =
     (if CountLeadingZeros x + k = w then 0
      else if 0 < CountLeadingZeros x then w - CountTrailingZeros x else CountLeadingZeros (NOT x))"

lemma group_not_zero: "x \<noteq> - 1 \<Longrightarrow> NOT x \<noteq> 0" for x :: "64 word"
  by (metis bit.double_compl bit.compl_zero)

lemma leading_ones_of_run:
  assumes w: "w \<in> group_sizes" and p: "periodic w x" and nz: "x \<noteq> - 1"
    and g: "\<And>i. i < w \<Longrightarrow> bit x i \<longleftrightarrow> t \<le> i" and t: "0 < t" "t < w"
  shows "CountLeadingZeros (NOT x) = w - t"
proof -
  define l where "l = CountLeadingZeros (NOT x)"
  note lo = leading_zeros_in_group [OF w periodic_not [OF w p] group_not_zero [OF nz], folded l_def]
  have "w - 1 - l < 64" using lo(1) group_size_dvd [OF w] by linarith
  then have "\<not> bit x (w - 1 - l)" using lo(3) by (simp add: bit_simps)
  then have "w - 1 - l < t" using g [of "w - 1 - l"] lo(1) by auto
  moreover have "t \<le> w - l"
  proof (cases "l = 0")
    case False
    have "w - l < w" "w - l < 64" using False lo(1) group_size_dvd [OF w] by linarith+
    then have "bit x (w - l)" using lo(2) [of "w - l"] by (simp add: bit_simps)
    then show ?thesis using g [of "w - l"] \<open>w - l < w\<close> by simp
  qed (use t in simp)
  ultimately show ?thesis unfolding l_def [symmetric] using lo(1) by linarith
qed

lemma pattern_of_ones:
  assumes w: "w \<in> group_sizes" and p: "periodic w x" and nz: "x \<noteq> 0" "x \<noteq> - 1"
    and k: "k = card {i. i < w \<and> bit x i}" and eq: "CountLeadingZeros x + CountTrailingZeros x + k = w"
  shows "rotation w k x < w \<and> is_pattern w k (rotation w k x) x"
proof -
  define lz tz where "lz = CountLeadingZeros x" and "tz = CountTrailingZeros x"
  have kb: "0 < k" "k < w" using ones_in_group [OF w p nz] k by auto
  have e: "lz + tz + k = w" using eq unfolding lz_def tz_def .
  have g: "bit x i \<longleftrightarrow> tz \<le> i \<and> i < w - lz" if "i < w" for i
    using contiguous_ones [OF w p nz(1) eq [unfolded k] that] unfolding lz_def tz_def .
  consider "tz = 0" | "0 < tz" "0 < lz" | "0 < tz" "lz = 0" by linarith
  then obtain r where "rotation w k x = r" "r < w"
    "\<And>m. m < w \<Longrightarrow> bit x m \<longleftrightarrow> (if m + r < w then m + r else m + r - w) < k"
  proof cases
    case 1
    with e kb g show ?thesis by (intro that [of 0]) (auto simp: rotation_def lz_def)
  next
    case 2
    with e kb g show ?thesis
      by (intro that [of "w - tz"]) (auto simp: rotation_def lz_def [symmetric] tz_def [symmetric])
  next
    case 3
    have "CountLeadingZeros (NOT x) = w - tz"
      using 3 e kb g by (intro leading_ones_of_run [OF w p nz(2)]) auto
    with 3 e kb g show ?thesis
      by (intro that [of "w - tz"]) (auto simp: rotation_def lz_def [symmetric])
  qed
  then show ?thesis using pattern_from_group [OF w p] by blast
qed

lemma pattern_of_zeros:
  assumes w: "w \<in> group_sizes" and p: "periodic w x" and nz: "x \<noteq> 0" "x \<noteq> - 1"
    and k: "k = card {i. i < w \<and> bit x i}" and neq: "CountLeadingZeros x + CountTrailingZeros x + k \<noteq> w"
    and eq: "CountLeadingZeros (NOT x) + CountTrailingZeros (NOT x) + (w - k) = w"
  shows "rotation w k x < w \<and> is_pattern w k (rotation w k x) x"
proof -
  define lo to' where "lo = CountLeadingZeros (NOT x)" and "to' = CountTrailingZeros (NOT x)"
  have kb: "0 < k" "k < w" and c: "card {i. i < w \<and> bit (NOT x) i} = w - k"
    using ones_in_group [OF w p nz] k by auto
  have e: "lo + to' = k" using eq kb unfolding lo_def to'_def by linarith
  note pn = periodic_not [OF w p] and n0 = group_not_zero [OF nz(2)]
  note lz = leading_zeros_in_group [OF w p nz(1)] and tz = trailing_zeros_in_group [OF w p nz(1)]
  have w64: "i < 64" if "i < w" for i using that group_size_dvd [OF w] by linarith
  have g: "bit x i \<longleftrightarrow> i < to' \<or> w - lo \<le> i" if "i < w" for i
  proof -
    have "bit (NOT x) i \<longleftrightarrow> to' \<le> i \<and> i < w - lo"
      using contiguous_ones [OF w pn n0 _ that] eq c unfolding lo_def to'_def by simp
    then show ?thesis using w64 [OF that] by (auto simp: bit_simps)
  qed
  have "lo \<noteq> 0"
  proof
    assume "lo = 0"
    then have g0: "bit x i \<longleftrightarrow> i < k" if "i < w" for i using g [OF that] e that by auto
    have "CountTrailingZeros x = 0" using tz(2) [of 0] g0 [of 0] kb by (cases "CountTrailingZeros x = 0") auto
    moreover have "CountLeadingZeros x = w - k"
    proof -
      have "w - 1 - CountLeadingZeros x < k" using lz(1,3) g0 by auto
      moreover have "k - 1 < w" using kb by simp
      then have "\<not> w - CountLeadingZeros x \<le> k - 1" using lz(2) [OF _ \<open>k - 1 < w\<close>] g0 [OF \<open>k - 1 < w\<close>] kb by auto
      ultimately show ?thesis using kb lz(1) by linarith
    qed
    ultimately show False using neq kb by simp
  qed
  then have "bit x (w - 1)" using g [of "w - 1"] kb by auto
  moreover have "w - 1 < w" using kb by simp
  ultimately have "\<not> w - CountLeadingZeros x \<le> w - 1" using lz(2) by blast
  then have "CountLeadingZeros x = 0" using lz(1) by linarith
  then have "rotation w k x = lo" using kb by (simp add: rotation_def lo_def)
  moreover have "lo < w" using leading_zeros_in_group(1) [OF w pn n0] by (simp add: lo_def)
  moreover have "is_pattern w k lo x"
    using g e kb \<open>lo < w\<close> by (intro pattern_from_group [OF w p]) auto
  ultimately show ?thesis by simp
qed

lemma periodic_half:
  assumes w: "w \<in> group_sizes" "2 < w" and p: "periodic w x"
    and eq: "x AND (push_bit (w div 2) 1 - 1) = drop_bit (w div 2) x AND (push_bit (w div 2) 1 - 1)"
  shows "periodic (w div 2) x" "card {i. i < w \<and> bit x i} = 2 * card {i. i < w div 2 \<and> bit x i}"
proof -
  define h where "h = w div 2"
  have h: "w = 2 * h" "0 < h" "h \<le> 32" "h dvd w"
    using w unfolding h_def group_sizes_def by auto
  have sh: "bit x (h + j) \<longleftrightarrow> bit x j" if "j < h" for j
  proof -
    have "bit (x AND (2 ^ h - 1)) j \<longleftrightarrow> bit (drop_bit h x AND (2 ^ h - 1)) j"
      using eq unfolding h_def [symmetric] by simp
    then show ?thesis using that h bit_exp_minus_1 [of h j, where 'a = 64] by (auto simp: bit_simps)
  qed
  show "periodic (w div 2) x"
    unfolding periodic_def h_def [symmetric]
  proof (intro allI impI)
    fix i :: nat
    assume i: "i < 64"
    define m where "m = i mod w"
    have m: "m < w" "i mod h = m mod h" unfolding m_def using h by (simp_all add: mod_mod_cancel)
    have "bit x m \<longleftrightarrow> bit x (m mod h)"
      using sh [of "m - h"] m(1) h by (cases "m < h") (auto simp: mod_if)
    then show "bit x i \<longleftrightarrow> bit x (i mod h)"
      using periodicD [OF p i] unfolding m(2) m_def [symmetric] by blast
  qed
  have "{i. i < w \<and> bit x i} = {i. i < h \<and> bit x i} \<union> (\<lambda>i. h + i) ` {i. i < h \<and> bit x i}" (is "?L = ?A \<union> ?B")
  proof (rule set_eqI)
    fix i
    show "i \<in> ?L \<longleftrightarrow> i \<in> ?A \<union> ?B"
      using sh [of "i - h"] h by (cases "i < h") (auto simp: image_iff intro!: exI [of _ "i - h"])
  qed
  moreover have "card ?B = card ?A" by (rule card_image) simp
  moreover have "card (?A \<union> ?B) = card ?A + card ?B" by (rule card_Un_disjoint) auto
  ultimately show "card {i. i < w \<and> bit x i} = 2 * card {i. i < w div 2 \<and> bit x i}"
    unfolding h_def by simp
qed

text \<open>The fields that one pass of the loop computes.\<close>

lemma imm_s_field:
  assumes "w \<in> group_sizes" "2 < w" "0 < k" "k < w"
  shows "nat ((- (2 * int w) OR (int k - 1)) AND 0x3f) = imm_s_of w k"
proof -
  have "list_all (\<lambda>w. list_all (\<lambda>k. nat ((- (2 * int w) OR (int k - 1)) AND 0x3f) = imm_s_of w k) [1..<w])
      [4, 8, 16, 32, 64]"
    by code_simp
  then show ?thesis using assms unfolding list_all_iff group_sizes_def by auto
qed

definition is_immediate :: "64 word \<Rightarrow> Operand \<Rightarrow> bool" where
  "is_immediate x op \<longleftrightarrow>
     (\<exists>w k r. w \<in> group_sizes \<and> 0 < k \<and> k < w \<and> r < w \<and> is_pattern w k r x \<and>
        op = Operand_bits (if w = 64 then 1 else 0) (imm_s_of w k) r)"

lemma pattern_of_two:
  assumes p: "periodic 2 x" and nz: "x \<noteq> 0" "x \<noteq> - 1"
  shows "is_immediate x (Operand_bits 0 0x3c (unat (x AND 3) - 1))"
proof -
  have two: "2 \<in> group_sizes" by (simp add: group_sizes_def)
  have b: "bit x 0 \<noteq> bit x 1"
  proof
    assume eq: "bit x 0 = bit x 1"
    have all: "bit x i = bit x 0" if "i < 64" for i
    proof -
      have "i mod 2 = 0 \<or> i mod 2 = 1" by linarith
      then have "bit x (i mod 2) = bit x 0" using eq by metis
      then show ?thesis using periodicD [OF p that] by blast
    qed
    show False
    proof (cases "bit x 0")
      case True
      then have "bit x i" if "i < 64" for i using all [OF that] by blast
      then have "x = - 1" by (intro bit_word_eqI) auto
      with nz show False by simp
    next
      case False
      then have "\<not> bit x i" if "i < 64" for i using all [OF that] by blast
      then have "x = 0" by (intro bit_word_eqI) auto
      with nz show False by simp
    qed
  qed
  define r where "r = (if bit x 0 then 0 else 1 :: nat)"
  have "x AND 3 = (if bit x 0 then 1 else 2)"
  proof (rule bit_word_eqI)
    fix n :: nat
    have "bit (3 :: 64 word) n \<longleftrightarrow> n = 0 \<or> n = 1"
      using bit_exp_minus_1 [of 2 n, where 'a = 64] by auto
    moreover have "bit (2 :: 64 word) n \<longleftrightarrow> n = 1" by (auto simp: bit_2_iff)
    ultimately show "bit (x AND 3) n \<longleftrightarrow> bit (if bit x 0 then 1 else 2 :: 64 word) n"
      using b by (auto simp: bit_simps bit_1_iff)
  qed
  then have "unat (x AND 3) - 1 = r" by (simp add: r_def)
  moreover have "is_pattern 2 1 r x"
    using b by (intro pattern_from_group [OF two p]) (auto simp: r_def less_2_cases_iff)
  moreover have "imm_s_of 2 1 = 0x3c" by (simp add: imm_s_of_def)
  ultimately show ?thesis
    unfolding is_immediate_def by (intro exI [of _ 2] exI [of _ 1] exI [of _ r]) (auto simp: two r_def)
qed

lemma if_disj_conv: "(if a \<or> b then x else y) = (if a then x else if b then x else y)"
  by simp

lemma logical_loop_unfold:
  assumes "w \<in> group_sizes" "2 < w" "0 < k" "k < w"
  shows "logical_loop x (CountLeadingZeros x) (CountLeadingZeros (NOT x)) (CountTrailingZeros x)
      (CountTrailingZeros (NOT x)) w k (- (2 * int w)) =
    (if CountLeadingZeros x + CountTrailingZeros x + k = w \<or>
        CountLeadingZeros (NOT x) + CountTrailingZeros (NOT x) + (w - k) = w
     then Some (Operand_bits (if w = 64 then 1 else 0) (imm_s_of w k) (rotation w k x))
     else if x AND (push_bit (w div 2) 1 - 1) = drop_bit (w div 2) x AND (push_bit (w div 2) 1 - 1)
     then logical_loop x (CountLeadingZeros x) (CountLeadingZeros (NOT x)) (CountTrailingZeros x)
       (CountTrailingZeros (NOT x)) (w div 2) (k div 2) (- (2 * int (w div 2)))
     else None)"
proof -
  have d: "drop_bit 1 (- (2 * int w)) = - (2 * int (w div 2))"
    using assms(1,2) unfolding group_sizes_def by (auto simp: drop_bit_eq_div)
  have w: "\<not> w < 2" "w \<noteq> 2" using assms by auto
  show ?thesis
    unfolding logical_loop.simps [of x _ _ _ _ w]
    by (simp only: w if_False Let_def imm_s_field [OF assms] d rotation_def [symmetric])
      (simp only: if_disj_conv)
qed

lemma logical_loop_sound:
  assumes "w \<in> group_sizes" "periodic w x" "x \<noteq> 0" "x \<noteq> - 1" "k = card {i. i < w \<and> bit x i}"
    and "logical_loop x (CountLeadingZeros x) (CountLeadingZeros (NOT x)) (CountTrailingZeros x)
      (CountTrailingZeros (NOT x)) w k (- (2 * int w)) = Some op"
  shows "is_immediate x op"
  using assms
proof (induction w arbitrary: k rule: less_induct)
  case (less w)
  show ?case
  proof (cases "w = 2")
    case True
    then have "op = Operand_bits 0 0x3c (unat (x AND 3) - 1)"
      using less.prems(6) by (subst (asm) logical_loop.simps) simp
    then show ?thesis using pattern_of_two less.prems True by auto
  next
    case False
    then have w2: "2 < w" using less.prems(1) by (auto simp: group_sizes_def)
    have kb: "0 < k" "k < w" using ones_in_group [OF less.prems(1-4)] less.prems(5) by auto
    note loop = less.prems(6) [unfolded logical_loop_unfold [OF less.prems(1) w2 kb]]
    show ?thesis
    proof (cases "CountLeadingZeros x + CountTrailingZeros x + k = w \<or>
        CountLeadingZeros (NOT x) + CountTrailingZeros (NOT x) + (w - k) = w")
      case True
      then have "rotation w k x < w \<and> is_pattern w k (rotation w k x) x"
        using pattern_of_ones [OF less.prems(1-5)] pattern_of_zeros [OF less.prems(1-5)] by blast
      moreover have "op = Operand_bits (if w = 64 then 1 else 0) (imm_s_of w k) (rotation w k x)"
        using loop True by (simp only: if_True option.inject)
      ultimately show ?thesis
        using less.prems(1) kb unfolding is_immediate_def by blast
    next
      case neq: False
      then have half: "x AND (push_bit (w div 2) 1 - 1) = drop_bit (w div 2) x AND (push_bit (w div 2) 1 - 1)"
        using loop by (metis option.distinct(1))
      have rec: "logical_loop x (CountLeadingZeros x) (CountLeadingZeros (NOT x)) (CountTrailingZeros x)
          (CountTrailingZeros (NOT x)) (w div 2) (k div 2) (- (2 * int (w div 2))) = Some op"
        using loop unfolding if_not_P [OF neq] if_P [OF half] .
      note ph = periodic_half [OF less.prems(1) w2 less.prems(2) half]
      have g: "w div 2 \<in> group_sizes" "w div 2 < w" using less.prems(1) w2 by (auto simp: group_sizes_def)
      have "k div 2 = card {i. i < w div 2 \<and> bit x i}" using ph(2) less.prems(5) by simp
      then show ?thesis
        using less.IH [OF g(2) g(1) ph(1) less.prems(3,4) _ rec] by blast
    qed
  qed
qed

text \<open>Conversely, every such pattern is recognised.\<close>

lemma counts_of_run:
  assumes w: "w \<in> group_sizes" and p: "periodic w x" and ab: "a < b" "b \<le> w"
    and g: "\<And>i. i < w \<Longrightarrow> bit x i \<longleftrightarrow> a \<le> i \<and> i < b"
  shows "CountTrailingZeros x = a" "CountLeadingZeros x = w - b" "card {i. i < w \<and> bit x i} = b - a"
proof -
  have nz: "x \<noteq> 0" using g [of a] ab by auto
  note tz = trailing_zeros_in_group [OF w p nz] and lz = leading_zeros_in_group [OF w p nz]
  have "\<not> a < CountTrailingZeros x" using tz(2) [of a] g [of a] ab by auto
  moreover have "a \<le> CountTrailingZeros x" using tz(1,3) g [of "CountTrailingZeros x"] by auto
  ultimately show "CountTrailingZeros x = a" by linarith
  have "b - 1 < w" using ab by linarith
  moreover have "bit x (b - 1)" using g [OF \<open>b - 1 < w\<close>] ab by simp
  ultimately have "\<not> w - CountLeadingZeros x \<le> b - 1" using lz(2) by blast
  moreover have "w - 1 - CountLeadingZeros x < b" using lz(1,3) g [of "w - 1 - CountLeadingZeros x"] by simp
  ultimately show "CountLeadingZeros x = w - b" using lz(1) ab by linarith
  have "i \<in> {i. i < w \<and> bit x i} \<longleftrightarrow> i \<in> {a..<b}" for i
    using g [of i] ab by (cases "i < w") auto
  then have "{i. i < w \<and> bit x i} = {a..<b}" by blast
  then show "card {i. i < w \<and> bit x i} = b - a" by simp
qed

lemma pattern_periodic: "w \<in> group_sizes \<Longrightarrow> is_pattern w k r x \<Longrightarrow> periodic w x"
proof -
  assume w: "w \<in> group_sizes" and p: "is_pattern w k r x"
  have "bit x i \<longleftrightarrow> bit x (i mod w)" if "i < 64" for i
  proof -
    have "i mod w < 64" using group_size_dvd [OF w] by (meson less_le_trans mod_less_divisor)
    then have "bit x (i mod w) \<longleftrightarrow> (i mod w + r) mod w < k" using p unfolding is_pattern_def by blast
    also have "(i mod w + r) mod w = (i + r) mod w" by (rule mod_add_left_eq)
    finally show ?thesis using p that unfolding is_pattern_def by blast
  qed
  then show ?thesis unfolding periodic_def by blast
qed

lemma pattern_recognised:
  assumes w: "w \<in> group_sizes" and k: "0 < k" "k < w" and r: "r < w" and p: "is_pattern w k r x"
  shows "CountLeadingZeros x + CountTrailingZeros x + card {i. i < w \<and> bit x i} = w \<or>
         CountLeadingZeros (NOT x) + CountTrailingZeros (NOT x) + (w - card {i. i < w \<and> bit x i}) = w"
proof -
  note per = pattern_periodic [OF w p]
  have w64: "i < 64" if "i < w" for i using that group_size_dvd [OF w] by linarith
  have g: "bit x i \<longleftrightarrow> (if i + r < w then i + r else i + r - w) < k" if "i < w" for i
    using p w64 [OF that] add_mod_once [OF that r] unfolding is_pattern_def by simp
  consider "r = 0" | "0 < r" "k \<le> r" | "r < k" "0 < r" by linarith
  then show ?thesis
  proof cases
    case 1
    then show ?thesis using counts_of_run [OF w per, of 0 k] g k by auto
  next
    case 2
    then have "bit x i \<longleftrightarrow> w - r \<le> i \<and> i < w - r + k" if "i < w" for i using g [OF that] that k r by auto
    moreover have "w - r + k \<le> w" "w - r < w - r + k" using 2 k r by linarith+
    ultimately show ?thesis using counts_of_run [OF w per, of "w - r" "w - r + k"] 2 k r by auto
  next
    case 3
    have n: "bit (NOT x) i \<longleftrightarrow> k - r \<le> i \<and> i < w - r" if "i < w" for i
      using g [OF that] w64 [OF that] that 3 k r by (auto simp: bit_simps)
    have "k - r < w - r" "w - r \<le> w" using 3 k r by linarith+
    note c = counts_of_run [OF w periodic_not [OF w per] this n]
    have "k - r < w" using k by linarith
    then have "bit x 0" "\<not> bit x (k - r)" "k - r < 64" using g [of 0] g [of "k - r"] w64 3 k r by auto
    then have nz: "x \<noteq> 0" "x \<noteq> - 1" by auto
    have "card {i. i < w \<and> bit x i} \<le> w" using ones_in_group(2) [OF w per nz] by simp
    then show ?thesis using c ones_in_group(3) [OF w per nz] 3 k r by simp
  qed
qed

lemma logical_loop_complete:
  assumes "W \<in> group_sizes" "periodic W x" "x \<noteq> 0" "x \<noteq> - 1" "K = card {i. i < W \<and> bit x i}"
    and "w dvd W" "w \<in> group_sizes" "0 < k" "k < w" "r < w" "is_pattern w k r x"
  shows "logical_loop x (CountLeadingZeros x) (CountLeadingZeros (NOT x)) (CountTrailingZeros x)
      (CountTrailingZeros (NOT x)) W K (- (2 * int W)) \<noteq> None"
  using assms(1-6)
proof (induction W arbitrary: K rule: less_induct)
  case (less W)
  show ?case
  proof (cases "W = 2")
    case True
    then show ?thesis by (simp add: logical_loop.simps [of x _ _ _ _ 2])
  next
    case False
    then have W2: "2 < W" using less.prems(1) by (auto simp: group_sizes_def)
    have Kb: "0 < K" "K < W" using ones_in_group [OF less.prems(1-4)] less.prems(5) by auto
    show ?thesis
    proof (cases "w = W")
      case True
      then show ?thesis
        unfolding logical_loop_unfold [OF less.prems(1) W2 Kb]
        using pattern_recognised [OF assms(7-11)] less.prems(5) by simp
    next
      case False
      define h where "h = W div 2"
      have h: "h \<in> group_sizes" "h < W" "W = 2 * h" "w dvd h"
        using less.prems(1,6) W2 False assms(7) unfolding h_def group_sizes_def by auto
      have "x AND (push_bit h 1 - 1) = drop_bit h x AND (push_bit h 1 - 1)" (is "?half")
      proof (rule bit_word_eqI)
        fix i :: nat
        have "bit x (i + h) \<longleftrightarrow> bit x i" if "i < h"
        proof -
          have "(i + h) mod w = i mod w" using h(4) by (metis add.right_neutral dvd_imp_mod_0 mod_add_right_eq)
          moreover have "i + h < 64" "i < 64" using that h(3) group_size_dvd [OF less.prems(1)] by linarith+
          ultimately show ?thesis using periodicD [OF pattern_periodic [OF assms(7,11)]] by metis
        qed
        then show "bit (x AND (push_bit h 1 - 1)) i \<longleftrightarrow> bit (drop_bit h x AND (push_bit h 1 - 1)) i"
          using group_size_dvd [OF h(1)] bit_exp_minus_1 [of h i, where 'a = 64] by (auto simp: bit_simps ac_simps)
      qed
      note ph = periodic_half [OF less.prems(1) W2 less.prems(2) this [unfolded h_def], folded h_def]
      have "K div 2 = card {i. i < h \<and> bit x i}" using ph(2) less.prems(5) by simp
      from less.IH [OF h(2,1) ph(1) less.prems(3,4) this h(4)]
      show ?thesis
        unfolding logical_loop_unfold [OF less.prems(1) W2 Kb] h_def [symmetric] if_P [OF \<open>?half\<close>] by simp
    qed
  qed
qed

lemma IsImmLogical_64:
  "IsImmLogical x 64 =
     (if x = 0 \<or> x = - 1 then None
      else logical_loop x (CountLeadingZeros x) (CountLeadingZeros (NOT x)) (CountTrailingZeros x)
        (CountTrailingZeros (NOT x)) 64 (card {i. i < 64 \<and> bit x i}) (- (2 * int 64)))"
proof -
  have "(0xffffffffffffffff :: 64 word) = - 1" by simp
  then show ?thesis
    by (simp only: IsImmLogical_def kXRegSizeInBits_def kWRegSizeInBits_def CountLeadingZeros_width_def
        CountOneBits_64 Let_def) simp
qed

lemma IsImmLogical_sound: "IsImmLogical x 64 = Some op \<Longrightarrow> is_immediate x op"
proof -
  assume some: "IsImmLogical x 64 = Some op"
  have nz: "x \<noteq> 0" "x \<noteq> - 1" using some unfolding IsImmLogical_64 by (auto split: if_splits)
  have "64 \<in> group_sizes" "periodic 64 x" by (simp_all add: group_sizes_def periodic_def)
  from logical_loop_sound [OF this nz refl] show ?thesis using some nz unfolding IsImmLogical_64 by simp
qed

lemma is_immediate_decode:
  assumes "is_immediate x op"
  shows "\<exists>n s r. op = Operand_bits n s r \<and> n < 2 \<and> s < 64 \<and> r < 64 \<and> DecodeImmLogical 64 n s r = x"
proof -
  obtain w k r where w: "w \<in> group_sizes" "0 < k" "k < w" "r < w" and p: "is_pattern w k r x"
    and op: "op = Operand_bits (if w = 64 then 1 else 0) (imm_s_of w k) r"
    using assms unfolding is_immediate_def by blast
  have "DecodeImmLogical 64 (if w = 64 then 1 else 0) (imm_s_of w k) r = x"
    using DecodeImmLogical_pattern [of w r k] w p is_pattern_unique unfolding group_sizes_def by blast
  moreover have "imm_s_of w k < 64" "r < 64" using w unfolding imm_s_of_def group_sizes_def by auto
  ultimately show ?thesis
    unfolding op by (intro exI [of _ "if w = 64 then 1 else 0"] exI [of _ "imm_s_of w k"] exI [of _ r]) simp
qed

text \<open>C30.  The assembler recognises exactly the logical immediates and encodes them correctly.  Whenever
  \<open>IsImmLogical\<close> accepts a 64-bit value, the three fields it produces fit their widths and the decoder of
  the instruction set turns them back into the value; and it rejects a value only if the value is not a
  repetition of groups of 2, 4, 8, 16, 32 or 64 bits that each are a rotated run of ones.\<close>

theorem logical_immediate_roundtrip:
  "case IsImmLogical x 64 of
     Some op \<Rightarrow> \<exists>n s r. op = Operand_bits n s r \<and> n < 2 \<and> s < 64 \<and> r < 64 \<and> DecodeImmLogical 64 n s r = x
   | None \<Rightarrow> \<not> (\<exists>w k r. w \<in> {2, 4, 8, 16, 32, 64} \<and> 0 < k \<and> k < w \<and> r < w \<and> is_pattern w k r x)"
proof (cases "IsImmLogical x 64")
  case (Some op)
  then show ?thesis using is_immediate_decode [OF IsImmLogical_sound [OF Some]] by simp
next
  case None
  have "\<not> is_pattern w k r x" if w: "w \<in> group_sizes" "0 < k" "k < w" "r < w" for w k r
  proof
    assume p: "is_pattern w k r x"
    have "(w - 1 - r + r) mod w = w - 1" "((w - r) mod w + r) mod w = 0" "w - 1 - r < 64" "(w - r) mod w < 64"
      using w group_size_dvd [OF w(1)] by (auto simp: mod_if)
    then have "\<not> bit x (w - 1 - r)" "bit x ((w - r) mod w)"
      using p w unfolding is_pattern_def by auto
    then have nz: "x \<noteq> 0" "x \<noteq> - 1" using \<open>w - 1 - r < 64\<close> by auto
    have "w dvd 64" "64 \<in> group_sizes" "periodic 64 x"
      using group_size_dvd [OF w(1)] by (auto simp: group_sizes_def periodic_def)
    with logical_loop_complete [OF _ _ nz refl _ w p, of 64] None nz show False
      unfolding IsImmLogical_64 by simp
  qed
  then show ?thesis using None unfolding group_sizes_def by auto
qed

end
