(* ===== verification/Arm64_Exec.thy ===== *)
theory Arm64_Exec
  imports Arm64_Immediate
begin

unbundle bit_operations_syntax

text \<open>
  The integer instructions that the assembler emits, as an instruction set of their own: a datatype of
  instructions with their operands, the word the assembler encodes each of them to, and the meaning the
  architecture gives it (over unbounded integers where the operation is arithmetic).  The simulator,
  given the encoded word, carries out exactly that meaning and goes to the next instruction.
\<close>

section \<open>Instructions and their meaning\<close>

datatype logic_op = LAnd | LOrr | LEor

datatype isa =
    IAddSub bool bool nat nat nat Shift nat
  | IAddSubImm bool bool nat nat nat bool
  | ICarry bool nat nat nat
  | ILogic logic_op nat nat nat Shift nat
  | ILogicImm logic_op nat nat "64 word"
  | IClz nat nat
  | IRbit nat nat
  | IDiv bool nat nat nat
  | IShiftVar Shift nat nat nat
  | IMulAdd bool nat nat nat nat
  | IMulHigh bool nat nat nat
  | ISelect bool nat nat nat Condition
  | IMovZ nat "64 word" nat
  | IMovN nat "64 word" nat
  | IMovK nat "64 word" nat

text \<open>The word that the assembler emits for each instruction, in its 64-bit form.\<close>

fun encode :: "isa \<Rightarrow> 32 word" where
  "encode (IAddSub set_flags subtract rd rn rm sh k) =
     AddSubHelper kEightBytes set_flags subtract rd rn (Operand_shift rm sh k)"
| "encode (IAddSubImm set_flags subtract rd rn imm up) =
     AddSubHelper kEightBytes set_flags subtract rd rn (Operand_imm (of_nat (if up then imm * 2 ^ 12 else imm)))"
| "encode (ICarry subtract rd rn rm) = (if subtract then sbc rd rn rm else adc rd rn rm)"
| "encode (ILogic LAnd rd rn rm sh k) = and_instr rd rn (Operand_shift rm sh k) kEightBytes"
| "encode (ILogic LOrr rd rn rm sh k) = orr rd rn (Operand_shift rm sh k) kEightBytes"
| "encode (ILogic LEor rd rn rm sh k) = eor rd rn (Operand_shift rm sh k) kEightBytes"
| "encode (ILogicImm op rd rn imm) =
     (case (case op of LAnd \<Rightarrow> andi rd rn imm kEightBytes | LOrr \<Rightarrow> orri rd rn imm kEightBytes
            | LEor \<Rightarrow> eori rd rn imm kEightBytes) of
        Some i \<Rightarrow> i | None \<Rightarrow> 0)"
| "encode (IClz rd rn) = clz rd rn"
| "encode (IRbit rd rn) = rbit rd rn"
| "encode (IDiv is_signed rd rn rm) =
     (if is_signed then sdiv_instr rd rn rm kEightBytes else udiv_instr rd rn rm kEightBytes)"
| "encode (IShiftVar LSL rd rn rm) = lslv rd rn rm kEightBytes"
| "encode (IShiftVar LSR rd rn rm) = lsrv rd rn rm kEightBytes"
| "encode (IShiftVar ASR rd rn rm) = asrv rd rn rm kEightBytes"
| "encode (IShiftVar ROR rd rn rm) = 0"
| "encode (IMulAdd subtract rd rn rm ra) =
     (if subtract then msub rd rn rm ra kEightBytes else madd rd rn rm ra kEightBytes)"
| "encode (IMulHigh is_signed rd rn rm) =
     (if is_signed then smulh rd rn rm kEightBytes else umulh rd rn rm kEightBytes)"
| "encode (ISelect inc rd rn rm cond) =
     (if inc then csinc rd rn rm cond kEightBytes else csel rd rn rm cond)"
| "encode (IMovZ rd imm hw) = movz rd imm hw"
| "encode (IMovN rd imm hw) = movn rd imm hw"
| "encode (IMovK rd imm hw) = movk rd imm hw"

text \<open>A register operand: one of \<open>R0\<close> to \<open>R30\<close>, or the zero register.\<close>

definition reg_ok :: "nat \<Rightarrow> bool" where
  "reg_ok r \<longleftrightarrow> r < 31 \<or> r = ZR"

text \<open>The operands that the assembler accepts.\<close>

fun valid :: "isa \<Rightarrow> bool" where
  "valid (IAddSub _ _ rd rn rm _ k) \<longleftrightarrow> reg_ok rd \<and> reg_ok rn \<and> reg_ok rm \<and> k < 64"
| "valid (IAddSubImm set_flags _ rd rn imm up) \<longleftrightarrow>
     (rd < 31 \<or> (set_flags \<and> rd = ZR)) \<and> rn < 31 \<and> imm < 2 ^ 12 \<and> (up \<longrightarrow> 0 < imm)"
| "valid (ICarry _ rd rn rm) \<longleftrightarrow> reg_ok rd \<and> reg_ok rn \<and> reg_ok rm"
| "valid (ILogic _ rd rn rm _ k) \<longleftrightarrow> reg_ok rd \<and> reg_ok rn \<and> reg_ok rm \<and> k < 64"
| "valid (ILogicImm _ rd rn imm) \<longleftrightarrow> rd < 31 \<and> reg_ok rn \<and> IsImmLogical imm kXRegSizeInBits \<noteq> None"
| "valid (IClz rd rn) \<longleftrightarrow> reg_ok rd \<and> reg_ok rn"
| "valid (IRbit rd rn) \<longleftrightarrow> reg_ok rd \<and> reg_ok rn"
| "valid (IDiv _ rd rn rm) \<longleftrightarrow> reg_ok rd \<and> reg_ok rn \<and> reg_ok rm"
| "valid (IShiftVar sh rd rn rm) \<longleftrightarrow> sh \<noteq> ROR \<and> reg_ok rd \<and> reg_ok rn \<and> reg_ok rm"
| "valid (IMulAdd _ rd rn rm ra) \<longleftrightarrow> reg_ok rd \<and> reg_ok rn \<and> reg_ok rm \<and> reg_ok ra"
| "valid (IMulHigh _ rd rn rm) \<longleftrightarrow> reg_ok rd \<and> reg_ok rn \<and> reg_ok rm"
| "valid (ISelect _ rd rn rm cond) \<longleftrightarrow> reg_ok rd \<and> reg_ok rn \<and> reg_ok rm \<and> cond \<noteq> NV"
| "valid (IMovZ rd _ hw) \<longleftrightarrow> reg_ok rd \<and> hw < 4"
| "valid (IMovN rd _ hw) \<longleftrightarrow> reg_ok rd \<and> hw < 4"
| "valid (IMovK rd _ hw) \<longleftrightarrow> reg_ok rd \<and> hw < 4"

text \<open>Reading and writing a register; the zero register reads as zero and ignores writes.\<close>

definition xreg :: "sim \<Rightarrow> nat \<Rightarrow> 64 word" where
  "xreg s r = (if r = ZR then 0 else registers s r)"

definition write_x :: "nat \<Rightarrow> 64 word \<Rightarrow> sim \<Rightarrow> sim" where
  "write_x r v s = (if r = ZR then s else s\<lparr>registers := (registers s)(r := v)\<rparr>)"

definition advance :: "sim \<Rightarrow> sim" where
  "advance s = s\<lparr>pc_modified := True, last_pc := pc s, pc := pc s + 4\<rparr>"

fun shifted :: "Shift \<Rightarrow> nat \<Rightarrow> 64 word \<Rightarrow> 64 word" where
  "shifted LSL k x = push_bit k x"
| "shifted LSR k x = drop_bit k x"
| "shifted ASR k x = signed_drop_bit k x"
| "shifted ROR k x = word_rotr k x"

text \<open>The flags of an addition and of a subtraction.\<close>

definition add_flags :: "64 word \<Rightarrow> 64 word \<Rightarrow> sim \<Rightarrow> sim" where
  "add_flags l r s = s\<lparr>n_flag := sint (l + r) < 0, z_flag := l + r = 0,
     c_flag := 2 ^ 64 \<le> uint l + uint r,
     v_flag := sint l + sint r < - (2 ^ 63) \<or> 2 ^ 63 \<le> sint l + sint r\<rparr>"

definition sub_flags :: "64 word \<Rightarrow> 64 word \<Rightarrow> sim \<Rightarrow> sim" where
  "sub_flags l r s = s\<lparr>n_flag := sint (l - r) < 0, z_flag := l = r,
     c_flag := r \<le> l,
     v_flag := sint l - sint r < - (2 ^ 63) \<or> 2 ^ 63 \<le> sint l - sint r\<rparr>"

fun cond_holds :: "Condition \<Rightarrow> sim \<Rightarrow> bool" where
  "cond_holds EQ s = z_flag s"
| "cond_holds NE s = (\<not> z_flag s)"
| "cond_holds CS s = c_flag s"
| "cond_holds CC s = (\<not> c_flag s)"
| "cond_holds MI s = n_flag s"
| "cond_holds PL s = (\<not> n_flag s)"
| "cond_holds VS s = v_flag s"
| "cond_holds VC s = (\<not> v_flag s)"
| "cond_holds HI s = (c_flag s \<and> \<not> z_flag s)"
| "cond_holds LS s = (\<not> c_flag s \<or> z_flag s)"
| "cond_holds GE s = (n_flag s = v_flag s)"
| "cond_holds LT s = (n_flag s \<noteq> v_flag s)"
| "cond_holds GT s = (\<not> z_flag s \<and> n_flag s = v_flag s)"
| "cond_holds LE s = (z_flag s \<or> n_flag s \<noteq> v_flag s)"
| "cond_holds AL s = True"
| "cond_holds NV s = True"

definition addsub :: "bool \<Rightarrow> bool \<Rightarrow> nat \<Rightarrow> 64 word \<Rightarrow> 64 word \<Rightarrow> sim \<Rightarrow> sim" where
  "addsub set_flags subtract rd l r s =
     (let s' = write_x rd (if subtract then l - r else l + r) s
      in if set_flags then (if subtract then sub_flags l r s' else add_flags l r s') else s')"

fun sem :: "isa \<Rightarrow> sim \<Rightarrow> sim" where
  "sem (IAddSub set_flags subtract rd rn rm sh k) s =
     addsub set_flags subtract rd (xreg s rn) (shifted sh k (xreg s rm)) s"
| "sem (IAddSubImm set_flags subtract rd rn imm up) s =
     addsub set_flags subtract rd (xreg s rn) (of_nat (if up then imm * 2 ^ 12 else imm)) s"
| "sem (ICarry subtract rd rn rm) s =
     write_x rd (if subtract then xreg s rn - xreg s rm - (if c_flag s then 0 else 1)
                 else xreg s rn + xreg s rm + (if c_flag s then 1 else 0)) s"
| "sem (ILogic op rd rn rm sh k) s =
     (let l = xreg s rn; r = shifted sh k (xreg s rm)
      in write_x rd (case op of LAnd \<Rightarrow> l AND r | LOrr \<Rightarrow> l OR r | LEor \<Rightarrow> l XOR r) s)"
| "sem (ILogicImm op rd rn imm) s =
     (let l = xreg s rn
      in write_x rd (case op of LAnd \<Rightarrow> l AND imm | LOrr \<Rightarrow> l OR imm | LEor \<Rightarrow> l XOR imm) s)"
| "sem (IClz rd rn) s = write_x rd (of_nat (CountLeadingZeros (xreg s rn))) s"
| "sem (IRbit rd rn) s = write_x rd (word_reverse (xreg s rn)) s"
| "sem (IDiv is_signed rd rn rm) s =
     (let l = xreg s rn; r = xreg s rm
      in write_x rd (if r = 0 then 0 else if is_signed then word_of_int (tdiv (sint l) (sint r))
                     else word_of_int (uint l div uint r)) s)"
| "sem (IShiftVar sh rd rn rm) s = write_x rd (shifted sh (unat (xreg s rm) mod 64) (xreg s rn)) s"
| "sem (IMulAdd subtract rd rn rm ra) s =
     (let p = xreg s rn * xreg s rm
      in write_x rd (if subtract then xreg s ra - p else xreg s ra + p) s)"
| "sem (IMulHigh is_signed rd rn rm) s =
     write_x rd (if is_signed then word_of_int (sint (xreg s rn) * sint (xreg s rm) div 2 ^ 64)
                 else word_of_int (uint (xreg s rn) * uint (xreg s rm) div 2 ^ 64)) s"
| "sem (ISelect inc rd rn rm cond) s =
     write_x rd (if cond_holds cond s then xreg s rn else if inc then xreg s rm + 1 else xreg s rm) s"
| "sem (IMovZ rd imm hw) s = write_x rd (push_bit (16 * hw) (take_bit 16 imm)) s"
| "sem (IMovN rd imm hw) s = write_x rd (NOT (push_bit (16 * hw) (take_bit 16 imm))) s"
| "sem (IMovK rd imm hw) s =
     write_x rd ((xreg s rd AND NOT (push_bit (16 * hw) (mask 16))) OR push_bit (16 * hw) (take_bit 16 imm)) s"

section \<open>Dispatch\<close>

text \<open>The class of each instruction and the simulator's decoder for the class.\<close>

fun class_of :: "isa \<Rightarrow> op_class" where
  "class_of (IAddSub _ _ _ _ _ _ _) = AddSubShiftExt"
| "class_of (IAddSubImm _ _ _ _ _ _) = AddSubImm"
| "class_of (ICarry _ _ _ _) = AddSubWithCarry"
| "class_of (ILogic _ _ _ _ _ _) = LogicalShift"
| "class_of (ILogicImm _ _ _ _) = LogicalImm"
| "class_of (IClz _ _) = MiscDP1Source"
| "class_of (IRbit _ _) = MiscDP1Source"
| "class_of (IDiv _ _ _ _) = MiscDP2Source"
| "class_of (IShiftVar _ _ _ _) = MiscDP2Source"
| "class_of (IMulAdd _ _ _ _ _) = MiscDP3Source"
| "class_of (IMulHigh _ _ _ _) = MiscDP3Source"
| "class_of (ISelect _ _ _ _ _) = ConditionalSelect"
| "class_of (IMovZ _ _ _) = MoveWide"
| "class_of (IMovN _ _ _) = MoveWide"
| "class_of (IMovK _ _ _) = MoveWide"

fun class_decoder :: "op_class \<Rightarrow> (32 word \<Rightarrow> sim \<Rightarrow> sim exec) option" where
  "class_decoder AddSubShiftExt = Some DecodeAddSubShiftExt"
| "class_decoder AddSubImm = Some DecodeAddSubImm"
| "class_decoder AddSubWithCarry = Some DecodeAddSubWithCarry"
| "class_decoder LogicalShift = Some DecodeLogicalShift"
| "class_decoder LogicalImm = Some DecodeLogicalImm"
| "class_decoder MiscDP1Source = Some DecodeMiscDP1Source"
| "class_decoder MiscDP2Source = Some DecodeMiscDP2Source"
| "class_decoder MiscDP3Source = Some DecodeMiscDP3Source"
| "class_decoder ConditionalSelect = Some DecodeConditionalSelect"
| "class_decoder MoveWide = Some DecodeMoveWide"
| "class_decoder _ = None"

lemma IsOp_disjoint:
  assumes "IsOp c i"
    and "op_fixed c AND op_mask c AND op_mask d \<noteq> op_fixed d AND op_mask d AND op_mask c"
  shows "IsOp d i = False"
  using IsOp_conflict [OF assms] by simp

lemma IsOp_included:
  assumes "IsOp c i" and "op_mask c AND op_mask d = op_mask d"
    and "op_fixed c AND op_mask c AND op_mask d = op_fixed d AND op_mask d"
  shows "IsOp d i = True"
  using IsOp_wider [OF assms] by simp

lemmas main_classes =
  IsOp_disjoint [where d = DPImmediate] IsOp_disjoint [where d = CompareBranch]
  IsOp_disjoint [where d = LoadStore] IsOp_disjoint [where d = DPRegister]
  IsOp_included [where d = DPImmediate] IsOp_included [where d = DPRegister]

lemmas sub_classes =
  IsOp_disjoint [where d = AddSubShiftExt] IsOp_disjoint [where d = AddSubImm]
  IsOp_disjoint [where d = AddSubWithCarry] IsOp_disjoint [where d = LogicalShift]
  IsOp_disjoint [where d = LogicalImm] IsOp_disjoint [where d = MiscDP1Source]
  IsOp_disjoint [where d = MiscDP2Source] IsOp_disjoint [where d = MiscDP3Source]
  IsOp_disjoint [where d = MoveWide] IsOp_disjoint [where d = Bitfield] IsOp_disjoint [where d = PCRel]

lemma InstructionDecode_class:
  assumes "IsOp c i" and "class_decoder c = Some dec" and "dec i (s\<lparr>pc_modified := False\<rparr>) = ret t"
    and "pc t = pc s" and "\<not> pc_modified t"
  shows "InstructionDecode other i s = ret (advance t)"
proof -
  note main = main_classes [OF assms(1)] and sub = sub_classes [OF assms(1)]
  have "(if IsOp DPImmediate i then DecodeDPImmediate i s'
         else if IsOp CompareBranch i then DecodeCompareBranch other i s'
         else if IsOp LoadStore i then DecodeLoadStore other i s'
         else if IsOp DPRegister i then DecodeDPRegister i s' else z) = dec i s'" for s' z
    using assms(1,2)
    by (cases c) (simp_all add: main sub DecodeDPRegister_def DecodeDPImmediate_def)
  then show ?thesis
    using assms(3-5) by (simp add: InstructionDecode_def Let_def advance_def set_pc_def)
qed

section \<open>Encoded fields\<close>

lemma ConcreteRegister_lt [simp]: "reg_ok r \<Longrightarrow> ConcreteRegister r < 32"
  by (auto simp: reg_ok_def ConcreteRegister_def ZR_def CSP_def R31_def)

lemma ConcreteRegister_le [simp]: "reg_ok r \<Longrightarrow> 32 \<le> n \<Longrightarrow> ConcreteRegister r < n"
  using ConcreteRegister_lt [of r] by linarith

lemma ConcreteRegister_idem [simp]: "reg_ok r \<Longrightarrow> ConcreteRegister (ConcreteRegister r) = ConcreteRegister r"
  by (auto simp: reg_ok_def ConcreteRegister_def ZR_def CSP_def R31_def)

lemma ConcreteRegister_R31 [simp]: "ConcreteRegister R31 = 31"
  by (simp add: ConcreteRegister_def ZR_def CSP_def R31_def)

lemma reg_ok_gp: "r < 31 \<Longrightarrow> reg_ok r"
  by (simp add: reg_ok_def)

lemma ConcreteRegister_gp: "r < 31 \<Longrightarrow> ConcreteRegister r = r"
  by (auto simp: ConcreteRegister_def ZR_def CSP_def)

lemma get_register_ok [simp]: "reg_ok r \<Longrightarrow> get_register (ConcreteRegister r) R31IsZR s = xreg s r"
  by (auto simp: reg_ok_def ConcreteRegister_def ZR_def CSP_def R31_def get_register_def xreg_def)

lemma set_register_ok [simp]: "reg_ok r \<Longrightarrow> set_register (ConcreteRegister r) v R31IsZR s = ret (write_x r v s)"
  by (auto simp: reg_ok_def ConcreteRegister_def ZR_def CSP_def R31_def set_register_def write_x_def)

lemmas opcodes = ADD_op_def SUB_op_def ADC_def SBC_def CSEL_def CSINC_def CLZ_def RBIT_def UDIV_def SDIV_def
  LSLV_def LSRV_def ASRV_def MADD_def MSUB_def SMULH_def UMULH_def AND_op_def ORR_def EOR_def
  ADDI_def SUBI_def MOVZ_def MOVN_def MOVK_def

lemmas encoders = AddSubHelper_def AddSubWithCarryHelper_def EmitAddSubShiftExtOp_def EmitLogicalShiftOp_def
  EmitMiscDP1Source_def EmitMiscDP2Source_def EmitMiscDP3Source_def EmitConditionalSelect_def
  EmitMoveWideOp_def Operand_shift_def adc_def sbc_def and_instr_def orr_def eor_def clz_def rbit_def
  udiv_instr_def sdiv_instr_def lslv_def lsrv_def asrv_def madd_def msub_def smulh_def umulh_def
  csel_def csinc_def movz_def movn_def movk_def size_bit_def flags_bit_def Rd_enc_def Rn_enc_def Rm_enc_def
  Ra_enc_def Let_def

lemma encode_AddSub:
  assumes "valid (IAddSub fl subt rd rn rm sh k)" (is "valid ?I")
  shows "IsOp AddSubShiftExt (encode ?I)" "RdField (encode ?I) = ConcreteRegister rd"
    "RnField (encode ?I) = ConcreteRegister rn" "RmField (encode ?I) = ConcreteRegister rm"
    "ShiftTypeField (encode ?I) = sh" "Imm6Field (encode ?I) = k" "SFField (encode ?I) = 1"
    "HasS (encode ?I) = fl" "Bit (encode ?I) 30 = (if subt then 1 else 0)" "Bit (encode ?I) 21 = 0"
  using assms
  by (simp_all add: encoders opcodes instr_fields HasS_def IsOp_def field_simps and_distrib_or)

lemma encode_Carry:
  assumes "valid (ICarry subt rd rn rm)" (is "valid ?I")
  shows "IsOp AddSubWithCarry (encode ?I)" "RdField (encode ?I) = ConcreteRegister rd"
    "RnField (encode ?I) = ConcreteRegister rn" "RmField (encode ?I) = ConcreteRegister rm" "SFField (encode ?I) = 1"
    "HasS (encode ?I) = False" "Bit (encode ?I) 30 = (if subt then 1 else 0)"
  using assms
  by (simp_all add: encoders opcodes instr_fields HasS_def IsOp_def field_simps and_distrib_or)

lemma encode_Logic:
  assumes "valid (ILogic op rd rn rm sh k)" (is "valid ?I")
  shows "IsOp LogicalShift (encode ?I)" "RdField (encode ?I) = ConcreteRegister rd"
    "RnField (encode ?I) = ConcreteRegister rn" "RmField (encode ?I) = ConcreteRegister rm"
    "ShiftTypeField (encode ?I) = sh" "Imm6Field (encode ?I) = k" "SFField (encode ?I) = 1"
    "Bits (encode ?I) 29 2 = (case op of LAnd \<Rightarrow> 0 | LOrr \<Rightarrow> 1 | LEor \<Rightarrow> 2)" "Bit (encode ?I) 21 = 0"
  using assms
  by (cases op; simp add: encoders opcodes instr_fields IsOp_def field_simps and_distrib_or)+

lemma encode_DP1:
  assumes "reg_ok rd" "reg_ok rn" "I = IClz rd rn \<or> I = IRbit rd rn"
  shows "IsOp MiscDP1Source (encode I)" "RdField (encode I) = ConcreteRegister rd"
    "RnField (encode I) = ConcreteRegister rn" "SFField (encode I) = 1" "Bit (encode I) 29 = 0"
    "Bits (encode I) 10 10 = (if I = IClz rd rn then 4 else 0)"
  using assms
  by (auto simp: encoders opcodes instr_fields IsOp_def field_simps and_distrib_or)

lemma encode_Div:
  assumes "valid (IDiv sg rd rn rm)" (is "valid ?I")
  shows "IsOp MiscDP2Source (encode ?I)" "RdField (encode ?I) = ConcreteRegister rd"
    "RnField (encode ?I) = ConcreteRegister rn" "RmField (encode ?I) = ConcreteRegister rm" "SFField (encode ?I) = 1"
    "Bit (encode ?I) 29 = 0" "Bits (encode ?I) 10 5 = (if sg then 3 else 2)" "Bit (encode ?I) 10 = (if sg then 1 else 0)"
  using assms
  by (simp_all add: encoders opcodes instr_fields IsOp_def field_simps and_distrib_or)

lemma encode_ShiftVar:
  assumes "valid (IShiftVar sh rd rn rm)" (is "valid ?I")
  shows "IsOp MiscDP2Source (encode ?I)" "RdField (encode ?I) = ConcreteRegister rd"
    "RnField (encode ?I) = ConcreteRegister rn" "RmField (encode ?I) = ConcreteRegister rm" "SFField (encode ?I) = 1"
    "Bit (encode ?I) 29 = 0" "Bits (encode ?I) 10 5 = (case sh of LSL \<Rightarrow> 8 | LSR \<Rightarrow> 9 | _ \<Rightarrow> 10)"
  using assms
  by (cases sh; simp add: encoders opcodes instr_fields IsOp_def field_simps and_distrib_or)+

lemma encode_MulAdd:
  assumes "valid (IMulAdd subt rd rn rm ra)" (is "valid ?I")
  shows "IsOp MiscDP3Source (encode ?I)" "RdField (encode ?I) = ConcreteRegister rd"
    "RnField (encode ?I) = ConcreteRegister rn" "RmField (encode ?I) = ConcreteRegister rm"
    "RaField (encode ?I) = ConcreteRegister ra" "SFField (encode ?I) = 1"
    "Bits (encode ?I) 29 2 = 0" "Bits (encode ?I) 21 3 = 0" "Bit (encode ?I) 15 = (if subt then 1 else 0)"
  using assms
  by (simp_all add: encoders opcodes instr_fields IsOp_def field_simps and_distrib_or)

lemma encode_MulHigh:
  assumes "valid (IMulHigh sg rd rn rm)" (is "valid ?I")
  shows "IsOp MiscDP3Source (encode ?I)" "RdField (encode ?I) = ConcreteRegister rd"
    "RnField (encode ?I) = ConcreteRegister rn" "RmField (encode ?I) = ConcreteRegister rm"
    "Bits (encode ?I) 29 3 = 4" "Bits (encode ?I) 21 3 = (if sg then 2 else 6)" "Bit (encode ?I) 15 = 0"
  using assms
  by (simp_all add: encoders opcodes instr_fields IsOp_def field_simps and_distrib_or)

lemma encode_Select:
  assumes "valid (ISelect inc rd rn rm cond)" (is "valid ?I")
  shows "IsOp ConditionalSelect (encode ?I)" "RdField (encode ?I) = ConcreteRegister rd"
    "RnField (encode ?I) = ConcreteRegister rn" "RmField (encode ?I) = ConcreteRegister rm" "SFField (encode ?I) = 1"
    "Bits (encode ?I) 29 2 = 0" "Bits (encode ?I) 10 2 = (if inc then 1 else 0)"
    "SelectConditionField (encode ?I) = cond"
  using assms
  by (simp_all add: encoders opcodes instr_fields IsOp_def field_simps and_distrib_or)

lemma halfword_field:
  obtains h where "h < 65536" "unat (take_bit 16 imm) = h" "ucast (imm AND 0xffff :: 64 word) = (of_nat h :: 32 word)"
proof
  show "unat (take_bit 16 imm) < 65536"
    by (simp add: unsigned_take_bit_eq take_bit_nat_less_exp [where n = 16, simplified])
  have "imm AND 0xffff = take_bit 16 imm" by (simp add: take_bit_eq_mask mask_eq_exp_minus_1)
  then show "ucast (imm AND 0xffff :: 64 word) = (of_nat (unat (take_bit 16 imm)) :: 32 word)" by simp
qed simp

lemma encode_Mov:
  assumes "reg_ok rd" "hw < 4" "I = IMovZ rd imm hw \<or> I = IMovN rd imm hw \<or> I = IMovK rd imm hw"
  shows "IsOp MoveWide (encode I)" "RdField (encode I) = ConcreteRegister rd" "HWField (encode I) = hw"
    "Imm16Field (encode I) = unat (take_bit 16 imm)" "SFField (encode I) = 1"
    "Bits (encode I) 29 2 = (case I of IMovZ _ _ _ \<Rightarrow> 2 | IMovN _ _ _ \<Rightarrow> 0 | _ \<Rightarrow> 3)"
proof -
  obtain h where h: "h < 65536" "unat (take_bit 16 imm) = h" "ucast (imm AND 0xffff :: 64 word) = (of_nat h :: 32 word)"
    by (rule halfword_field)
  show "IsOp MoveWide (encode I)" "RdField (encode I) = ConcreteRegister rd" "HWField (encode I) = hw"
    "Imm16Field (encode I) = unat (take_bit 16 imm)" "SFField (encode I) = 1"
    "Bits (encode I) 29 2 = (case I of IMovZ _ _ _ \<Rightarrow> 2 | IMovN _ _ _ \<Rightarrow> 0 | _ \<Rightarrow> 3)"
    using assms h(1) unfolding h(2)
    by (auto simp: h(3) encoders opcodes instr_fields IsOp_def field_simps and_distrib_or)
qed

lemma imm12_operand:
  assumes "imm < 2 ^ 12" and "up \<longrightarrow> 0 < imm"
  shows "op_encoding (Operand_imm (of_nat (if up then imm * 2 ^ 12 else imm))) =
           (if up then 0x400000 else 0) OR push_bit 10 (of_nat imm)"
    and "op_type (Operand_imm v) = Immediate"
proof -
  have s: "sint (of_nat n :: 32 word) = int n" if "n < 2 ^ 31" for n
    using that sint_of_int [of "int n", where 'a = 32] by simp
  have u: "IsUint_signed 12 (of_nat n :: 32 word) \<longleftrightarrow> n < 2 ^ 12" if "n < 2 ^ 31" for n
    using s [OF that] by (auto simp: IsUint_signed_def word_sless_alt word_sle_eq)
  have d: "signed_drop_bit 12 (of_nat (imm * 2 ^ 12) :: 32 word) = of_nat imm"
    using assms(1) s [of imm] s [of "imm * 2 ^ 12"]
    by (simp add: word_eq_iff_signed [where 'a = int] sint_signed_drop_bit_eq drop_bit_eq_div del: of_nat_mult)
  show "op_encoding (Operand_imm (of_nat (if up then imm * 2 ^ 12 else imm))) =
           (if up then 0x400000 else 0) OR push_bit 10 (of_nat imm)"
    using assms u [of imm] u [of "imm * 2 ^ 12"] d by (simp add: Operand_imm_def)
qed (simp add: Operand_imm_def)

lemma encode_LogicImm:
  assumes "valid (ILogicImm op rd rn imm)" (is "valid ?I")
  shows "IsOp LogicalImm (encode ?I)" "RdField (encode ?I) = ConcreteRegister rd"
    "RnField (encode ?I) = ConcreteRegister rn" "SFField (encode ?I) = 1"
    "Bits (encode ?I) 29 2 = (case op of LAnd \<Rightarrow> 0 | LOrr \<Rightarrow> 1 | LEor \<Rightarrow> 2)" "ImmLogical (encode ?I) = imm"
proof -
  obtain n s r where f: "IsImmLogical imm 64 = Some (Operand_bits n s r)" "n < 2" "s < 64" "r < 64"
    and d: "DecodeImmLogical 64 n s r = imm"
    using assms is_immediate_decode [OF IsImmLogical_sound] unfolding valid.simps kXRegSizeInBits_def by fastforce
  define O' where "O' = (case op of LAnd \<Rightarrow> ANDI | LOrr \<Rightarrow> ORRI | LEor \<Rightarrow> EORI)"
  have r: "reg_ok rd" "reg_ok rn" using assms by (auto simp: reg_ok_def)
  have e: "encode ?I = EmitLogicalImmOp O' rd rn (Operand_bits n s r) kEightBytes"
    using f(1) by (cases op) (simp_all add: andi_def orri_def eori_def logical_imm_def O'_def kXRegSizeInBits_def)
  note defs = EmitLogicalImmOp_def Operand_bits_def encoders O'_def ANDI_def ORRI_def EORI_def
  show "IsOp LogicalImm (encode ?I)" "RdField (encode ?I) = ConcreteRegister rd"
    "RnField (encode ?I) = ConcreteRegister rn" and sf: "SFField (encode ?I) = 1"
    and "Bits (encode ?I) 29 2 = (case op of LAnd \<Rightarrow> 0 | LOrr \<Rightarrow> 1 | LEor \<Rightarrow> 2)"
    unfolding e using f(2-4) r
    by (cases op; simp add: defs instr_fields IsOp_def field_simps and_distrib_or)+
  have "NField (encode ?I) = n" "ImmSField (encode ?I) = s" "ImmRField (encode ?I) = r"
    unfolding e using f(2-4) r by (cases op; simp add: defs instr_fields field_simps)+
  then show "ImmLogical (encode ?I) = imm"
    unfolding ImmLogical_def sf using d by (simp add: kXRegSizeInBits_def)
qed

section \<open>Execution\<close>

lemma bit_xmask: "bit kXRegMask n \<longleftrightarrow> n < 64"
proof -
  have m: "kXRegMask = mask 64" by (simp add: kXRegMask_def mask_eq_exp_minus_1)
  show ?thesis unfolding m by (subst bit_mask_iff) auto
qed

lemma rotate_right_64:
  fixes x :: "64 word"
  assumes "0 < k" "k < 64"
  shows "drop_bit k x OR push_bit (64 - k) (x AND (2 ^ k - 1)) = word_rotr k x"
proof (rule bit_word_eqI)
  fix n
  assume "n < LENGTH(64)"
  then have n: "n < 64" by simp
  have "(n + k) mod 64 = (if n + k < 64 then n + k else n + k - 64)" using n assms by (simp add: mod_if)
  then show "bit (drop_bit k x OR push_bit (64 - k) (x AND (2 ^ k - 1))) n \<longleftrightarrow> bit (word_rotr k x) n"
    using n assms bit_exp_minus_1 [of k "n + k - 64", where 'a = 64]
    by (auto simp: bit_simps bit_word_rotr_iff ac_simps dest: bit_imp_le_length)
qed

lemma ShiftOperand_64: "k < 64 \<Longrightarrow> ShiftOperand kXRegSizeInBits x sh k = shifted sh k x"
proof (cases "k = 0")
  case True
  moreover have "word_rotr 0 x = x" by (rule bit_word_eqI) (simp add: bit_word_rotr_iff)
  ultimately show ?thesis by (cases sh) (simp_all add: ShiftOperand_def)
next
  case False
  assume "k < 64"
  have m: "y AND kXRegMask = y" for y by (rule bit_word_eqI) (simp add: bit_simps bit_xmask)
  show ?thesis
    using False \<open>k < 64\<close> rotate_right_64 [of k x]
    by (cases sh) (simp_all add: ShiftOperand_def kXRegSizeInBits_def kWRegSizeInBits_def m)
qed

lemma set_flags_x_eq:
  "set_flags_x (l + r) l r True s = add_flags l r s" "set_flags_x (l - r) l r False s = sub_flags l r s"
  by (simp_all add: set_flags_x_def SetVFlag_def SetCFlag_def SetNZFlagsX_def CarryFromX_add OverflowFromX_add
      CarryFromX_sub OverflowFromX_sub add_flags_def sub_flags_def word_sless_alt)

lemmas modes = RdMode_def RnMode_def IsShift_def IsExtend_def

lemma decode_AddSub:
  assumes "valid (IAddSub fl subt rd rn rm sh k)" (is "valid ?I")
  shows "DecodeAddSubShiftExt (encode ?I) s = ret (sem ?I s)"
proof -
  define i where "i = encode ?I"
  note f = encode_AddSub [OF assms, folded i_def]
  have "reg_ok rd" "reg_ok rn" "reg_ok rm" "k < 64" using assms by simp_all
  then show ?thesis unfolding i_def [symmetric]
    by (simp add: DecodeAddSubShiftExt_def DecodeShiftExtendOperand_def modes f sub_classes [OF f(1)] main_classes [OF f(1)]
        ShiftOperand_64 addsub_def Let_def) (simp add: set_flags_x_eq)
qed

lemma decode_Carry:
  assumes "valid (ICarry subt rd rn rm)" (is "valid ?I")
  shows "DecodeAddSubWithCarry (encode ?I) s = ret (sem ?I s)"
proof -
  define i where "i = encode ?I"
  note f = encode_Carry [OF assms, folded i_def]
  have "reg_ok rd" "reg_ok rn" "reg_ok rm" using assms by simp_all
  then show ?thesis unfolding i_def [symmetric]
    by (simp add: DecodeAddSubWithCarry_def f Let_def not_eq_complement algebra_simps)
qed

lemma decode_Logic:
  assumes "valid (ILogic op rd rn rm sh k)" (is "valid ?I")
  shows "DecodeLogicalShift (encode ?I) s = ret (sem ?I s)"
proof -
  define i where "i = encode ?I"
  note f = encode_Logic [OF assms, folded i_def]
  have "reg_ok rd" "reg_ok rn" "reg_ok rm" "k < 64" using assms by simp_all
  then show ?thesis unfolding i_def [symmetric]
    by (cases op) (simp_all add: DecodeLogicalShift_def DecodeShiftExtendOperand_def modes f sub_classes [OF f(1)] main_classes [OF f(1)]
        ShiftOperand_64 Let_def)
qed

lemma decode_DP1:
  assumes "I = IClz rd rn \<or> I = IRbit rd rn" and "valid I"
  shows "DecodeMiscDP1Source (encode I) s = ret (sem I s)"
proof -
  have r: "reg_ok rd" "reg_ok rn" using assms by auto
  define i where "i = encode I"
  note f = encode_DP1 [OF r assms(1), folded i_def]
  have "ReverseBits64 x = word_reverse x" for x
    by (rule bit_word_eqI) (simp add: bit_ReverseBits64 bit_word_reverse_iff)
  then show ?thesis using r assms(1) unfolding i_def [symmetric]
    by (auto simp: DecodeMiscDP1Source_def f Let_def)
qed

lemma decode_Div:
  assumes "valid (IDiv sg rd rn rm)" (is "valid ?I")
  shows "DecodeMiscDP2Source (encode ?I) s = ret (sem ?I s)"
proof -
  define i where "i = encode ?I"
  note f = encode_Div [OF assms, folded i_def]
  have 1: "(if l = 0x8000000000000000 \<and> r = 0xffffffffffffffff then 0x8000000000000000
      else word_of_int (tdiv (sint l) (sint r))) = (word_of_int (tdiv (sint l) (sint r)) :: 64 word)" for l r :: "64 word"
    by (simp add: tdiv_def)
  have 2: "l div r = word_of_int (uint l div uint r)" for l r :: "64 word"
    by (simp add: word_div_def)
  have "reg_ok rd" "reg_ok rn" "reg_ok rm" using assms by simp_all
  then show ?thesis unfolding i_def [symmetric]
    by (simp add: DecodeMiscDP2Source_def f divide64_def 1 2 Let_def)
qed

lemma decode_ShiftVar:
  assumes "valid (IShiftVar sh rd rn rm)" (is "valid ?I")
  shows "DecodeMiscDP2Source (encode ?I) s = ret (sem ?I s)"
proof -
  define i where "i = encode ?I"
  note f = encode_ShiftVar [OF assms, folded i_def]
  have 1: "unat (x AND 63 :: 64 word) = unat x mod 64" for x
  proof -
    have "x AND 63 = take_bit 6 x" by (simp add: take_bit_eq_mask mask_eq_exp_minus_1)
    then have "unat (x AND 63) = take_bit 6 (unat x)" by (simp only: unsigned_take_bit_eq)
    then show ?thesis by (simp add: take_bit_eq_mod)
  qed
  have "reg_ok rd" "reg_ok rn" "reg_ok rm" using assms by simp_all
  then show ?thesis using assms unfolding i_def [symmetric]
    by (cases sh) (simp_all add: DecodeMiscDP2Source_def f 1 Let_def)
qed

lemma decode_MulAdd:
  assumes "valid (IMulAdd subt rd rn rm ra)" (is "valid ?I")
  shows "DecodeMiscDP3Source (encode ?I) s = ret (sem ?I s)"
proof -
  define i where "i = encode ?I"
  note f = encode_MulAdd [OF assms, folded i_def]
  have "reg_ok rd" "reg_ok rn" "reg_ok rm" "reg_ok ra" using assms by simp_all
  then show ?thesis unfolding i_def [symmetric]
    by (simp add: DecodeMiscDP3Source_def f Let_def)
qed

lemma decode_MulHigh:
  assumes "valid (IMulHigh sg rd rn rm)" (is "valid ?I")
  shows "DecodeMiscDP3Source (encode ?I) s = ret (sem ?I s)"
proof -
  define i where "i = encode ?I"
  note f = encode_MulHigh [OF assms, folded i_def]
  have b: "Bits i 29 2 = 0" "SFField i = 1" using assms unfolding i_def
    by (simp_all add: encoders opcodes instr_fields field_simps)
  have "reg_ok rd" "reg_ok rn" "reg_ok rm" using assms by simp_all
  then show ?thesis unfolding i_def [symmetric]
    by (simp add: DecodeMiscDP3Source_def f b Let_def drop_bit_eq_div)
qed

lemma decode_Select:
  assumes "valid (ISelect inc rd rn rm cond)" (is "valid ?I")
  shows "DecodeConditionalSelect (encode ?I) s = ret (sem ?I s)"
proof -
  define i where "i = encode ?I"
  note f = encode_Select [OF assms, folded i_def]
  have r: "reg_ok rd" "reg_ok rn" "reg_ok rm" "cond \<noteq> NV" using assms by simp_all
  have "ConditionallyExecute i s = ret (cond_holds cond s)"
    using r(4) by (cases cond) (simp_all add: ConditionallyExecute_def f)
  then show ?thesis using r unfolding i_def [symmetric]
    by (simp add: DecodeConditionalSelect_def f modes sub_classes [OF f(1)] main_classes [OF f(1)] Let_def)
qed

lemma decode_Mov:
  assumes "I = IMovZ rd imm hw \<or> I = IMovN rd imm hw \<or> I = IMovK rd imm hw" and "valid I"
  shows "DecodeMoveWide (encode I) s = ret (sem I s)"
proof -
  have r: "reg_ok rd" "hw < 4" using assms by auto
  define i where "i = encode I"
  note f = encode_Mov [OF r assms(1), folded i_def]
  have m: "(0xffff :: 64 word) = mask 16" by (simp add: mask_eq_exp_minus_1)
  have "(of_nat (unat (take_bit 16 imm)) :: 64 word) = take_bit 16 imm" by simp
  then show ?thesis using r assms(1) unfolding i_def [symmetric] DecodeMoveWide_def m f(4) f(3)
    by (auto simp: f modes sub_classes [OF f(1)] main_classes [OF f(1)] Let_def)
qed

lemma encode_AddSubImm:
  assumes "valid (IAddSubImm fl subt rd rn imm up)" (is "valid ?I")
  shows "IsOp AddSubImm (encode ?I)" "RdField (encode ?I) = ConcreteRegister rd"
    "RnField (encode ?I) = rn" "Imm12Field (encode ?I) = imm" "Bit (encode ?I) 22 = (if up then 1 else 0)"
    "SFField (encode ?I) = 1"
    "HasS (encode ?I) = fl" "Bit (encode ?I) 30 = (if subt then 1 else 0)"
  using assms imm12_operand [of imm up]
  by (auto simp: EmitAddSubImmOp_def reg_ok_def ConcreteRegister_gp encoders opcodes instr_fields HasS_def IsOp_def field_simps and_distrib_or)

lemma decode_AddSubImm:
  assumes "valid (IAddSubImm fl subt rd rn imm up)" (is "valid ?I")
  shows "DecodeAddSubImm (encode ?I) s = ret (sem ?I s)"
proof -
  define i where "i = encode ?I"
  note f = encode_AddSubImm [OF assms, folded i_def]
  have r: "rd < 31 \<or> fl \<and> rd = ZR" "rn < 31" "imm < 2 ^ 12" using assms by simp_all
  have n: "get_register rn m s = xreg s rn" for m
    using r(2) by (simp add: get_register_def xreg_def R31_def ZR_def)
  have d: "set_register (ConcreteRegister rd) v (RdMode i) s = ret (write_x rd v s)" for v
    using r(1) by (auto simp: RdMode_def f sub_classes [OF f(1)] main_classes [OF f(1)] set_register_def write_x_def
        ConcreteRegister_def R31_def ZR_def CSP_def)
  have "(ucast (of_nat n :: 32 word) :: 64 word) = of_nat n" if "n < 2 ^ 32" for n
    using that by (simp add: unsigned_of_nat take_bit_nat_eq_self)
  from this [of imm] this [of "imm * 2 ^ 12"]
  have c: "(ucast (of_nat imm :: 32 word) :: 64 word) = of_nat imm"
    "(ucast (push_bit 12 (of_nat imm) :: 32 word) :: 64 word) = of_nat imm * 4096"
    using r(3) by (simp_all add: push_bit_eq_mult)
  show ?thesis unfolding i_def [symmetric]
    by (simp add: DecodeAddSubImm_def f n d c addsub_def Let_def set_flags_x_eq cong: if_cong)
qed

lemma imm_nonzero: "IsImmLogical imm kXRegSizeInBits \<noteq> None \<Longrightarrow> imm \<noteq> 0"
  unfolding kXRegSizeInBits_def IsImmLogical_64 by auto

lemma decode_LogicImm:
  assumes "valid (ILogicImm op rd rn imm)" (is "valid ?I")
  shows "DecodeLogicalImm (encode ?I) s = ret (sem ?I s)"
proof -
  define i where "i = encode ?I"
  note f = encode_LogicImm [OF assms, folded i_def]
  have r: "rd < 31" "reg_ok rn" "imm \<noteq> 0" using assms imm_nonzero by auto
  have d: "set_register (ConcreteRegister rd) v m s = ret (write_x rd v s)" for v m s
    using r(1) by (simp add: set_register_def write_x_def ConcreteRegister_gp R31_def ZR_def)
  have n: "get_register (ConcreteRegister rn) (RnMode i) s = xreg s rn"
    using r(2) by (simp add: modes sub_classes [OF f(1)] main_classes [OF f(1)])
  show ?thesis unfolding i_def [symmetric] using r(3)
    by (cases op) (simp_all add: DecodeLogicalImm_def f n d kXRegSizeInBits_def kWRegSizeInBits_def Let_def)
qed

section \<open>The simulator executes what the assembler encodes\<close>

lemma pc_sem [simp]: "pc (sem I s) = pc s" "pc_modified (sem I s) = pc_modified s"
  by (cases I; simp add: addsub_def write_x_def add_flags_def sub_flags_def Let_def)+

lemma sem_pc_modified: "sem I (s\<lparr>pc_modified := b\<rparr>) = (sem I s)\<lparr>pc_modified := b\<rparr>"
proof -
  have "xreg (s\<lparr>pc_modified := b\<rparr>) r = xreg s r" for r by (simp add: xreg_def)
  moreover have "cond_holds c (s\<lparr>pc_modified := b\<rparr>) = cond_holds c s" for c by (cases c) simp_all
  ultimately show ?thesis
    by (cases I) (simp_all add: addsub_def write_x_def add_flags_def sub_flags_def Let_def)
qed

lemmas class_facts = encode_AddSub(1) encode_AddSubImm(1) encode_Carry(1) encode_Logic(1) encode_LogicImm(1) encode_Div(1)
  encode_ShiftVar(1) encode_MulAdd(1) encode_MulHigh(1) encode_Select(1)
  encode_DP1(1) [OF _ _ disjI1, OF _ _ refl] encode_DP1(1) [OF _ _ disjI2, OF _ _ refl]
  encode_Mov(1) [OF _ _ disjI1, OF _ _ refl] encode_Mov(1) [OF _ _ disjI2, OF _ _ disjI1, OF _ _ refl]
  encode_Mov(1) [OF _ _ disjI2, OF _ _ disjI2, OF _ _ refl]

lemmas decode_facts = decode_AddSub decode_AddSubImm decode_Carry decode_Logic decode_LogicImm decode_Div
  decode_ShiftVar decode_MulAdd decode_MulHigh decode_Select
  decode_DP1 [OF disjI1, OF refl] decode_DP1 [OF disjI2, OF refl]
  decode_Mov [OF disjI1, OF refl] decode_Mov [OF disjI2, OF disjI1, OF refl] decode_Mov [OF disjI2, OF disjI2, OF refl]

lemma decode_sem:
  assumes "valid I"
  shows "IsOp (class_of I) (encode I) \<and>
    (\<exists>dec. class_decoder (class_of I) = Some dec \<and> (\<forall>s. dec (encode I) s = ret (sem I s)))"
  using assms
  by (cases I) (simp_all add: class_facts decode_facts del: encode.simps sem.simps)

lemma instruction_executes:
  assumes "valid I"
  shows "InstructionDecode other (encode I) s = ret (advance (sem I s))"
proof -
  obtain dec where d: "class_decoder (class_of I) = Some dec" "\<And>s. dec (encode I) s = ret (sem I s)"
    and op: "IsOp (class_of I) (encode I)"
    using decode_sem [OF assms] by auto
  have "InstructionDecode other (encode I) s = ret (advance (sem I (s\<lparr>pc_modified := False\<rparr>)))"
    using d(2) by (intro InstructionDecode_class [OF op d(1)]) simp_all
  then show ?thesis by (simp add: sem_pc_modified advance_def)
qed



section \<open>Programs\<close>

text \<open>The words \<open>ws\<close> lie in the instruction memory from the address \<open>a\<close> on, where code may be fetched.\<close>

primrec code_at :: "(64 word \<Rightarrow> 32 word option) \<Rightarrow> 64 word \<Rightarrow> 32 word list \<Rightarrow> bool" where
  "code_at fetch a [] \<longleftrightarrow> True"
| "code_at fetch a (w # ws) \<longleftrightarrow>
     fetch a = Some w \<and> \<not> IsIllegalAddress a \<and> a \<noteq> kEndSimulatingPC \<and> code_at fetch (a + 4) ws"

lemma code_at_append:
  "code_at fetch a (xs @ ys) \<longleftrightarrow> code_at fetch a xs \<and> code_at fetch (a + 4 * of_nat (length xs)) ys"
  by (induction xs arbitrary: a) (auto simp: algebra_simps)

text \<open>The registers and the flags of a state.\<close>

definition cpu :: "sim \<Rightarrow> (nat \<Rightarrow> 64 word) \<times> bool \<times> bool \<times> bool \<times> bool \<times> (64 word \<Rightarrow> 8 word option)" where
  "cpu s = (registers s, n_flag s, z_flag s, c_flag s, v_flag s, memory s)"

lemma cpu_advance [simp]: "cpu (advance s) = cpu s" "cpu (s\<lparr>icount := n\<rparr>) = cpu s" "cpu (set_pc a s) = cpu s"
  "cpu (s\<lparr>pc_modified := b\<rparr>) = cpu s"
  by (simp_all add: cpu_def advance_def set_pc_def)

lemma cpu_sem: "cpu s = cpu t \<Longrightarrow> cpu (sem I s) = cpu (sem I t)"
proof -
  assume eq: "cpu s = cpu t"
  then have x: "xreg s r = xreg t r" for r by (simp add: cpu_def xreg_def)
  have c: "cond_holds c s = cond_holds c t" for c using eq by (cases c) (simp_all add: cpu_def)
  show ?thesis using eq c
    by (cases I) (auto simp: x cpu_def addsub_def write_x_def add_flags_def sub_flags_def Let_def)
qed

lemma Execute_instr:
  assumes "valid I" and "fetch (pc s) = Some (encode I)" "\<not> IsIllegalAddress (pc s)" "pc s \<noteq> kEndSimulatingPC"
  shows "\<exists>s'. Execute other fetch s = Execute other fetch s' \<and> pc s' = pc s + 4 \<and> cpu s' = cpu (sem I s)"
proof -
  let ?s = "s\<lparr>icount := icount s + 1\<rparr>"
  have "Execute_step other fetch s = ret (advance (sem I ?s))"
    using assms by (simp add: Execute_step_def instruction_executes)
  then have "Execute other fetch s = Execute other fetch (advance (sem I ?s))"
    using assms(4) by (subst Execute.simps) simp
  moreover have "cpu (sem I ?s) = cpu (sem I s)" by (rule cpu_sem) simp
  ultimately show ?thesis
    by (intro exI [of _ "advance (sem I ?s)"]) (simp add: advance_def cpu_def)
qed

lemma Execute_straight:
  assumes "list_all valid Is" and "code_at fetch (pc s) (map encode Is)" and "cpu s = cpu t"
  shows "\<exists>s'. Execute other fetch s = Execute other fetch s' \<and> pc s' = pc s + 4 * of_nat (length Is) \<and>
           cpu s' = cpu (fold sem Is t)"
  using assms
proof (induction Is arbitrary: s t)
  case (Cons I Is)
  obtain s1 where s1: "Execute other fetch s = Execute other fetch s1" "pc s1 = pc s + 4" "cpu s1 = cpu (sem I s)"
    using Execute_instr [of I fetch s other] Cons.prems by auto
  have "cpu s1 = cpu (sem I t)" using s1(3) cpu_sem [OF Cons.prems(3), of I] by simp
  moreover have "code_at fetch (pc s1) (map encode Is)" using Cons.prems(2) s1(2) by simp
  ultimately show ?case using Cons.IH [of s1 "sem I t"] Cons.prems(1) s1 by (auto simp: algebra_simps)
qed auto

lemma ret_executes:
  assumes "r < 31"
  shows "InstructionDecode other (ret_instr r) s = ret (set_pc (registers s r) (s\<lparr>pc_modified := False\<rparr>))"
proof -
  define i where "i = ret_instr r"
  have c: "ConcreteRegister r = r" using assms by (rule ConcreteRegister_gp)
  note defs = ret_instr_def EmitUnconditionalBranchRegOp_def RET_def BR_def encoders c
  have op: "IsOp UnconditionalBranchReg i"
    using assms unfolding i_def by (simp add: defs IsOp_def field_simps and_distrib_or)
  have f: "Bits i 0 5 = 0" "Bits i 10 6 = 0" "Bits i 16 5 = 0x1f" "Bits i 21 4 = 2" "RnField i = r"
    using assms unfolding i_def by (simp_all add: defs instr_fields field_simps)
  have cls: "\<not> IsOp DPImmediate i" "IsOp CompareBranch i" "\<not> IsOp CompareAndBranch i" "\<not> IsOp ConditionalBranch i"
    "\<not> IsOp ExceptionGen i" "\<not> IsOp System i" "\<not> IsOp TestAndBranch i" "\<not> IsOp UnconditionalBranch i"
    by (simp_all add: IsOp_disjoint [OF op] IsOp_included [OF op])
  have g: "get_register r m s = registers s r" for m s
    using assms by (simp add: get_register_def R31_def)
  show ?thesis unfolding i_def [symmetric]
    by (simp add: InstructionDecode_def DecodeCompareBranch_def DecodeUnconditionalBranchReg_def cls op f g set_pc_def Let_def)
qed

lemma Execute_ret:
  assumes "fetch (pc s) = Some (ret_instr LR)" "\<not> IsIllegalAddress (pc s)" "pc s \<noteq> kEndSimulatingPC"
    and "registers s LR = kEndSimulatingPC"
  shows "\<exists>s'. Execute other fetch s = ret s' \<and> pc s' = kEndSimulatingPC \<and> cpu s' = cpu s"
proof -
  let ?s = "s\<lparr>icount := icount s + 1\<rparr>"
  define s' where "s' = set_pc kEndSimulatingPC (?s\<lparr>pc_modified := False\<rparr>)"
  have "LR < 31" by (simp add: LR_def)
  then have "Execute_step other fetch s = ret s'"
    using assms by (simp add: Execute_step_def ret_executes s'_def)
  then have "Execute other fetch s = Execute other fetch s'"
    using assms(3) by (subst Execute.simps) simp
  also have "\<dots> = ret s'" by (subst Execute.simps) (simp add: s'_def set_pc_def)
  finally show ?thesis
    by (intro exI [of _ s']) (simp add: s'_def set_pc_def cpu_def)
qed

text \<open>Running a straight-line function: instructions followed by a return to the simulator's caller.\<close>

lemma Execute_function:
  assumes "list_all valid Is" and "code_at fetch (pc s) (map encode Is @ [ret_instr LR])"
    and "registers (fold sem Is s) LR = kEndSimulatingPC"
  shows "\<exists>s'. Execute other fetch s = ret s' \<and> pc s' = kEndSimulatingPC \<and> cpu s' = cpu (fold sem Is s)"
proof -
  have c: "code_at fetch (pc s) (map encode Is)" "code_at fetch (pc s + 4 * of_nat (length Is)) [ret_instr LR]"
    using assms(2) by (simp_all add: code_at_append)
  obtain s1 where s1: "Execute other fetch s = Execute other fetch s1"
      "pc s1 = pc s + 4 * of_nat (length Is)" "cpu s1 = cpu (fold sem Is s)"
    using Execute_straight [OF assms(1) c(1) refl] by blast
  have "registers s1 LR = kEndSimulatingPC" using s1(3) assms(3) by (simp add: cpu_def)
  then show ?thesis using Execute_ret [of fetch s1 other] c(2) s1 by simp
qed

end
