(* ===== verification/Arm64_Pool.thy ===== *)
theory Arm64_Pool
  imports Arm64_Exec
begin

unbundle bit_operations_syntax

text \<open>
  Loads in the simulator.  The word that the assembler emits for an eight-byte load with a scaled
  offset or with an offset register is a load of the simulator, which reads the eight bytes at that
  address and writes them to the target register.
\<close>

section \<open>The loads in the simulator\<close>

lemma of_nat_shift_right:
  assumes "8 * k < 2 ^ 31"
  shows "signed_drop_bit 3 (of_nat (8 * k) :: 32 word) = of_nat k"
    and "push_bit 3 (of_nat k :: 32 word) = of_nat (8 * k)"
proof -
  have "sint (of_nat (8 * k) :: 32 word) = int (8 * k)"
    using assms sint_of_int [of "int (8 * k)", where 'a = 32] by simp
  then have "sint (signed_drop_bit 3 (of_nat (8 * k) :: 32 word)) = int k"
    by (simp add: sint_signed_drop_bit_eq drop_bit_eq_div)
  then have "word_of_int (sint (signed_drop_bit 3 (of_nat (8 * k) :: 32 word))) = (word_of_int (int k) :: 32 word)"
    by simp
  then show "signed_drop_bit 3 (of_nat (8 * k) :: 32 word) = of_nat k"
    by simp
  show "push_bit 3 (of_nat k :: 32 word) = of_nat (8 * k)"
    by (simp add: push_bit_eq_mult)
qed

lemma sint_offset32: "n < 2 ^ 31 \<Longrightarrow> sint (of_nat n :: 32 word) = int n"
  using sint_of_int [of "int n", where 'a = 32] by simp

lemma CanHoldOffset_of_nat:
  assumes "8 * k < 2 ^ 31"
  shows "IsUint_signed 15 (of_nat (8 * k) :: 32 word) \<longleftrightarrow> k < 4096"
    and "CanHoldOffset (of_nat (8 * k)) Offset kEightBytes \<longleftrightarrow> k < 4096"
proof -
  have "(push_bit 15 1 - 1 :: 32 word) = of_nat 32767" by simp
  then show u: "IsUint_signed 15 (of_nat (8 * k) :: 32 word) \<longleftrightarrow> k < 4096"
    using assms sint_offset32 [OF assms] by (auto simp: IsUint_signed_def word_sless_alt word_sle_eq)
  have "IsInt_signed 9 (of_nat (8 * k) :: 32 word) \<Longrightarrow> k < 4096"
    using sint_offset32 [OF assms] by (simp add: IsInt_signed_iff)
  then show "CanHoldOffset (of_nat (8 * k)) Offset kEightBytes \<longleftrightarrow> k < 4096"
    using u of_nat_shift_right [OF assms] by (auto simp: CanHoldOffset_def)
qed

lemma not_atomic: "Bit i 24 = 1 \<or> Bit i 11 = 1 \<Longrightarrow> \<not> IsOp AtomicMemory i"
proof
  assume b: "Bit i 24 = 1 \<or> Bit i 11 = 1" and "IsOp AtomicMemory i"
  then have "i AND 0x3f200c00 = 0x38200000" by (simp add: IsOp_def)
  then have "bit (i AND 0x3f200c00) 24 = bit (0x38200000 :: 32 word) 24"
    "bit (i AND 0x3f200c00) 11 = bit (0x38200000 :: 32 word) 11" by simp_all
  then have "\<not> bit i 24" "\<not> bit i 11" by (simp_all add: bit_and_iff)
  with b show False by (auto simp: Bit_def bit_iff_odd_drop_bit and_one_eq odd_iff_mod_2_eq_one)
qed

lemma ldr_offset_word:
  assumes "k < 4096"
  shows "ldr rt (Address_offset rn (of_nat (8 * k))) kEightBytes =
    LDR OR push_bit 30 (of_nat 3) OR Rt_enc rt OR Bn 24 OR push_bit 10 (of_nat k) OR Rn_enc rn"
proof -
  have k: "8 * k < 2 ^ 31" using assms by simp
  have "IsUint_signed 15 (of_nat (8 * k) :: 32 word)"
    using CanHoldOffset_of_nat(1) [OF k] assms by simp
  then show ?thesis
    using of_nat_shift_right [OF k]
    by (simp add: ldr_def IsSignedOperand_def EmitLoadStoreReg_def address_encoding_def Address_offset_def or.assoc)
qed

lemma ldr_offset_fields:
  assumes "k < 4096" "rt < 31" "rn < 31"
  defines "i \<equiv> ldr rt (Address_offset rn (of_nat (8 * k))) kEightBytes"
  shows "IsOp LoadStoreReg i" "\<not> IsOp AtomicMemory i" "Bit i 26 = 0" "Bit i 24 = 1" "SzField i = 3" "RtField i = rt"
    "RnField i = rn" "Imm12Field i = k" "Bits i 22 2 = 1" "Bit i 23 = 0"
proof -
  have c: "ConcreteRegister rt = rt" "ConcreteRegister rn = rn" using assms by (simp_all add: ConcreteRegister_gp)
  have w: "i = LDR OR push_bit 30 (of_nat 3) OR Rt_enc rt OR Bn 24 OR push_bit 10 (of_nat k) OR Rn_enc rn"
    unfolding i_def by (rule ldr_offset_word [OF assms(1)])
  note defs = LDR_def Rt_enc_def Rn_enc_def c
  show "IsOp LoadStoreReg i"
    using assms(1-3) unfolding w by (simp add: defs IsOp_def field_simps and_distrib_or)
  show b: "Bit i 24 = 1" using assms(1-3) unfolding w by (simp add: defs field_simps)
  then show "\<not> IsOp AtomicMemory i" by (simp add: not_atomic)
  show "Bit i 26 = 0" "SzField i = 3" "RtField i = rt"
    "RnField i = rn" "Imm12Field i = k" "Bits i 22 2 = 1" "Bit i 23 = 0"
    using assms(1-3) unfolding w by (simp_all add: defs instr_fields field_simps)
qed

lemma ldr_reg_fields:
  assumes "rm < 31" "rt < 31" "rn < 31"
  defines "i \<equiv> ldr rt (Address_reg rn rm UXTX False) kEightBytes"
  shows "IsOp LoadStoreReg i" "\<not> IsOp AtomicMemory i" "Bit i 26 = 0" "Bit i 24 = 0" "SzField i = 3" "RtField i = rt"
    "RnField i = rn" "RmField i = rm" "Bits i 22 2 = 1" "Bit i 23 = 0" "Bits i 10 2 = 2" "Bit i 10 = 0" "ExtendTypeField i = UXTX" "Bit i 12 = 0"
proof -
  have c: "ConcreteRegister rt = rt" "ConcreteRegister rn = rn" "ConcreteRegister rm = rm" using assms by (simp_all add: ConcreteRegister_gp)
  have w: "i = LDR OR push_bit 30 (of_nat 3) OR Rt_enc rt OR Bn 21 OR Bn 11 OR Rn_enc rn OR Rm_enc rm OR push_bit 13 (of_nat 3)"
    unfolding i_def by (simp add: ldr_def IsSignedOperand_def EmitLoadStoreReg_def address_encoding_def Address_reg_def or.assoc)
  note defs = LDR_def Rt_enc_def Rn_enc_def Rm_enc_def c
  show "IsOp LoadStoreReg i"
    using assms(1-3) unfolding w by (simp add: defs IsOp_def field_simps and_distrib_or)
  have "Bit i 11 = 1" using assms(1-3) unfolding w by (simp add: defs field_simps)
  then show "\<not> IsOp AtomicMemory i" by (simp add: not_atomic)
  show "Bit i 26 = 0" "Bit i 24 = 0" "SzField i = 3" "RtField i = rt"
    "RnField i = rn" "RmField i = rm" "Bits i 22 2 = 1" "Bit i 23 = 0" "Bits i 10 2 = 2" "Bit i 10 = 0" "ExtendTypeField i = UXTX" "Bit i 12 = 0"
    using assms(1-3) unfolding w by (simp_all add: defs instr_fields field_simps extend_of_def)
qed

lemma load_executes:
  assumes op: "IsOp LoadStoreReg i" "\<not> IsOp AtomicMemory i" "Bit i 26 = 0"
    and addr: "load_store_address i s = Some (a, None)" "\<not> IsIllegalAddress a"
    and i: "SzField i = 3" "Bits i 22 2 = 1" "Bit i 23 = 0" "RtField i = rt" "rt < 31"
    and v: "ReadU 8 a s = ret v"
  shows "InstructionDecode other i s = ret (advance (write_x rt v s))"
proof -
  have cls: "\<not> IsOp DPImmediate i" "\<not> IsOp CompareBranch i" "IsOp LoadStore i"
    using IsOp_conflict [OF op(1), of DPImmediate] IsOp_conflict [OF op(1), of CompareBranch] IsOp_wider [OF op(1), of LoadStore]
    by simp_all
  let ?s = "s\<lparr>pc_modified := False\<rparr>"
  have "load_store_address i ?s = load_store_address i s"
    by (simp add: load_store_address_def get_register_def Let_def)
  moreover have "LoadUnaligned n a ?s = LoadUnaligned n a s" for n
    by (induction n arbitrary: a) (simp_all cong: option.case_cong)
  then have "ReadU 8 a ?s = ret v" using v by (simp only: ReadU_def)
  moreover have "set_register rt v R31IsZR ?s = ret (write_x rt v ?s)"
    using i(5) set_register_ok [OF reg_ok_gp, of rt v ?s] by (simp add: ConcreteRegister_gp)
  ultimately have "DecodeLoadStoreReg other i ?s = ret (write_x rt v ?s)"
    using op(3) addr i by (simp add: DecodeLoadStoreReg_def Let_def)
  then show ?thesis
    using op cls by (simp add: InstructionDecode_def DecodeLoadStore_def advance_def set_pc_def write_x_def Let_def)
qed

lemma ldr_offset_executes:
  assumes "k < 4096" "rt < 31" "rn < 31" and "\<not> IsIllegalAddress (registers s rn + 8 * of_nat k)"
    and "ReadU 8 (registers s rn + 8 * of_nat k) s = ret v"
  shows "InstructionDecode other (ldr rt (Address_offset rn (of_nat (8 * k))) kEightBytes) s = ret (advance (write_x rt v s))"
proof -
  define i where "i = ldr rt (Address_offset rn (of_nat (8 * k))) kEightBytes"
  note F = ldr_offset_fields [OF assms(1-3), folded i_def]
  have "(ucast (push_bit 3 (of_nat k :: 32 word)) :: 64 word) = ucast (of_nat (8 * k) :: 32 word)"
    by (simp add: push_bit_eq_mult mult.commute)
  also have "\<dots> = of_nat (8 * k)"
    unfolding unsigned_of_nat using assms(1) by (simp add: take_bit_nat_eq_self del: of_nat_mult)
  finally have "(ucast (push_bit 3 (of_nat k :: 32 word)) :: 64 word) = 8 * of_nat k" by simp
  then show ?thesis
    unfolding i_def [symmetric] using assms by (intro load_executes [OF F(1-3)])
      (simp_all add: F load_store_address_def get_register_def R31_def)
qed

lemma ldr_reg_executes:
  assumes "rm < 31" "rt < 31" "rn < 31" and "\<not> IsIllegalAddress (registers s rn + registers s rm)"
    and "ReadU 8 (registers s rn + registers s rm) s = ret v"
  shows "InstructionDecode other (ldr rt (Address_reg rn rm UXTX False) kEightBytes) s = ret (advance (write_x rt v s))"
proof -
  note F = ldr_reg_fields [OF assms(1-3)]
  have m: "x AND kXRegMask = x" for x by (rule bit_word_eqI) (simp add: bit_simps bit_xmask)
  show ?thesis
    using assms by (intro load_executes [OF F(1-3)])
      (simp_all add: F load_store_address_def get_register_def R31_def ExtendOperand_def m)
qed

lemma ReadU_cong: "memory s = memory t \<Longrightarrow> ReadU n a s = ReadU n a t"
proof -
  assume eq: "memory s = memory t"
  have "LoadUnaligned n a s = LoadUnaligned n a t" for n a
    by (induction n arbitrary: a) (simp_all add: eq cong: option.case_cong)
  then show ?thesis by (simp only: ReadU_def)
qed

text \<open>One instruction of the loop.\<close>

lemma Execute_word:
  assumes "fetch (pc s) = Some i" "\<not> IsIllegalAddress (pc s)" "pc s \<noteq> kEndSimulatingPC"
    and "InstructionDecode other i (s\<lparr>icount := icount s + 1\<rparr>) = ret (advance t)" and "pc t = pc s"
  shows "Execute other fetch s = Execute other fetch (advance t) \<and> pc (advance t) = pc s + 4"
  using assms by (subst Execute.simps) (simp add: Execute_step_def advance_def)

end
