(* ===== verification/Arm64_Constants.thy ===== *)
theory Arm64_Constants
  imports Arm64_Pool
begin

unbundle bit_operations_syntax

text \<open>
  The macros of \<open>assembler_arm64.cc\<close> that use arbitrary constants: \<open>LoadImmediate\<close>, \<open>AddImmediate\<close> and
  \<open>CompareImmediate\<close>.  Each emits one of many instruction sequences, chosen by the value; every one of
  them has the intended effect on the registers and the flags.
\<close>

section \<open>Code as a function on states\<close>

text \<open>\<open>computes ws f\<close>: the words are valid encoded instructions whose composed meaning is \<open>f\<close>.\<close>

definition computes :: "32 word list \<Rightarrow> (sim \<Rightarrow> sim) \<Rightarrow> bool" where
  "computes ws f \<longleftrightarrow> (\<exists>Is. ws = map encode Is \<and> list_all valid Is \<and> (\<forall>s. fold sem Is s = f s))"

lemma computes_Nil: "computes [] (\<lambda>s. s)"
  unfolding computes_def by (intro exI [of _ "[]"]) simp

lemma computes_single: "valid I \<Longrightarrow> computes [encode I] (sem I)"
  unfolding computes_def by (intro exI [of _ "[I]"]) simp

lemma computes_append: "computes ws f \<Longrightarrow> computes ws' g \<Longrightarrow> computes (ws @ ws') (\<lambda>s. g (f s))"
  unfolding computes_def
proof (elim exE conjE)
  fix Is Is'
  assume "ws = map encode Is" "list_all valid Is" "\<forall>s. fold sem Is s = f s"
    and "ws' = map encode Is'" "list_all valid Is'" "\<forall>s. fold sem Is' s = g s"
  then show "\<exists>Is. ws @ ws' = map encode Is \<and> list_all valid Is \<and> (\<forall>s. fold sem Is s = g (f s))"
    by (intro exI [of _ "Is @ Is'"]) simp
qed

lemma computes_eq: "computes ws f \<Longrightarrow> (\<And>s. f s = g s) \<Longrightarrow> computes ws g"
  unfolding computes_def by simp

lemma computes_cons:
  assumes "valid I" "i = encode I" "computes ws g"
  shows "computes (i # ws) (\<lambda>s. g (sem I s))"
  using computes_append [OF computes_single [OF assms(1)] assms(3)] assms(2) by simp

lemma xreg_write: "r \<noteq> ZR \<Longrightarrow> xreg (write_x r v s) q = (if q = r then v else xreg s q)"
  by (auto simp: xreg_def write_x_def)

lemma write_write [simp]: "write_x r v (write_x r u s) = write_x r v s"
  by (simp add: write_x_def)

lemma gp_not_ZR: "r < 31 \<Longrightarrow> r \<noteq> ZR"
  by (simp add: ZR_def)

section \<open>Loading constants\<close>

text \<open>The half-words of a 64-bit word.\<close>

definition hw :: "64 word \<Rightarrow> nat \<Rightarrow> 16 word" where
  "hw x j = ucast (drop_bit (16 * j) x)"

lemma bit_hw: "bit (hw x j) i \<longleftrightarrow> i < 16 \<and> bit x (16 * j + i)"
  by (auto simp: hw_def bit_simps)

lemma hw_eqI:
  assumes "\<And>j. j < 4 \<Longrightarrow> hw x j = hw y j"
  shows "x = y"
proof (rule bit_word_eqI)
  fix n
  assume "n < LENGTH(64)"
  then have "n div 16 < 4" by simp
  then have "bit (hw x (n div 16)) (n mod 16) \<longleftrightarrow> bit (hw y (n div 16)) (n mod 16)" using assms by simp
  then show "bit x n \<longleftrightarrow> bit y n" by (simp add: bit_hw)
qed

lemma hw_shifted:
  "j < 4 \<Longrightarrow> k < 4 \<Longrightarrow> hw (push_bit (16 * k) (take_bit 16 (ucast (h :: 16 word)))) j = (if j = k then h else 0)"
proof (rule bit_word_eqI)
  fix i
  assume "j < 4" "k < 4" "i < LENGTH(16)"
  moreover have "16 * k \<le> 16 * j + i \<and> 16 * j + i - 16 * k < 16 \<longleftrightarrow> j = k" if "i < 16" using that by linarith
  ultimately show "bit (hw (push_bit (16 * k) (take_bit 16 (ucast h))) j) i \<longleftrightarrow> bit (if j = k then h else 0) i"
    by (auto simp: bit_hw bit_simps)
qed

lemma hw_mask: "j < 4 \<Longrightarrow> k < 4 \<Longrightarrow> hw (push_bit (16 * k) (mask 16)) j = (if j = k then - 1 else 0)"
proof (rule bit_word_eqI)
  fix i
  assume "j < 4" "k < 4" "i < LENGTH(16)"
  moreover have "16 * k \<le> 16 * j + i \<and> 16 * j + i - 16 * k < 16 \<longleftrightarrow> j = k" if "i < 16" using that by linarith
  ultimately show "bit (hw (push_bit (16 * k) (mask 16)) j) i \<longleftrightarrow> bit (if j = k then - 1 else 0 :: 16 word) i"
    by (auto simp: bit_hw bit_simps)
qed

lemma hw_logic: "hw (x OR y) j = (hw x j OR hw y j)" "hw (x AND y) j = (hw x j AND hw y j)"
  "j < 4 \<Longrightarrow> hw (NOT x) j = NOT (hw x j)" "hw 0 j = 0"
  by (rule bit_word_eqI; auto simp: bit_hw bit_simps)+

lemma halfwords_hw: "halfwords imm = (hw imm 0, hw imm 1, hw imm 2, hw imm 3)"
proof -
  have low: "bit (Low16Bits x) n \<longleftrightarrow> n < 16 \<and> bit x n" for x n
    using bit_exp_minus_1 [of 16 n, where 'a = 32] by (auto simp: Low16Bits_def bit_and_iff)
  have "ucast (Low16Bits (Low32Bits imm)) = hw imm 0" "ucast (High16Bits (Low32Bits imm)) = hw imm 1"
    "ucast (Low16Bits (High32Bits imm)) = hw imm 2" "ucast (High16Bits (High32Bits imm)) = hw imm 3"
    by (rule bit_word_eqI; auto simp: bit_hw bit_simps low High16Bits_def Low32Bits_def High32Bits_def)+
  then show ?thesis by (simp add: halfwords_def Let_def)
qed

text \<open>The chain of \<open>movz\<close> and \<open>movk\<close>: the code so far loads the half-words handled so far.\<close>

definition moved :: "nat \<Rightarrow> 32 word list \<times> bool \<Rightarrow> 64 word \<Rightarrow> bool" where
  "moved reg p v \<longleftrightarrow> (case p of (code, initialized) \<Rightarrow>
     if initialized then computes code (write_x reg v) else code = [] \<and> v = 0)"

lemma ucast_halfword: "take_bit 16 (ucast (h :: 16 word)) = (ucast h :: 64 word)"
  by (rule bit_word_eqI) (auto simp: bit_simps dest: bit_imp_le_length)

lemma move_halfword_step:
  assumes reg: "reg < 31" and k: "k < 4" and "moved reg p v" and "hw v k = 0"
  shows "moved reg (move_halfword reg h k p) (v OR push_bit (16 * k) (ucast h))"
proof -
  obtain code init where p: "p = (code, init)" by (cases p)
  have v: "(v AND NOT (push_bit (16 * k) (mask 16))) = v"
    using assms(2,4) by (intro hw_eqI) (auto simp: hw_logic hw_mask)
  note single = computes_single [of "IMovK reg (ucast h) k"] computes_single [of "IMovZ reg (ucast h) k"]
  have ok: "reg_ok reg" "reg \<noteq> ZR" using reg by (simp_all add: reg_ok_gp gp_not_ZR)
  show ?thesis
  proof (cases "h = 0")
    case True
    then show ?thesis using assms(3) unfolding p by (simp add: move_halfword_def)
  next
    case False
    show ?thesis
    proof (cases init)
      case True
      then have "computes code (write_x reg v)" using assms(3) by (simp add: p moved_def)
      from computes_append [OF this single(1)] ok k
      have "computes (code @ [movk reg (ucast h) k])
          (\<lambda>s. sem (IMovK reg (ucast h) k) (write_x reg v s))" by simp
      then have "computes (code @ [movk reg (ucast h) k]) (write_x reg (v OR push_bit (16 * k) (ucast h)))"
        by (rule computes_eq) (simp add: xreg_write ok v ucast_halfword)
      then show ?thesis using True False by (simp add: p moved_def move_halfword_def)
    next
      case F: False
      then have "v = 0" "code = []" using assms(3) by (simp_all add: p moved_def)
      moreover have "computes [movz reg (ucast h) k] (write_x reg (push_bit (16 * k) (ucast h)))"
        using single(2) ok k by (auto simp: ucast_halfword intro: computes_eq)
      ultimately show ?thesis using F False by (simp add: p moved_def move_halfword_def)
    qed
  qed
qed

lemma load_by_halfwords:
  assumes reg: "reg < 31" and "imm \<noteq> 0"
  shows "computes (fst (move_halfword reg (hw imm 3) 3 (move_halfword reg (hw imm 2) 2
           (move_halfword reg (hw imm 1) 1 (move_halfword reg (hw imm 0) 0 ([], False)))))) (write_x reg imm)"
proof -
  let ?p0 = "([], False) :: 32 word list \<times> bool"
  let ?part = "\<lambda>k. push_bit (16 * k) (ucast (hw imm k)) :: 64 word"
  have part: "hw (?part k) j = (if j = k then hw imm k else 0)" if "j < 4" "k < 4" for j k
    using hw_shifted [OF that, of "hw imm k"] by (simp add: ucast_halfword)
  note parts = part [of _ 0, simplified] part [of _ 1, simplified] part [of _ 2, simplified] part [of _ 3, simplified]
  let ?v = "((0 OR ?part 0) OR ?part 1) OR ?part 2"
  have "moved reg ?p0 0" by (simp add: moved_def)
  then have 0: "moved reg (move_halfword reg (hw imm 0) 0 ?p0) (0 OR ?part 0)"
    by (intro move_halfword_step [OF reg]) (simp_all add: hw_logic)
  have 1: "moved reg (move_halfword reg (hw imm 1) 1 (move_halfword reg (hw imm 0) 0 ?p0)) ((0 OR ?part 0) OR ?part 1)"
    by (rule move_halfword_step [OF reg _ 0]) (simp_all add: hw_logic parts)
  have 2: "moved reg (move_halfword reg (hw imm 2) 2 (move_halfword reg (hw imm 1) 1 (move_halfword reg (hw imm 0) 0 ?p0))) ?v"
    by (rule move_halfword_step [OF reg _ 1]) (simp_all add: hw_logic parts)
  have 3: "moved reg (move_halfword reg (hw imm 3) 3 (move_halfword reg (hw imm 2) 2 (move_halfword reg (hw imm 1) 1
      (move_halfword reg (hw imm 0) 0 ?p0)))) (?v OR ?part 3)"
    by (rule move_halfword_step [OF reg _ 2]) (simp_all add: hw_logic parts)
  have "?v OR ?part 3 = imm"
  proof (rule hw_eqI)
    fix j :: nat
    assume "j < 4"
    then have "j = 0 \<or> j = 1 \<or> j = 2 \<or> j = 3" by linarith
    then show "hw (?v OR ?part 3) j = hw imm j" by (elim disjE) (simp_all add: hw_logic parts)
  qed
  then show ?thesis using 3 assms(2) by (auto simp: moved_def split: if_splits prod.splits)
qed

text \<open>Values that begin with ones are loaded with \<open>movn\<close>.\<close>

lemma hw_cases:
  assumes "hw x 0 = hw y 0" "hw x 1 = hw y 1" "hw x 2 = hw y 2" "hw x 3 = hw y 3"
  shows "x = y"
proof (rule hw_eqI)
  fix j :: nat
  assume "j < 4"
  then have "j = 0 \<or> j = 1 \<or> j = 2 \<or> j = 3" by linarith
  then show "hw x j = hw y j" using assms by auto
qed

lemma hw_movn: "j < 4 \<Longrightarrow> k < 4 \<Longrightarrow>
   hw (NOT (push_bit (16 * k) (take_bit 16 (NOT (ucast (h :: 16 word)))))) j = (if j = k then h else - 1)"
proof (rule bit_word_eqI)
  fix i
  assume "j < 4" "k < 4" "i < LENGTH(16)"
  moreover have "16 * k \<le> 16 * j + i \<and> 16 * j + i - 16 * k < 16 \<longleftrightarrow> j = k" if "i < 16" using that by linarith
  ultimately show "bit (hw (NOT (push_bit (16 * k) (take_bit 16 (NOT (ucast h))))) j) i \<longleftrightarrow>
      bit (if j = k then h else - 1) i"
    by (auto simp: bit_hw bit_simps)
qed

lemma hw_movk: "j < 4 \<Longrightarrow> k < 4 \<Longrightarrow>
   hw ((v AND NOT (push_bit (16 * k) (mask 16))) OR push_bit (16 * k) (take_bit 16 (ucast (h :: 16 word)))) j =
   (if j = k then h else hw v j)"
  by (simp add: hw_logic hw_mask hw_shifted)

lemma computes_movn:
  assumes "reg < 31" "k < 4"
  shows "computes [movn reg (NOT (ucast (h :: 16 word))) k] (write_x reg (NOT (push_bit (16 * k) (take_bit 16 (NOT (ucast h))))))"
  using computes_single [of "IMovN reg (NOT (ucast h)) k"] assms by (auto simp: reg_ok_gp intro: computes_eq)

lemma computes_movk:
  assumes "reg < 31" "k < 4" and "computes code (write_x reg v)"
  shows "computes (code @ [movk reg (ucast (h :: 16 word)) k])
    (write_x reg ((v AND NOT (push_bit (16 * k) (mask 16))) OR push_bit (16 * k) (take_bit 16 (ucast h))))"
  using computes_append [OF assms(3) computes_single [of "IMovK reg (ucast h) k"]] assms(1,2)
  by (auto simp: reg_ok_gp xreg_write gp_not_ZR intro: computes_eq)

definition load_moves :: "nat \<Rightarrow> 64 word \<Rightarrow> 32 word list" where
  "load_moves reg imm =
     (if High32Bits imm = 0xffffffff
      then if hw imm 1 = 0xffff then [movn reg (NOT (ucast (hw imm 0))) 0]
           else [movn reg (NOT (ucast (hw imm 1))) 1, movk reg (ucast (hw imm 0)) 0]
      else if hw imm 3 = 0xffff
      then [movn reg (NOT (ucast (hw imm 2))) 2] @
           (if hw imm 1 \<noteq> 0xffff then [movk reg (ucast (hw imm 1)) 1] else []) @
           (if hw imm 0 \<noteq> 0xffff then [movk reg (ucast (hw imm 0)) 0] else [])
      else fst (move_halfword reg (hw imm 3) 3 (move_halfword reg (hw imm 2) 2
          (move_halfword reg (hw imm 1) 1 (move_halfword reg (hw imm 0) 0 ([], False))))))"

lemma LoadImmediate_cases:
  assumes "imm \<noteq> 0"
  shows "LoadImmediate False find_immediate reg imm = load_moves reg imm \<or>
    (\<exists>instr. orri reg ZR imm kEightBytes = Some instr \<and> LoadImmediate False find_immediate reg imm = [instr])"
  using assms unfolding LoadImmediate_def halfwords_hw load_moves_def
  by (cases "op_type (CanHold imm kXRegSizeInBits)"; cases "orri reg ZR imm kEightBytes")
     (simp_all add: Let_def del: One_nat_def)

lemma high_ones: "High32Bits imm = 0xffffffff \<Longrightarrow> hw imm 2 = - 1 \<and> hw imm 3 = - 1"
proof -
  assume eq: "High32Bits imm = 0xffffffff"
  have "(0xffffffff :: 32 word) = - 1" by simp
  then have "bit (High32Bits imm) i" if "i < 32" for i using that by (simp only: eq) simp
  then have "bit imm (32 + i)" if "i < 32" for i
    using that by (auto simp: High32Bits_def bit_simps)
  from this this [of "16 + i" for i]
  have "bit (hw imm 2) i" "bit (hw imm 3) i" if "i < 16" for i using that by (simp_all add: bit_hw)
  then show ?thesis by (auto intro!: bit_word_eqI)
qed

lemma computes_optional_movk:
  assumes "reg < 31" "k < 4" and "computes code (write_x reg v)" and "hw v k = - 1"
  shows "\<exists>u. computes (code @ (if h \<noteq> 0xffff then [movk reg (ucast (h :: 16 word)) k] else [])) (write_x reg u) \<and>
    (\<forall>j. j < 4 \<longrightarrow> hw u j = (if j = k then h else hw v j))"
proof (cases "h = 0xffff")
  case True
  then show ?thesis using assms by (intro exI [of _ v]) auto
next
  case False
  let ?u = "(v AND NOT (push_bit (16 * k) (mask 16))) OR push_bit (16 * k) (take_bit 16 (ucast h))"
  show ?thesis
    using computes_movk [OF assms(1-3), of h] False hw_movk [OF _ assms(2), of _ v h] by (intro exI [of _ ?u]) simp
qed

lemma load_moves_computes:
  assumes "reg < 31" "imm \<noteq> 0"
  shows "computes (load_moves reg imm) (write_x reg imm)"
proof -
  note movn = computes_movn [OF assms(1)] and movk = computes_movk [OF assms(1)]
  have F: "(0xffff :: 16 word) = - 1" by simp
  consider "High32Bits imm = 0xffffffff" "hw imm 1 = - 1" | "High32Bits imm = 0xffffffff" "hw imm 1 \<noteq> - 1"
    | "High32Bits imm \<noteq> 0xffffffff" "hw imm 3 = - 1" | "High32Bits imm \<noteq> 0xffffffff" "hw imm 3 \<noteq> - 1" by blast
  then show ?thesis
  proof cases
    case 1
    then have "NOT (push_bit (16 * 0) (take_bit 16 (NOT (ucast (hw imm 0))))) = imm"
      using high_ones by (intro hw_cases) (simp_all only: hw_movn, simp_all)
    then show ?thesis using movn [of 0 "hw imm 0"] 1 unfolding load_moves_def F by simp
  next
    case 2
    define v :: "64 word" where "v = NOT (push_bit (16 * 1) (take_bit 16 (NOT (ucast (hw imm 1)))))"
    have v: "hw v j = (if j = 1 then hw imm 1 else - 1)" if "j < 4" for j
      using that unfolding v_def by (simp only: hw_movn)
    have "(v AND NOT (push_bit (16 * 0) (mask 16))) OR push_bit (16 * 0) (take_bit 16 (ucast (hw imm 0))) = imm"
      using high_ones [OF 2(1)] by (intro hw_cases) (simp_all only: hw_movk v, simp_all)
    moreover have "computes [movn reg (NOT (ucast (hw imm 1))) 1] (write_x reg v)"
      unfolding v_def by (rule movn) simp
    from movk [OF _ this, where k = 0 and h = "hw imm 0"]
    have "computes [movn reg (NOT (ucast (hw imm 1))) 1, movk reg (ucast (hw imm 0)) 0]
      (write_x reg ((v AND NOT (push_bit (16 * 0) (mask 16))) OR push_bit (16 * 0) (take_bit 16 (ucast (hw imm 0)))))"
      by (simp del: One_nat_def)
    ultimately show ?thesis using 2 unfolding load_moves_def F by simp
  next
    case 3
    define v :: "64 word" where "v = NOT (push_bit (16 * 2) (take_bit 16 (NOT (ucast (hw imm 2)))))"
    have v: "hw v j = (if j = 2 then hw imm 2 else - 1)" if "j < 4" for j
      using that unfolding v_def by (simp only: hw_movn)
    have "computes [movn reg (NOT (ucast (hw imm 2))) 2] (write_x reg v)"
      unfolding v_def by (rule movn) simp
    from computes_optional_movk [OF assms(1) _ this, where k = 1 and h = "hw imm 1"] v
    obtain u where u: "computes ([movn reg (NOT (ucast (hw imm 2))) 2] @
        (if hw imm 1 \<noteq> 0xffff then [movk reg (ucast (hw imm 1)) 1] else [])) (write_x reg u)"
      "\<And>j. j < 4 \<Longrightarrow> hw u j = (if j = 1 then hw imm 1 else hw v j)" by (auto simp del: One_nat_def)
    from computes_optional_movk [OF assms(1) _ u(1), where k = 0 and h = "hw imm 0"] u(2) v
    obtain t where t: "computes (([movn reg (NOT (ucast (hw imm 2))) 2] @
        (if hw imm 1 \<noteq> 0xffff then [movk reg (ucast (hw imm 1)) 1] else [])) @
        (if hw imm 0 \<noteq> 0xffff then [movk reg (ucast (hw imm 0)) 0] else [])) (write_x reg t)"
      "\<And>j. j < 4 \<Longrightarrow> hw t j = (if j = 0 then hw imm 0 else hw u j)" by (auto simp del: One_nat_def)
    have "t = imm" using 3 by (intro hw_cases) (simp_all add: t(2) u(2) v)
    then show ?thesis using t(1) 3 unfolding load_moves_def F by simp
  next
    case 4
    then show ?thesis using load_by_halfwords [OF assms] unfolding load_moves_def F by simp
  qed
qed

lemma LoadImmediate_computes:
  assumes "reg < 31"
  shows "computes (LoadImmediate False find_immediate reg imm) (write_x reg imm)"
proof (cases "imm = 0")
  case True
  then show ?thesis using computes_single [of "IMovZ reg 0 0"] assms
    by (auto simp: LoadImmediate_def reg_ok_gp intro: computes_eq)
next
  case False
  from LoadImmediate_cases [OF this, of find_immediate reg] show ?thesis
  proof
    assume "\<exists>instr. orri reg ZR imm kEightBytes = Some instr \<and> LoadImmediate False find_immediate reg imm = [instr]"
    then obtain instr where o: "orri reg ZR imm kEightBytes = Some instr" "LoadImmediate False find_immediate reg imm = [instr]"
      by blast
    have "IsImmLogical imm kXRegSizeInBits \<noteq> None" using o(1) by (auto simp: orri_def logical_imm_def)
    then have "valid (ILogicImm LOrr reg ZR imm)" using assms by (simp add: reg_ok_def)
    from computes_single [OF this] o show ?thesis by (auto simp: xreg_def intro: computes_eq)
  next
    assume "LoadImmediate False find_immediate reg imm = load_moves reg imm"
    then show ?thesis using load_moves_computes [OF assms False] by simp
  qed
qed

section \<open>Adding and comparing with constants\<close>

lemma IsUint_12: "IsUint_signed 12 (x :: 64 word) \<longleftrightarrow> (\<exists>n. n < 2 ^ 12 \<and> x = of_nat n)"
proof -
  have s: "sint (of_nat n :: 64 word) = int n" if "n < 2 ^ 12" for n
    using that sint_of_int [of "int n", where 'a = 64] by simp
  have "IsUint_signed 12 x \<longleftrightarrow> 0 \<le> sint x \<and> sint x < 2 ^ 12"
    by (auto simp: IsUint_signed_def word_sless_alt word_sle_eq)
  also have "\<dots> \<longleftrightarrow> (\<exists>n. n < 2 ^ 12 \<and> x = of_nat n)"
  proof
    assume "0 \<le> sint x \<and> sint x < 2 ^ 12"
    moreover from this have "x = of_nat (nat (sint x))" by simp
    ultimately show "\<exists>n. n < 2 ^ 12 \<and> x = of_nat n" by (intro exI [of _ "nat (sint x)"]) auto
  qed (use s in auto)
  finally show ?thesis .
qed

lemma CanHold_immediate:
  assumes "op_type (CanHold imm w) = Immediate"
  obtains n up where "n < 2 ^ 12" "up \<longrightarrow> 0 < n" "imm = of_nat (if up then n * 2 ^ 12 else n)"
    "CanHold imm w = Operand_imm (of_nat (if up then n * 2 ^ 12 else n))"
proof -
  have push: "ucast (push_bit 10 (of_nat n :: 64 word)) = (push_bit 10 (of_nat n) :: 32 word)" if "n < 2 ^ 12" for n
  proof -
    have "ucast (of_nat (n * 1024) :: 64 word) = (of_nat (n * 1024) :: 32 word)"
      unfolding unsigned_of_nat using that by (simp add: take_bit_nat_eq_self)
    then show ?thesis by (simp add: push_bit_eq_mult)
  qed
  show thesis
  proof (cases "IsUint_signed 12 imm")
  case True
  then obtain n where n: "n < 2 ^ 12" "imm = of_nat n" unfolding IsUint_12 by blast
  then have "ucast (push_bit 10 imm) = (push_bit 10 (of_nat n) :: 32 word)" using push by simp
  then have "CanHold imm w = Operand_imm (of_nat n)"
    using True imm12_operand [OF n(1), of False] by (intro Operand.equality) (simp_all add: CanHold_def)
  with n that [of n False] show thesis by simp
next
  case False
  have c: "imm AND 0xfff = 0" "IsUint_signed 12 (signed_drop_bit 12 imm)"
    using assms False by (auto simp: CanHold_def split: if_splits option.splits)
  then obtain n where n: "n < 2 ^ 12" "signed_drop_bit 12 imm = of_nat n" unfolding IsUint_12 by blast
  have "imm = push_bit 12 (signed_drop_bit 12 imm)"
  proof (rule bit_word_eqI)
    fix k
    assume k: "k < LENGTH(64)"
    have "\<not> bit imm k" if "k < 12"
    proof -
      have "bit (0xfff :: 64 word) k" using that bit_exp_minus_1 [of 12 k, where 'a = 64] by simp
      then have "bit imm k \<longleftrightarrow> bit (imm AND 0xfff) k" by (simp only: bit_and_iff simp_thms)
      then show ?thesis using c(1) by simp
    qed
    then show "bit imm k \<longleftrightarrow> bit (push_bit 12 (signed_drop_bit 12 imm)) k"
      using k by (cases "k < 12") (auto simp: bit_simps)
  qed
  then have i: "imm = of_nat (n * 2 ^ 12)" unfolding n(2) by (simp add: push_bit_eq_mult)
  have "0 < n" using False i by (cases "n = 0") (auto simp: IsUint_12 dest: spec [of _ 0])
  moreover have "CanHold imm w = Operand_imm (of_nat (n * 2 ^ 12))"
    using False c imm12_operand [OF n(1), of True] n(2) push [OF n(1)] \<open>0 < n\<close>
    by (intro Operand.equality) (simp_all add: CanHold_def)
  ultimately show thesis using n i that [of n True] by simp
qed
qed

lemma computes_addsub_imm:
  assumes "op_type (CanHold imm w) = Immediate" "rn < 31" "rd < 31 \<or> (fl \<and> rd = ZR)"
  shows "computes [AddSubHelper kEightBytes fl subt rd rn (CanHold imm w)] (\<lambda>s. addsub fl subt rd (xreg s rn) imm s)"
proof -
  obtain n up where n: "n < 2 ^ 12" "up \<longrightarrow> 0 < n" and i: "imm = of_nat (if up then n * 2 ^ 12 else n)"
    and c: "CanHold imm w = Operand_imm (of_nat (if up then n * 2 ^ 12 else n))"
    using assms(1) by (rule CanHold_immediate)
  have "valid (IAddSubImm fl subt rd rn n up)" using assms n by simp
  from computes_single [OF this] show ?thesis
    unfolding c encode.simps sem.simps i [symmetric] .
qed

lemma Operand_reg_shift: "Operand_reg rm = Operand_shift rm LSL 0"
  by (simp add: Operand_reg_def Operand_shift_def)

lemma computes_addsub_reg:
  assumes "reg_ok rd" "reg_ok rn" "reg_ok rm"
  shows "computes [AddSubHelper kEightBytes fl subt rd rn (Operand_reg rm)]
    (\<lambda>s. addsub fl subt rd (xreg s rn) (xreg s rm) s)"
  using computes_single [of "IAddSub fl subt rd rn rm LSL 0"] assms
  by (auto simp: Operand_reg_shift intro: computes_eq)

text \<open>The flags of a comparison with a negated immediate.\<close>

lemma add_flags_negated:
  assumes "imm \<noteq> 0" "imm \<noteq> - (2 ^ 63)"
  shows "add_flags x (- imm) s = sub_flags x imm s"
proof -
  have "sint imm \<noteq> - (2 ^ 63)"
  proof
    assume "sint imm = - (2 ^ 63)"
    moreover have "imm = word_of_int (sint imm)" by simp
    ultimately have "imm = word_of_int (- (2 ^ 63))" by (simp only:)
    then show False using assms(2) by simp
  qed
  then have v: "sint (- imm) = - sint imm"
    using sint_of_int [of "- sint imm", where 'a = 64] sint_range64 [of imm] by simp
  have "uint imm \<noteq> 0" "uint imm mod 2 ^ 64 = uint imm"
    using assms(1) uint_range64 [of imm] by (simp_all add: uint_0_iff)
  then have "uint (- imm) = 2 ^ 64 - uint imm"
    unfolding uint_word_ariths(4) zmod_zminus1_eq_if by simp
  then have "2 ^ 64 \<le> uint x + uint (- imm) \<longleftrightarrow> imm \<le> x" unfolding word_le_def by linarith
  then show ?thesis unfolding add_flags_def sub_flags_def v by simp
qed

section \<open>Code that loads from the object pool\<close>

text \<open>\<open>runs P ws f\<close>: from every state whose registers, flags and memory are those of a state \<open>t\<close> that
  satisfies \<open>P\<close>, the simulator runs through the words to the instruction after them and reaches a state
  with the registers, flags and memory of \<open>f t\<close>.\<close>

definition runs :: "(sim \<Rightarrow> bool) \<Rightarrow> 32 word list \<Rightarrow> (sim \<Rightarrow> sim) \<Rightarrow> bool" where
  "runs P ws f \<longleftrightarrow>
     (\<forall>other fetch s t. P t \<longrightarrow> cpu s = cpu t \<longrightarrow> code_at fetch (pc s) ws \<longrightarrow>
        (\<exists>s'. Execute other fetch s = Execute other fetch s' \<and> pc s' = pc s + 4 * of_nat (length ws) \<and>
           cpu s' = cpu (f t)))"

lemma runs_computes: "computes ws f \<Longrightarrow> runs P ws f"
  unfolding computes_def runs_def using Execute_straight by (metis length_map)

lemma runs_append:
  assumes "runs P ws f" "runs Q ws' g" "\<And>t. P t \<Longrightarrow> Q (f t)"
  shows "runs P (ws @ ws') (\<lambda>s. g (f s))"
  unfolding runs_def
proof (intro allI impI)
  fix other fetch s t
  assume t: "P t" "cpu s = cpu t" and code: "code_at fetch (pc s) (ws @ ws')"
  then obtain s1 where s1: "Execute other fetch s = Execute other fetch s1"
      "pc s1 = pc s + 4 * of_nat (length ws)" "cpu s1 = cpu (f t)"
    using assms(1) unfolding runs_def code_at_append by meson
  have "code_at fetch (pc s1) ws'" using code s1(2) by (simp add: code_at_append)
  then obtain s2 where "Execute other fetch s1 = Execute other fetch s2"
      "pc s2 = pc s1 + 4 * of_nat (length ws')" "cpu s2 = cpu (g (f t))"
    using assms(2) s1(3) assms(3) [OF t(1)] unfolding runs_def by meson
  then show "\<exists>s'. Execute other fetch s = Execute other fetch s' \<and>
      pc s' = pc s + 4 * of_nat (length (ws @ ws')) \<and> cpu s' = cpu (g (f t))"
    using s1 by (intro exI [of _ s2]) (simp add: algebra_simps)
qed

lemma runs_then: "runs P ws f \<Longrightarrow> computes ws' g \<Longrightarrow> runs P (ws @ ws') (\<lambda>s. g (f s))"
  by (rule runs_append [where Q = "\<lambda>_. True"]) (simp_all add: runs_computes)

lemma runs_eq: "runs P ws f \<Longrightarrow> (\<And>s. P s \<Longrightarrow> f s = g s) \<Longrightarrow> runs P ws g"
  unfolding runs_def by metis

lemma runs_weaken: "runs P ws f \<Longrightarrow> (\<And>s. Q s \<Longrightarrow> P s) \<Longrightarrow> runs Q ws f"
  unfolding runs_def by metis

lemma Execute_runs:
  assumes "runs P ws f" "P s" and "code_at fetch (pc s) (ws @ [ret_instr LR])"
    and "registers (f s) LR = kEndSimulatingPC"
  shows "\<exists>s'. Execute other fetch s = ret s' \<and> pc s' = kEndSimulatingPC \<and> cpu s' = cpu (f s)"
proof -
  obtain s1 where s1: "Execute other fetch s = Execute other fetch s1" "pc s1 = pc s + 4 * of_nat (length ws)"
      "cpu s1 = cpu (f s)"
    using assms(1) [unfolded runs_def, rule_format, OF assms(2) refl, of fetch other] assms(3)
    by (auto simp: code_at_append)
  moreover have "code_at fetch (pc s1) [ret_instr LR]" using assms(3) s1(2) by (simp add: code_at_append)
  moreover have "registers s1 LR = kEndSimulatingPC" using s1(3) assms(4) by (simp add: cpu_def)
  ultimately show ?thesis using Execute_ret [of fetch s1 other] by simp
qed

text \<open>A load whose address is a function of the registers.\<close>

definition loadable :: "(sim \<Rightarrow> 64 word) \<Rightarrow> 64 word \<Rightarrow> sim \<Rightarrow> bool" where
  "loadable a v s \<longleftrightarrow> \<not> IsIllegalAddress (a s) \<and> ReadU 8 (a s) s = ret v"

lemma runs_load:
  assumes dec: "\<And>other s. loadable a v s \<Longrightarrow> InstructionDecode other i s = ret (advance (write_x rt v s))"
    and a: "\<And>s t. registers s = registers t \<Longrightarrow> a s = a t"
  shows "runs (loadable a v) [i] (write_x rt v)"
  unfolding runs_def
proof (intro allI impI)
  fix other fetch s t
  assume t: "loadable a v t" "cpu s = cpu t" and code: "code_at fetch (pc s) [i]"
  let ?s = "s\<lparr>icount := icount s + 1\<rparr>"
  have "registers ?s = registers t" "memory ?s = memory t" using t(2) by (simp_all add: cpu_def)
  then have "loadable a v ?s"
    using t(1) a [of ?s t] ReadU_cong [of ?s t] by (simp add: loadable_def)
  note d = dec [OF this, of other]
  have "pc (write_x rt v ?s) = pc s" by (simp add: write_x_def)
  with Execute_word [OF _ _ _ d, of fetch] code
  have "Execute other fetch s = Execute other fetch (advance (write_x rt v ?s)) \<and>
      pc (advance (write_x rt v ?s)) = pc s + 4"
    by simp
  moreover have "cpu (write_x rt v ?s) = cpu (write_x rt v t)"
    using t(2) by (simp add: cpu_def write_x_def)
  ultimately show "\<exists>s'. Execute other fetch s = Execute other fetch s' \<and> pc s' = pc s + 4 * of_nat (length [i]) \<and>
      cpu s' = cpu (write_x rt v t)"
    by (intro exI [of _ "advance (write_x rt v ?s)"]) simp
qed

lemma runs_ldr_offset:
  assumes "k < 4096" "rt < 31" "rn < 31"
  shows "runs (loadable (\<lambda>s. registers s rn + 8 * of_nat k) v) [ldr rt (Address_offset rn (of_nat (8 * k))) kEightBytes]
           (write_x rt v)"
  using ldr_offset_executes [OF assms] by (intro runs_load) (simp_all add: loadable_def)

lemma runs_ldr_reg:
  assumes "rm < 31" "rt < 31" "rn < 31"
  shows "runs (loadable (\<lambda>s. registers s rn + registers s rm) v) [ldr rt (Address_reg rn rm UXTX False) kEightBytes]
           (write_x rt v)"
  using ldr_reg_executes [OF assms] by (intro runs_load) (simp_all add: loadable_def)

text \<open>The three forms of a load from the pool.\<close>

lemma pool_offset:
  assumes "index < 2 ^ 28 - 2"
  defines "k \<equiv> index + 2"
  shows "element_offset index = of_nat (8 * k)" "8 * k < 2 ^ 31" "(ucast (element_offset index) :: 64 word) = 8 * of_nat k"
proof -
  show e: "element_offset index = of_nat (8 * k)"
    by (simp add: element_offset_def k_def algebra_simps)
  show k: "8 * k < 2 ^ 31" using assms by (simp add: k_def)
  have "(ucast (of_nat (8 * k) :: 32 word) :: 64 word) = of_nat (8 * k)"
    unfolding unsigned_of_nat using k by (simp add: take_bit_nat_eq_self del: of_nat_mult)
  then show "(ucast (element_offset index) :: 64 word) = 8 * of_nat k" unfolding e by simp
qed

lemma write_loadable:
  assumes "\<And>s. a (write_x r (x s) s) = b s" and "loadable b v s"
  shows "loadable a v (write_x r (x s) s)"
  using assms ReadU_cong [of "write_x r (x s) s" s] by (simp add: loadable_def write_x_def)

lemma offset_split:
  assumes "8 * k < 2 ^ 31"
  shows "(of_nat (8 * k) :: 32 word) AND 0xfff = of_nat (8 * (k mod 512))"
    and "(ucast ((of_nat (8 * k) :: 32 word) AND 0xfffff000) :: 64 word) + 8 * of_nat (k mod 512) = 8 * of_nat k"
proof -
  let ?off = "of_nat (8 * k) :: 32 word"
  have "?off AND 0xfff = take_bit 12 ?off"
    by (simp add: take_bit_eq_mask mask_eq_exp_minus_1)
  also have "\<dots> = of_nat (take_bit 12 (8 * k))"
    by (simp only: take_bit_of_nat)
  also have "\<dots> = of_nat (8 * (k mod 512))"
    using mult_mod_right [of 8 k 512] by (simp add: take_bit_eq_mod del: of_nat_mult)
  finally show low: "?off AND 0xfff = of_nat (8 * (k mod 512))" .
  have m: "(0xfffff000 :: 32 word) = NOT 0xfff" by simp
  have "?off = (?off AND 0xfffff000) OR (?off AND 0xfff)"
    unfolding m by (rule bit_word_eqI) (auto simp: bit_simps)
  also have "\<dots> = (?off AND 0xfffff000) + (?off AND 0xfff)"
    unfolding m by (rule disjunctive_add_eq_or [symmetric]) (simp add: bit_eq_iff bit_simps)
  finally have "?off AND 0xfffff000 = of_nat (8 * k) - of_nat (8 * (k mod 512))"
    unfolding low by (metis add_diff_cancel_right')
  also have "\<dots> = of_nat (8 * k - 8 * (k mod 512))"
    by (rule of_nat_diff [symmetric]) simp
  finally have "(ucast (?off AND 0xfffff000) :: 64 word) = of_nat (8 * k - 8 * (k mod 512))"
    using assms by (simp only: unsigned_of_nat) (simp add: take_bit_nat_eq_self)
  then show "(ucast (?off AND 0xfffff000) :: 64 word) + 8 * of_nat (k mod 512) = 8 * of_nat k"
    by (simp add: of_nat_diff)
qed

lemma pool_add_load:
  assumes "dst < 31" "pp < 31" "k mod 512 = j" and "op_type (CanHold up w) = Immediate" and "up + 8 * of_nat j = 8 * of_nat k"
  shows "runs (loadable (\<lambda>s. registers s pp + 8 * of_nat k) v)
           [add dst pp (CanHold up w) kEightBytes, ldr dst (Address_offset dst (of_nat (8 * j))) kEightBytes] (write_x dst v)"
proof -
  have j: "j < 4096" using assms(3) by auto
  note nz = gp_not_ZR [OF assms(1)]
  have x: "xreg s pp = registers s pp" for s using assms(2) by (simp add: xreg_def gp_not_ZR)
  have 1: "computes [add dst pp (CanHold up w) kEightBytes] (\<lambda>s. write_x dst (registers s pp + up) s)"
    using computes_addsub_imm [OF assms(4,2), of dst False False] assms(1)
    by (auto simp: add_def addsub_def x intro: computes_eq)
  have 2: "loadable (\<lambda>s. registers s dst + 8 * of_nat j) v (write_x dst (registers t pp + up) t)"
    if "loadable (\<lambda>s. registers s pp + 8 * of_nat k) v t" for t
    using that assms(5) by (intro write_loadable) (simp_all add: write_x_def nz algebra_simps flip: assms(5))
  from runs_append [OF runs_computes [OF 1] runs_ldr_offset [OF j assms(1,1), of v] 2] show ?thesis by simp
qed

lemma offset_halves:
  fixes off :: "32 word"
  defines "l \<equiv> ucast (Low16Bits off) :: 16 word" and "h \<equiv> ucast (High16Bits off) :: 16 word"
  shows "(push_bit 0 (take_bit 16 (ucast l)) AND NOT (push_bit 16 (mask 16))) OR push_bit 16 (take_bit 16 (ucast h)) =
           (ucast off :: 64 word)"
    and "h = 0 \<Longrightarrow> push_bit 0 (take_bit 16 (ucast l)) = (ucast off :: 64 word)"
proof -
  have l: "bit l n \<longleftrightarrow> n < 16 \<and> bit off n" for n
    using bit_exp_minus_1 [of 16 n, where 'a = 32] by (auto simp: l_def Low16Bits_def bit_simps)
  have h: "bit h n \<longleftrightarrow> n < 16 \<and> bit off (16 + n)" for n
    by (auto simp: h_def High16Bits_def bit_simps)
  have off: "bit off n \<Longrightarrow> n < 32" for n by (auto dest: bit_imp_le_length)
  show "(push_bit 0 (take_bit 16 (ucast l)) AND NOT (push_bit 16 (mask 16))) OR push_bit 16 (take_bit 16 (ucast h)) =
           (ucast off :: 64 word)"
    by (rule bit_word_eqI) (auto simp: bit_simps l h dest: off)
  assume "h = 0"
  then have "\<not> bit off (16 + n)" if "n < 16" for n using h [of n] that by simp
  from this [of "n - 16" for n] have "\<not> bit off n" if "16 \<le> n" for n
    using that off [of n] le_add_diff_inverse [OF that] by (metis less_diff_conv2 numeral_Bit0)
  then have "bit off n \<Longrightarrow> n < 16" for n by (metis not_less)
  then show "push_bit 0 (take_bit 16 (ucast l)) = (ucast off :: 64 word)"
    by (intro bit_word_eqI) (auto simp: bit_simps l)
qed

lemma pool_reg_load:
  fixes off :: "32 word"
  assumes "dst < 31" "pp < 31" "dst \<noteq> pp"
  defines "l \<equiv> ucast (Low16Bits off) :: 16 word" and "h \<equiv> ucast (High16Bits off) :: 16 word"
  shows "runs (loadable (\<lambda>s. registers s pp + ucast off) v)
           ([movz dst (ucast l) 0] @ (if h \<noteq> 0 then [movk dst (ucast h) 1] else []) @
            [ldr dst (Address_reg pp dst UXTX False) kEightBytes]) (write_x dst v)"
proof -
  note nz = gp_not_ZR [OF assms(1)]
  have z: "computes [movz dst (ucast l) 0] (write_x dst (push_bit 0 (take_bit 16 (ucast l))))"
    using computes_single [of "IMovZ dst (ucast l) 0"] assms(1) by (auto simp: reg_ok_gp intro: computes_eq)
  have 1: "computes ([movz dst (ucast l) 0] @ (if h \<noteq> 0 then [movk dst (ucast h) 1] else [])) (write_x dst (ucast off))"
  proof (cases "h = 0")
    case True
    then show ?thesis using z offset_halves(2) [of off] by (simp add: l_def h_def)
  next
    case False
    then show ?thesis
      using computes_movk [OF assms(1) _ z, of 1 h] offset_halves(1) [of off] by (simp add: l_def h_def)
  qed
  have 2: "loadable (\<lambda>s. registers s pp + registers s dst) v (write_x dst (ucast off) t)"
    if "loadable (\<lambda>s. registers s pp + ucast off) v t" for t
    using that assms(3) by (intro write_loadable [where x = "\<lambda>_. ucast off"]) (simp_all add: write_x_def nz)
  from runs_append [OF runs_computes [OF 1] runs_ldr_reg [OF assms(1,1,2), of v] 2] show ?thesis by simp
qed

lemma LoadWordFromPoolIndex_runs:
  assumes "dst < 31" "pp < 31" "dst \<noteq> pp" "index < 2 ^ 28 - 2"
  shows "runs (loadable (\<lambda>s. registers s pp + ucast (element_offset index)) v) (LoadWordFromPoolIndex dst index pp)
           (write_x dst v)"
proof -
  define k where "k = index + 2"
  note P = pool_offset [OF assms(4), folded k_def]
  define up where "up = element_offset index AND 0xfffff000"
  show ?thesis
  proof (cases "k < 4096")
    case True
    then show ?thesis
      using runs_ldr_offset [OF True assms(1,2), of v] CanHoldOffset_of_nat(2) [OF P(2)] P(1,3)
      by (simp add: LoadWordFromPoolIndex_def del: of_nat_mult)
  next
    case False
    then have f: "\<not> CanHoldOffset (element_offset index) Offset kEightBytes"
      using CanHoldOffset_of_nat(2) [OF P(2)] P(1) by simp
    show ?thesis
    proof (cases "op_type (CanHold (ucast up) kXRegSizeInBits) = Immediate")
      case True
      note S = offset_split [OF P(2), folded P(1)]
      show ?thesis
        using pool_add_load [OF assms(1,2) refl True S(2) [folded up_def], of v] f True P(3) S(1)
        by (simp add: LoadWordFromPoolIndex_def up_def Let_def)
    next
      case False
      then show ?thesis
        using pool_reg_load [OF assms(1-3), of "element_offset index" v] f
        by (simp add: LoadWordFromPoolIndex_def up_def Let_def)
    qed
  qed
qed

text \<open>The constant that \<open>LoadImmediate\<close> takes from the object pool, if it takes it from there, is in the pool
  that \<open>PP\<close> points to, at the index that the builder of the pool gave it.\<close>

definition pool_ready :: "bool \<Rightarrow> (64 word \<Rightarrow> nat) \<Rightarrow> nat \<Rightarrow> 64 word \<Rightarrow> sim \<Rightarrow> bool" where
  "pool_ready constant_pool_allowed find_immediate reg imm s \<longleftrightarrow>
     (LoadImmediate constant_pool_allowed find_immediate reg imm \<noteq> LoadImmediate False find_immediate reg imm \<longrightarrow>
        find_immediate imm < 2 ^ 28 - 2 \<and>
        loadable (\<lambda>s. registers s PP + ucast (element_offset (find_immediate imm))) imm s)"

lemma LoadImmediate_pool:
  "LoadImmediate constant_pool_allowed find_immediate reg imm = LoadImmediate False find_immediate reg imm \<or>
   LoadImmediate constant_pool_allowed find_immediate reg imm = LoadWordFromPoolIndex reg (find_immediate imm) PP"
  by (auto simp: LoadImmediate_def Let_def split: option.splits OperandType.splits prod.splits)

lemma LoadImmediate_runs:
  assumes "reg < 31" "reg \<noteq> PP"
  shows "runs (pool_ready constant_pool_allowed find_immediate reg imm)
           (LoadImmediate constant_pool_allowed find_immediate reg imm) (write_x reg imm)"
proof (cases "LoadImmediate constant_pool_allowed find_immediate reg imm = LoadImmediate False find_immediate reg imm")
  case True
  then show ?thesis using runs_computes [OF LoadImmediate_computes [OF assms(1)]] by metis
next
  case False
  then have l: "LoadImmediate constant_pool_allowed find_immediate reg imm = LoadWordFromPoolIndex reg (find_immediate imm) PP"
    using LoadImmediate_pool by blast
  have PP: "PP < 31" by (simp add: PP_def)
  show ?thesis
  proof (cases "find_immediate imm < 2 ^ 28 - 2")
    case True
    show ?thesis
      unfolding l by (rule runs_weaken [OF LoadWordFromPoolIndex_runs [OF assms(1) PP assms(2) True]])
        (use False in \<open>simp add: pool_ready_def\<close>)
  next
    case False
    with \<open>LoadImmediate constant_pool_allowed find_immediate reg imm \<noteq> _\<close> show ?thesis
      by (simp add: runs_def pool_ready_def)
  qed
qed

lemma pool_ready_write:
  assumes "r \<noteq> PP" "pool_ready c find_immediate reg imm s"
  shows "pool_ready c find_immediate reg imm (write_x r v s)"
proof -
  have "ReadU 8 a (write_x r v s) = ReadU 8 a s" for a by (rule ReadU_cong) (simp add: write_x_def)
  then show ?thesis using assms by (simp add: pool_ready_def loadable_def write_x_def)
qed

lemma AddImmediate_runs:
  assumes "dest < 31" "rn < 31" "rn \<noteq> TMP2"
  shows "\<exists>f. runs (pool_ready c find_immediate TMP2 imm) (AddImmediate c find_immediate dest rn imm kEightBytes) f \<and>
    (\<forall>s. xreg (f s) dest = xreg s rn + imm \<and>
      (\<forall>q. q \<noteq> dest \<longrightarrow> q \<noteq> TMP2 \<longrightarrow> xreg (f s) q = xreg s q))"
proof -
  let ?w = kXRegSizeInBits
  note nz = gp_not_ZR [OF assms(1)] and ok = reg_ok_gp [OF assms(1)] reg_ok_gp [OF assms(2)]
  have T: "TMP2 < 31" "TMP2 \<noteq> PP" by (simp_all add: TMP2_def PP_def)
  have effect: "xreg (addsub False subt dest l r s) q = (if q = dest then (if subt then l - r else l + r) else xreg s q)"
    for subt l r s q by (simp add: addsub_def xreg_write nz)
  consider "imm = 0" "dest = rn" | "imm = 0" "dest \<noteq> rn" | "imm \<noteq> 0" "op_type (CanHold imm ?w) = Immediate"
    | "imm \<noteq> 0" "op_type (CanHold imm ?w) \<noteq> Immediate" "op_type (CanHold (- imm) ?w) = Immediate"
    | "imm \<noteq> 0" "op_type (CanHold imm ?w) \<noteq> Immediate" "op_type (CanHold (- imm) ?w) \<noteq> Immediate" by blast
  then show ?thesis
  proof cases
    case 1
    then show ?thesis using runs_computes [OF computes_Nil] by (auto simp: AddImmediate_def intro!: exI [of _ "\<lambda>s. s"])
  next
    case 2
    have "mov dest rn = encode (ILogic LOrr dest ZR rn LSL 0)"
      using assms by (simp add: mov_def CSP_def Operand_reg_shift)
    moreover have "valid (ILogic LOrr dest ZR rn LSL 0)" using ok by (simp add: reg_ok_def)
    ultimately have "computes (AddImmediate c find_immediate dest rn imm kEightBytes) (sem (ILogic LOrr dest ZR rn LSL 0))"
      using 2 computes_single [of "ILogic LOrr dest ZR rn LSL 0"] by (simp add: AddImmediate_def)
    from runs_computes [OF this] show ?thesis using 2 by (intro exI conjI) (auto simp: xreg_write nz xreg_def [of _ ZR])
  next
    case 3
    then show ?thesis using runs_computes [OF computes_addsub_imm [OF 3(2) assms(2), of dest False False]] assms(1)
      by (intro exI conjI) (auto simp: AddImmediate_def add_def effect)
  next
    case 4
    then show ?thesis using runs_computes [OF computes_addsub_imm [OF 4(3) assms(2), of dest False True]] assms(1)
      by (intro exI conjI) (auto simp: AddImmediate_def sub_def effect)
  next
    case 5
    have "computes [add dest rn (Operand_reg TMP2) kEightBytes] (\<lambda>s. addsub False False dest (xreg s rn) (xreg s TMP2) s)"
      unfolding add_def by (rule computes_addsub_reg [OF ok reg_ok_gp [OF T(1)]])
    from runs_then [OF LoadImmediate_runs [OF T] this] 5
    have "runs (pool_ready c find_immediate TMP2 imm) (AddImmediate c find_immediate dest rn imm kEightBytes)
        (\<lambda>s. addsub False False dest (xreg (write_x TMP2 imm s) rn) (xreg (write_x TMP2 imm s) TMP2) (write_x TMP2 imm s))"
      by (simp add: AddImmediate_def)
    then show ?thesis by (intro exI conjI) (auto simp: effect xreg_write gp_not_ZR [OF T(1)] assms(3))
  qed
qed

lemma CompareImmediate_runs:
  assumes "rn < 31" "rn \<noteq> TMP2"
  shows "\<exists>f. runs (pool_ready c find_immediate TMP2 imm) (CompareImmediate c find_immediate rn imm kEightBytes) f \<and>
    (\<forall>s. (\<exists>t. (t = s \<or> t = write_x TMP2 imm s) \<and> f s = sub_flags (xreg s rn) imm t))"
proof -
  let ?w = kXRegSizeInBits
  have T: "TMP2 < 31" "TMP2 \<noteq> PP" by (simp_all add: TMP2_def PP_def)
  have ok: "reg_ok rn" "reg_ok ZR" using assms by (simp_all add: reg_ok_def)
  have effect: "addsub True subt ZR l r s = (if subt then sub_flags l r s else add_flags l r s)" for subt l r s
    by (simp add: addsub_def write_x_def)
  consider "op_type (CanHold imm ?w) = Immediate"
    | "op_type (CanHold imm ?w) \<noteq> Immediate" "op_type (CanHold (- imm) ?w) = Immediate"
    | "op_type (CanHold imm ?w) \<noteq> Immediate" "op_type (CanHold (- imm) ?w) \<noteq> Immediate" by blast
  then show ?thesis
  proof cases
    case 1
    then show ?thesis using runs_computes [OF computes_addsub_imm [OF 1 assms(1), of ZR True True]]
      by (intro exI conjI) (auto simp: CompareImmediate_def cmp_def subs_def effect)
  next
    case 2
    have "IsUint_signed 12 (0 :: 64 word)" unfolding IsUint_12 by (intro exI [of _ 0]) simp
    then have "imm \<noteq> 0" using 2(1) by (auto simp: CanHold_def)
    moreover have "imm \<noteq> - (2 ^ 63)"
    proof
      assume "imm = - (2 ^ 63)"
      obtain n up where "n < 2 ^ 12" "- imm = of_nat (if up then n * 2 ^ 12 else n)"
        using CanHold_immediate [OF 2(2)] by metis
      then have "unat (- imm) < 2 ^ 24" by (cases up) (simp_all add: unsigned_of_nat take_bit_nat_eq_self del: of_nat_mult)
      then show False using \<open>imm = - (2 ^ 63)\<close> by simp
    qed
    ultimately show ?thesis using 2 runs_computes [OF computes_addsub_imm [OF 2(2) assms(1), of ZR True False]]
      by (intro exI conjI) (auto simp: CompareImmediate_def cmn_def adds_def effect add_flags_negated)
  next
    case 3
    have "computes [cmp rn (Operand_reg TMP2) kEightBytes] (\<lambda>s. addsub True True ZR (xreg s rn) (xreg s TMP2) s)"
      unfolding cmp_def subs_def by (rule computes_addsub_reg [OF ok(2,1) reg_ok_gp [OF T(1)]])
    from runs_then [OF LoadImmediate_runs [OF T] this] 3
    have "runs (pool_ready c find_immediate TMP2 imm) (CompareImmediate c find_immediate rn imm kEightBytes)
        (\<lambda>s. addsub True True ZR (xreg (write_x TMP2 imm s) rn) (xreg (write_x TMP2 imm s) TMP2) (write_x TMP2 imm s))"
      by (simp add: CompareImmediate_def)
    then show ?thesis by (intro exI conjI) (auto simp: effect xreg_write gp_not_ZR [OF T(1)] assms(2))
  qed
qed

section \<open>Running the code\<close>

text \<open>An instruction memory that holds a program.\<close>

definition memory_of :: "64 word \<Rightarrow> 32 word list \<Rightarrow> 64 word \<Rightarrow> 32 word option" where
  "memory_of base ws a =
     (let k = unat (a - base) in if k mod 4 = 0 \<and> k div 4 < length ws then Some (ws ! (k div 4)) else None)"

lemma code_at_memory:
  assumes "2 ^ 16 \<le> unat base" and "unat base + 4 * length ws < 2 ^ 64 - 2" and "n \<le> length ws"
  shows "code_at (memory_of base ws) (base + 4 * of_nat n) (drop n ws)"
  using assms(3)
proof (induction "length ws - n" arbitrary: n)
  case (Suc m)
  then have n: "n < length ws" by simp
  have u: "unat (4 * of_nat n :: 64 word) = 4 * n"
  proof -
    have "unat (of_nat (4 * n) :: 64 word) = 4 * n"
      unfolding unsigned_of_nat using n assms(2) by (simp add: take_bit_nat_eq_self)
    then show ?thesis by simp
  qed
  have a: "unat (base + 4 * of_nat n) = unat base + 4 * n"
    using u n assms(2) by (simp add: unat_word_ariths)
  have "memory_of base ws (base + 4 * of_nat n) = Some (ws ! n)"
    using n u by (simp add: memory_of_def)
  moreover have "\<not> IsIllegalAddress (base + 4 * of_nat n)"
    unfolding IsIllegalAddress_def word_less_nat_alt a using assms(1) by simp
  moreover have "base + 4 * of_nat n \<noteq> kEndSimulatingPC"
  proof
    assume "base + 4 * of_nat n = kEndSimulatingPC"
    then have "unat (base + 4 * of_nat n) = 2 ^ 64 - 2" by (simp add: kEndSimulatingPC_def)
    then show False using a n assms(2) by linarith
  qed
  moreover have "code_at (memory_of base ws) (base + 4 * of_nat (Suc n)) (drop (Suc n) ws)"
    using Suc n by (intro Suc.hyps) auto
  ultimately show ?case by (simp add: Cons_nth_drop_Suc [OF n, symmetric] algebra_simps)
qed simp

text \<open>C31.  \<open>LoadImmediate\<close> loads every constant.  For every 64-bit value and every general register, the
  instruction sequence that \<open>LoadImmediate\<close> emits, followed by a return, runs to its end in the simulator
  and leaves the value in the register, all other registers and the flags unchanged: without the object
  pool unconditionally, and with it for every register but \<open>PP\<close>, provided that the constant, where the
  sequence loads it from the pool, is in the pool that \<open>PP\<close> points to.\<close>

theorem load_immediate_correct:
  assumes "reg < 31" "reg \<noteq> LR" and "registers s LR = kEndSimulatingPC"
    and "code_at fetch (pc s) (LoadImmediate constant_pool_allowed find_immediate reg imm @ [ret_instr LR])"
    and "constant_pool_allowed \<longrightarrow> reg \<noteq> PP \<and> pool_ready constant_pool_allowed find_immediate reg imm s"
  shows "\<exists>s'. Execute other fetch s = ret s' \<and> pc s' = kEndSimulatingPC \<and>
    registers s' = (registers s)(reg := imm) \<and> n_flag s' = n_flag s \<and> z_flag s' = z_flag s \<and>
    c_flag s' = c_flag s \<and> v_flag s' = v_flag s"
proof -
  have w: "write_x reg imm s = s\<lparr>registers := (registers s)(reg := imm)\<rparr>"
    using assms(1) by (simp add: write_x_def gp_not_ZR)
  have r: "runs (\<lambda>s. constant_pool_allowed \<longrightarrow> pool_ready constant_pool_allowed find_immediate reg imm s)
      (LoadImmediate constant_pool_allowed find_immediate reg imm) (write_x reg imm)"
  proof (cases constant_pool_allowed)
    case True
    then show ?thesis using LoadImmediate_runs [of reg True find_immediate imm] assms(1,5) by simp
  next
    case False
    then show ?thesis using runs_computes [OF LoadImmediate_computes [OF assms(1)]] by simp
  qed
  show ?thesis
    using Execute_runs [OF r _ assms(4), of other] assms(2,3,5)
    unfolding w by (auto simp: cpu_def)
qed

text \<open>A call with the pool at address \<open>0x40000\<close>, with one constant at index 5000.\<close>

definition pool_memory :: "64 word \<Rightarrow> 64 word \<Rightarrow> 8 word option" where
  "pool_memory v a =
     (let k = unat (a - (0x40000 + ucast (element_offset 5000))) in if k < 8 then Some (ucast (drop_bit (8 * k) v)) else None)"

definition demo_call :: sim where
  "demo_call = demo_sim\<lparr>registers := (\<lambda>_. 0)(LR := kEndSimulatingPC)\<rparr>"

definition demo_pool :: "64 word \<Rightarrow> sim" where
  "demo_pool v = demo_call\<lparr>registers := (registers demo_call)(PP := 0x40000), memory := pool_memory v\<rparr>"

lemma LoadUnaligned_bytes:
  "(\<And>k. k < n \<Longrightarrow> memory s (a + of_nat k) = Some (ucast (drop_bit (8 * k) v))) \<Longrightarrow>
   LoadUnaligned n a s = ret (take_bit (8 * n) v)"
proof (induction n arbitrary: a v)
  case (Suc n)
  have "memory s (a + 1 + of_nat k) = Some (ucast (drop_bit (8 * k) (drop_bit 8 v)))" if "k < n" for k
    using Suc.prems [of "Suc k"] that by (simp add: algebra_simps drop_bit_drop_bit)
  from Suc.IH [OF this] have "LoadUnaligned n (a + 1) s = ret (take_bit (8 * n) (drop_bit 8 v))" .
  moreover have "memory s a = Some (ucast v)" using Suc.prems [of 0] by simp
  moreover have "ucast (ucast v :: 8 word) OR push_bit 8 (take_bit (8 * n) (drop_bit 8 v)) = take_bit (8 * Suc n) v"
    by (rule bit_word_eqI) (auto simp: bit_simps)
  ultimately show ?case by simp
qed simp

lemma demo_pool_ready: "pool_ready c (\<lambda>_. 5000) reg imm (demo_pool imm)"
proof -
  let ?a = "0x40000 + ucast (element_offset 5000) :: 64 word"
  have "unat (?a + of_nat k - ?a) = k" if "k < 8" for k
    using that by (simp add: unsigned_of_nat take_bit_nat_eq_self)
  then have "LoadUnaligned 8 ?a (demo_pool imm) = ret (take_bit (8 * 8) imm)"
    by (intro LoadUnaligned_bytes) (simp add: demo_pool_def pool_memory_def Let_def)
  then have "ReadU 8 ?a (demo_pool imm) = ret imm"
    by (simp only: ReadU_def FLAG_sim_allow_unaligned_accesses_def) (simp add: take_bit_word_eq_self)
  moreover have "\<not> IsIllegalAddress ?a"
    by (simp add: element_offset_def IsIllegalAddress_def)
  ultimately show ?thesis
    by (simp add: pool_ready_def loadable_def demo_pool_def)
qed

lemma length_LoadImmediate: "length (LoadImmediate c find_immediate reg imm) \<le> 4"
  by (auto simp: LoadImmediate_def LoadWordFromPoolIndex_def move_halfword_def halfwords_hw Let_def
      split: option.splits OperandType.splits)

lemma demo_code: "length ws \<le> 100 \<Longrightarrow> code_at (memory_of 0x20000 ws) 0x20000 ws"
  using code_at_memory [of "0x20000" ws 0] by simp

lemma demo_pool_call: "pc (demo_pool v) = 0x20000" "registers (demo_pool v) LR = kEndSimulatingPC"
    "registers (demo_pool v) PP = 0x40000" "registers (demo_pool v) 4 = 0"
  by (simp_all add: demo_pool_def demo_call_def demo_sim_def LR_def PP_def)

theorem load_immediate_correct_witness:
  "\<exists>s'. Execute (\<lambda>_ _. unimplemented)
          (memory_of 0x20000 (LoadImmediate True (\<lambda>_. 5000) 3 0x123400005678ffff @ [ret_instr LR]))
          (demo_pool 0x123400005678ffff) = ret s' \<and>
        registers s' 3 = 0x123400005678ffff"
  using load_immediate_correct [of 3 "demo_pool 0x123400005678ffff"
      "memory_of 0x20000 (LoadImmediate True (\<lambda>_. 5000) 3 0x123400005678ffff @ [ret_instr LR])"
      True "\<lambda>_. 5000" "0x123400005678ffff" "\<lambda>_ _. unimplemented"]
    demo_code [of "LoadImmediate True (\<lambda>_. 5000) 3 0x123400005678ffff @ [ret_instr LR]"]
    length_LoadImmediate [of True "\<lambda>_. 5000" 3 "0x123400005678ffff"]
    demo_pool_ready [of True 3 "0x123400005678ffff"] demo_pool_call [of "0x123400005678ffff"]
  by (auto simp: LR_def PP_def)

text \<open>C32.  Adding and comparing with arbitrary 64-bit constants.  The 64-bit forms of \<open>AddImmediate\<close> and
  \<open>CompareImmediate\<close> work, with and without the object pool: \<open>AddImmediate\<close> leaves the sum in the
  destination whichever of its five code sequences it selects (among them a subtraction of the negated
  constant), and \<open>CompareImmediate\<close> sets the flags of the comparison with the constant, also when it
  adds the negated constant instead; no register but the destination and the scratch register changes.
  A constant that the code loads from the pool must be in the pool that \<open>PP\<close> points to.\<close>

theorem immediate_macros_correct:
  assumes "rn < 31" "rn \<noteq> TMP2" "dest < 31" "dest \<noteq> LR" and "registers s LR = kEndSimulatingPC"
    and "code_at fetch (pc s) (AddImmediate constant_pool_allowed find_immediate dest rn imm kEightBytes @ [ret_instr LR])"
    and "code_at fetch' (pc s) (CompareImmediate constant_pool_allowed find_immediate rn imm kEightBytes @ [ret_instr LR])"
    and "pool_ready constant_pool_allowed find_immediate TMP2 imm s"
  shows "(\<exists>s'. Execute other fetch s = ret s' \<and> registers s' dest = registers s rn + imm \<and>
           {q. q < 32 \<and> registers s' q \<noteq> registers s q} \<subseteq> {dest, TMP2}) \<and>
         (\<exists>s'. Execute other fetch' s = ret s' \<and> {q. q < 32 \<and> registers s' q \<noteq> registers s q} \<subseteq> {TMP2} \<and>
           z_flag s' = (registers s rn = imm) \<and> c_flag s' = (imm \<le> registers s rn) \<and>
           (n_flag s' \<noteq> v_flag s') = (registers s rn <s imm))"
proof
  have x: "xreg t q = registers t q" if "q < 32" for t q using that by (simp add: xreg_def ZR_def)
  have T: "TMP2 \<noteq> LR" "LR < 32" "rn < 32" "dest < 32" using assms by (simp_all add: TMP2_def LR_def)
  show "\<exists>s'. Execute other fetch s = ret s' \<and> registers s' dest = registers s rn + imm \<and>
           {q. q < 32 \<and> registers s' q \<noteq> registers s q} \<subseteq> {dest, TMP2}"
  proof -
    obtain f where f: "runs (pool_ready constant_pool_allowed find_immediate TMP2 imm)
        (AddImmediate constant_pool_allowed find_immediate dest rn imm kEightBytes) f"
      "xreg (f s) dest = xreg s rn + imm"
      "\<And>q. q \<noteq> dest \<Longrightarrow> q \<noteq> TMP2 \<Longrightarrow> xreg (f s) q = xreg s q"
      using AddImmediate_runs [OF assms(3,1,2), of constant_pool_allowed find_immediate imm] by blast
    have "registers (f s) LR = kEndSimulatingPC"
      using f(3) [of LR] assms(4,5) T x by simp
    from Execute_runs [OF f(1) assms(8,6) this, of other]
    obtain s' where s': "Execute other fetch s = ret s'" "registers s' = registers (f s)"
      by (auto simp: cpu_def)
    have "registers s' q = registers s q" if "q < 32" "q \<noteq> dest" "q \<noteq> TMP2" for q
      using f(3) [OF that(2,3)] x [OF that(1)] s'(2) by simp
    moreover have "registers s' dest = registers s rn + imm" using f(2) x T s'(2) by simp
    ultimately show ?thesis using s'(1) by blast
  qed
  show "\<exists>s'. Execute other fetch' s = ret s' \<and> {q. q < 32 \<and> registers s' q \<noteq> registers s q} \<subseteq> {TMP2} \<and>
           z_flag s' = (registers s rn = imm) \<and> c_flag s' = (imm \<le> registers s rn) \<and>
           (n_flag s' \<noteq> v_flag s') = (registers s rn <s imm)"
  proof -
    obtain f t where f: "runs (pool_ready constant_pool_allowed find_immediate TMP2 imm)
        (CompareImmediate constant_pool_allowed find_immediate rn imm kEightBytes) f"
      "t = s \<or> t = write_x TMP2 imm s" "f s = sub_flags (xreg s rn) imm t"
      using CompareImmediate_runs [OF assms(1,2), of constant_pool_allowed find_immediate imm] by blast
    have r: "registers (f s) = registers t" using f(3) by (simp add: sub_flags_def)
    then have "registers (f s) LR = kEndSimulatingPC"
      using f(2) T assms(5) by (auto simp: write_x_def)
    from Execute_runs [OF f(1) assms(8,7) this, of other]
    obtain s' where s': "Execute other fetch' s = ret s'" "cpu s' = cpu (f s)" by blast
    have "registers s' = registers t" using s'(2) r by (simp add: cpu_def)
    then have "{q. q < 32 \<and> registers s' q \<noteq> registers s q} \<subseteq> {TMP2}"
      using f(2) by (auto simp: write_x_def split: if_splits)
    moreover have "(n_flag s' \<noteq> v_flag s') = (registers s rn <s imm)"
      using s'(2) signed_order_from_diff [of "registers s rn" imm] x T
      by (simp add: cpu_def f(3) sub_flags_def word_sless_alt)
    ultimately show ?thesis
      using s' x T by (intro exI [of _ s']) (simp add: cpu_def f(3) sub_flags_def)
  qed
qed

theorem immediate_macros_correct_witness:
  "(\<exists>s'. Execute (\<lambda>_ _. unimplemented)
          (memory_of 0x20000 (AddImmediate True (\<lambda>_. 5000) 3 4 0x123400005678ffff kEightBytes @ [ret_instr LR]))
          (demo_pool 0x123400005678ffff) = ret s' \<and> registers s' 3 = 0x123400005678ffff) \<and>
   (\<exists>s'. Execute (\<lambda>_ _. unimplemented)
          (memory_of 0x20000 (CompareImmediate True (\<lambda>_. 5000) 4 0x123400005678ffff kEightBytes @ [ret_instr LR]))
          (demo_pool 0x123400005678ffff) = ret s' \<and>
        (n_flag s' \<noteq> v_flag s') = (0 <s (0x123400005678ffff :: 64 word)))"
proof -
  let ?v = "0x123400005678ffff :: 64 word"
  have l: "length (AddImmediate True (\<lambda>_. 5000) 3 4 ?v kEightBytes) \<le> 5"
    "length (CompareImmediate True (\<lambda>_. 5000) 4 ?v kEightBytes) \<le> 5"
    using length_LoadImmediate [of True "\<lambda>_. 5000" TMP2 ?v]
    by (simp_all add: AddImmediate_def CompareImmediate_def Let_def)
  show ?thesis
    using immediate_macros_correct [of 4 3 "demo_pool ?v"
        "memory_of 0x20000 (AddImmediate True (\<lambda>_. 5000) 3 4 ?v kEightBytes @ [ret_instr LR])" True "\<lambda>_. 5000" ?v
        "memory_of 0x20000 (CompareImmediate True (\<lambda>_. 5000) 4 ?v kEightBytes @ [ret_instr LR])" "\<lambda>_ _. unimplemented"]
      demo_code [of "AddImmediate True (\<lambda>_. 5000) 3 4 ?v kEightBytes @ [ret_instr LR]"]
      demo_code [of "CompareImmediate True (\<lambda>_. 5000) 4 ?v kEightBytes @ [ret_instr LR]"] l
      demo_pool_ready [of True TMP2 ?v] demo_pool_call [of ?v]
    by (auto simp: LR_def PP_def TMP2_def)
qed

end
