(* ===== verification/Magic_Division.thy ===== *)
theory Magic_Division
  imports Dart_Utils
begin

unbundle bit_operations_syntax

text \<open>
  \<open>Utils::CalculateMagicAndShiftForDivRem\<close> of \<open>runtime/platform/utils.cc\<close>: the multiplier and the shift that
  replace a 64-bit signed division by a constant.  The search for the least exponent is a loop over
  unsigned words that doubles two quotients with their remainders; it stops at an exponent of at most
  126 before any of the doubled numbers overflows, and the number it finds gives the exact quotient
  for every numerator.
\<close>

section \<open>The magic number\<close>

text \<open>The loop of \<open>CalculateMagicAndShiftForDivRem\<close>; it returns \<open>quotient2\<close> and the exponent \<open>p\<close>.\<close>

definition double_step :: "64 word \<Rightarrow> 64 word \<Rightarrow> 64 word \<Rightarrow> 64 word \<times> 64 word" where
  "double_step m quot rema =
     (let quot = 2 * quot; rema = 2 * rema
      in if m \<le> rema then (quot + 1, rema - m) else (quot, rema))"

partial_function (option) magic_loop ::
    "64 word \<Rightarrow> 64 word \<Rightarrow> nat \<Rightarrow> 64 word \<Rightarrow> 64 word \<Rightarrow> 64 word \<Rightarrow> 64 word \<Rightarrow> (64 word \<times> nat) exec" where
  "magic_loop abs_nc abs_d p quotient1 remainder1 quotient2 remainder2 =
     (let p = p + 1;
          (quotient1, remainder1) = double_step abs_nc quotient1 remainder1;
          (quotient2, remainder2) = double_step abs_d quotient2 remainder2;
          delta = abs_d - remainder2
      in if quotient1 < delta \<or> (quotient1 = delta \<and> remainder1 = 0)
         then magic_loop abs_nc abs_d p quotient1 remainder1 quotient2 remainder2
         else ret (quotient2, p))"

definition CalculateMagicAndShiftForDivRem :: "64 word \<Rightarrow> (64 word \<times> nat) exec" where
  "CalculateMagicAndShiftForDivRem divisor =
     (let exp = push_bit 63 1;
          abs_d = (if 0 \<le>s divisor then divisor else - divisor);
          sign_bit = drop_bit 63 divisor;
          tmp = exp + sign_bit;
          abs_nc = tmp - 1 - tmp mod abs_d
      in if abs_d = 0 \<or> abs_nc = 0 then raise_fault DivByZero
         else ebind (magic_loop abs_nc abs_d 63 (exp div abs_nc) (exp mod abs_nc) (exp div abs_d) (exp mod abs_d))
           (\<lambda>(quotient2, p). ret (if 0 <s divisor then quotient2 + 1 else - quotient2 - 1, p - 64)))"

section \<open>The multiplication replaces the division\<close>

lemma reciprocal_floor:
  fixes a M P dl N :: int
  assumes "0 < a" "0 < P" "0 \<le> dl" "M * a = P + dl" "0 \<le> N" and bound: "N * dl < (a - N mod a) * P"
  shows "M * N div P = N div a"
proof -
  define q r where "q = N div a" and "r = N mod a"
  have N: "N = a * q + r" unfolding q_def r_def by simp
  have r: "0 \<le> r" unfolding r_def using assms(1) by simp
  have eq: "(M * N) * a = P * a * q + P * r + N * dl"
    using assms(4) unfolding N by (metis (no_types, lifting) distrib_right distrib_left mult.assoc mult.commute add.assoc)
  have "q * P * a \<le> (M * N) * a"
    unfolding eq using assms(2,3,5) r by (simp add: ac_simps)
  then have lo: "q * P \<le> M * N" using assms(1) by simp
  have "(M * N) * a < (q + 1) * P * a"
    unfolding eq using bound unfolding r_def [symmetric] by (simp add: algebra_simps)
  then have hi: "M * N < (q + 1) * P" using assms(1) by simp
  have "q \<le> M * N div P" using lo assms(2) by (simp add: zle_div_iff)
  moreover have "M * N div P < q + 1" using zdiv_lt_iff [OF assms(2)] hi by blast
  ultimately show ?thesis unfolding q_def [symmetric] by linarith
qed

lemma reciprocal_ceiling:
  fixes a M P dl m :: int
  assumes "0 < a" "0 < P" "0 < dl" "M * a = P + dl" "0 < m" and bound: "m * dl \<le> (a - m mod a) * P"
  shows "M * (- m) div P = - (m div a) - 1"
proof -
  define q r where "q = m div a" and "r = m mod a"
  have m: "m = a * q + r" unfolding q_def r_def by simp
  have r: "0 \<le> r" unfolding r_def using assms(1) by simp
  have eq: "(M * m) * a = P * a * q + P * r + m * dl"
    using assms(4) unfolding m by (metis (no_types, lifting) distrib_right distrib_left mult.assoc mult.commute add.assoc)
  have "0 < m * dl" "0 \<le> P * r" using assms(2,3,5) r by simp_all
  then have "q * P * a < (M * m) * a" unfolding eq by (simp add: ac_simps)
  then have lo: "q * P < M * m" using assms(1) by simp
  have "(M * m) * a \<le> (q + 1) * P * a"
    unfolding eq using bound unfolding r_def [symmetric] by (simp add: algebra_simps)
  then have hi: "M * m \<le> (q + 1) * P" using assms(1) by simp
  have "(- q - 1) * P \<le> M * (- m)" "M * (- m) < - q * P" using hi lo by (simp_all add: algebra_simps)
  then have "- q - 1 \<le> M * (- m) div P" "M * (- m) div P < - q"
    using zle_div_iff [OF assms(2)] zdiv_lt_iff [OF assms(2)] by blast+
  then show ?thesis unfolding q_def [symmetric] by linarith
qed

text \<open>The numerators for which the error of the reciprocal is small enough.\<close>

lemma reciprocal_bound:
  fixes a P dl N T nc :: int
  assumes "0 < a" "0 < P" "0 \<le> dl" and nc: "nc = T - 1 - T mod a" "nc * dl < P" "T \<le> 2 * nc + 1"
    and N: "0 \<le> N" "N < T"
  shows "N * dl < (a - N mod a) * P"
proof (cases "N \<le> nc")
  case True
  then have "N * dl \<le> nc * dl" using assms(3) by (intro mult_right_mono)
  also have "\<dots> < P" by (rule nc(2))
  also have "P \<le> (a - N mod a) * P"
  proof -
    have "1 \<le> a - N mod a" using pos_mod_bound [OF assms(1), of N] by linarith
    then have "1 * P \<le> (a - N mod a) * P" using assms(2) by (intro mult_right_mono) auto
    then show ?thesis by simp
  qed
  finally show ?thesis .
next
  case False
  have T: "T mod a < a" "0 \<le> T mod a" using assms(1) by simp_all
  have "nc + 1 = a * (T div a)" using nc(1) mult_div_mod_eq [of a T] by linarith
  then have "N mod a = (N - (nc + 1)) mod a" by (metis mod_mult_self2 mult.commute diff_add_cancel add.commute)
  also have "\<dots> = N - (nc + 1)" using False N nc(1) T by (intro mod_pos_pos_trivial) linarith+
  finally have r: "2 \<le> a - N mod a" using N nc(1) T by linarith
  have "N * dl \<le> 2 * nc * dl" using N nc(3) assms(3) by (intro mult_right_mono) auto
  also have "\<dots> < 2 * P" using nc(2) by simp
  also have "2 * P \<le> (a - N mod a) * P" using r assms(2) by (intro mult_right_mono) auto
  finally show ?thesis .
qed

section \<open>The loop\<close>

lemma double_div_mod:
  fixes x m :: nat
  assumes "0 < m"
  shows "(2 * x) div m = 2 * (x div m) + (if m \<le> 2 * (x mod m) then 1 else 0)"
    and "(2 * x) mod m = (if m \<le> 2 * (x mod m) then 2 * (x mod m) - m else 2 * (x mod m))"
proof -
  define q r where "q = x div m" and "r = x mod m"
  have x: "2 * x = (2 * r) + m * (2 * q)" 
    using mult_div_mod_eq [of m x] unfolding q_def r_def
    by (metis add.commute distrib_left mult.left_commute)
  have r: "r < m" unfolding r_def using assms by simp
  have "(2 * x) div m = (2 * r) div m + 2 * q" "(2 * x) mod m = (2 * r) mod m"
    unfolding x using assms by simp_all
  moreover have "(2 * r) div m = (if m \<le> 2 * r then 1 else 0)" "(2 * r) mod m = (if m \<le> 2 * r then 2 * r - m else 2 * r)"
    using r by (auto simp: div_if mod_if)
  ultimately show "(2 * x) div m = 2 * (x div m) + (if m \<le> 2 * (x mod m) then 1 else 0)"
    "(2 * x) mod m = (if m \<le> 2 * (x mod m) then 2 * (x mod m) - m else 2 * (x mod m))"
    unfolding q_def [symmetric] r_def [symmetric] by simp_all
qed

lemma double_step_correct:
  assumes "unat q = 2 ^ p div unat m" "unat r = 2 ^ p mod unat m" and m: "0 < unat m" "unat m \<le> 2 ^ 63"
    and fits: "2 ^ (p + 1) div unat m < 2 ^ 64"
  obtains q' r' where "double_step m q r = (q', r')"
    "unat q' = 2 ^ (p + 1) div unat m" "unat r' = 2 ^ (p + 1) mod unat m"
proof -
  have d: "(2 :: nat) ^ (p + 1) = 2 * 2 ^ p" by simp
  note dm = double_div_mod [OF m(1), of "2 ^ p", folded d assms(1,2)]
  have "unat r < unat m" unfolding assms(2) using m(1) by simp
  then have r2: "unat (2 * r) = 2 * unat r" using m(2) by (simp add: unat_word_ariths)
  have q2: "unat (2 * q) = 2 * unat q" using dm(1) fits by (simp add: unat_word_ariths)
  show thesis
  proof (cases "m \<le> 2 * r")
    case True
    then have le: "unat m \<le> 2 * unat r" using r2 by (simp add: word_le_nat_alt)
    have "unat (2 * q + 1) = 2 * unat q + 1"
      using dm(1) fits le q2 by (simp add: unat_word_ariths)
    moreover have "unat (2 * r - m) = 2 * unat r - unat m" using True r2 by (simp add: unat_sub)
    ultimately show thesis using True le dm by (intro that [of "2 * q + 1" "2 * r - m"]) (simp_all add: double_step_def)
  next
    case False
    then have "\<not> unat m \<le> 2 * unat r" using r2 by (simp add: word_le_nat_alt)
    then show thesis using False dm q2 r2 by (intro that [of "2 * q" "2 * r"]) (simp_all add: double_step_def)
  qed
qed

definition magic_params :: "nat \<Rightarrow> nat \<Rightarrow> bool" where
  "magic_params A C \<longleftrightarrow> 2 \<le> A \<and> A \<le> 2 ^ 63 \<and> 2 ^ 62 \<le> C \<and> C \<le> 2 ^ 63 \<and>
     (A = 2 ^ 63 \<longrightarrow> C = 2 ^ 63 - 1) \<and> (C = 2 ^ 63 \<longrightarrow> odd A)"

text \<open>The exponent is large enough.\<close>

definition exponent_ok :: "nat \<Rightarrow> nat \<Rightarrow> nat \<Rightarrow> bool" where
  "exponent_ok A C p \<longleftrightarrow> C * (A - 2 ^ p mod A) < 2 ^ p"

lemma odd_not_dvd_power: "odd A \<Longrightarrow> 1 < A \<Longrightarrow> (2 :: nat) ^ k mod A \<noteq> 0"
proof
  assume A: "odd A" "1 < A" and "2 ^ k mod A = 0"
  then have "A dvd 2 ^ k" by (simp add: dvd_eq_mod_eq_0)
  moreover have "coprime A 2" using A(1) by (simp add: coprime_right_2_iff_odd)
  then have "coprime A (2 ^ k)" by simp
  ultimately have "A dvd 1" using coprime_common_divisor [of A "2 ^ k" A] by simp
  then show False using A(2) by simp
qed

lemma magic_delta:
  assumes "magic_params A C"
  shows "C * (A - 2 ^ k mod A) \<le> (2 ^ 63 - 1) * A"
proof -
  have A: "0 < A" "1 < A" and C: "C \<le> 2 ^ 63" using assms unfolding magic_params_def by auto
  show ?thesis
  proof (cases "C = 2 ^ 63")
    case True
    then have "odd A" using assms unfolding magic_params_def by simp
    then have "A - 2 ^ k mod A \<le> A - 1" using odd_not_dvd_power [of A k] A by simp
    then have "C * (A - 2 ^ k mod A) \<le> 2 ^ 63 * (A - 1)" unfolding True by (intro mult_le_mono2)
    also have "\<dots> \<le> (2 ^ 63 - 1) * A"
    proof -
      obtain B where "A = Suc B" using A by (cases A) auto
      moreover have "A \<le> 2 ^ 63" using assms unfolding magic_params_def by simp
      ultimately show ?thesis by simp
    qed
    finally show ?thesis .
  next
    case False
    then have "C \<le> 2 ^ 63 - 1" using C by simp
    then show ?thesis by (intro mult_le_mono) simp_all
  qed
qed

lemma exponent_126: "magic_params A C \<Longrightarrow> exponent_ok A C 126"
proof -
  assume par: "magic_params A C"
  have "(2 ^ 63 - 1) * A \<le> (2 ^ 63 - 1) * 2 ^ 63"
    using par unfolding magic_params_def by (intro mult_le_mono2) simp
  also have "\<dots> < (2 :: nat) ^ 126" by simp
  finally show ?thesis using magic_delta [OF par, of 126] unfolding exponent_ok_def by linarith
qed

lemma not_ok_fits:
  assumes par: "magic_params A C" and "\<not> exponent_ok A C k" "k < 126"
  shows "2 ^ (k + 1) div C < (2 :: nat) ^ 64" "2 ^ (k + 1) div A + 1 < (2 :: nat) ^ 64"
proof -
  define dl where "dl = A - 2 ^ k mod A"
  have A: "0 < A" "A \<le> 2 ^ 63" and C: "0 < C" using par unfolding magic_params_def by auto
  have le: "2 ^ k \<le> C * dl" using assms(2) unfolding exponent_ok_def dl_def by simp
  also have "\<dots> \<le> (2 ^ 63 - 1) * A" unfolding dl_def by (rule magic_delta [OF par])
  finally have "2 ^ (k + 1) \<le> 2 * ((2 ^ 63 - 1) * A)" by simp
  also have "\<dots> = (2 ^ 64 - 2) * A" by simp
  finally have "2 ^ (k + 1) div A \<le> ((2 ^ 64 - 2) * A) div A" by (rule div_le_mono)
  then show "2 ^ (k + 1) div A + 1 < (2 :: nat) ^ 64" using A by simp
  show "2 ^ (k + 1) div C < (2 :: nat) ^ 64"
  proof (cases "A = 2 ^ 63")
    case True
    then have "C = 2 ^ 63 - 1" using par unfolding magic_params_def by simp
    moreover have "(2 :: nat) ^ (k + 1) \<le> 2 ^ 126" using assms(3) by (intro power_increasing) auto
    then have "2 ^ (k + 1) div C \<le> 2 ^ 126 div C" by (rule div_le_mono)
    ultimately show ?thesis by simp
  next
    case False
    have "2 ^ (k + 1) \<le> (2 * dl) * C" using le by (simp add: ac_simps)
    then have "2 ^ (k + 1) div C \<le> ((2 * dl) * C) div C" by (rule div_le_mono)
    also have "\<dots> = 2 * dl" using C by simp
    also have "\<dots> < 2 ^ 64" using False A(2) unfolding dl_def by simp
    finally show ?thesis .
  qed
qed

lemma exit_test:
  assumes "unat q1 = 2 ^ p div C" "unat r1 = 2 ^ p mod C" "unat r2 = 2 ^ p mod A" "unat ad = A"
    and "0 < C" "0 < A"
  shows "(q1 < ad - r2 \<or> (q1 = ad - r2 \<and> r1 = 0)) \<longleftrightarrow> \<not> exponent_ok A C p"
proof -
  define dl where "dl = A - 2 ^ p mod A"
  have "unat r2 \<le> unat ad" using assms by simp
  then have dl: "unat (ad - r2) = dl" unfolding dl_def using assms by (simp add: unat_sub word_le_nat_alt)
  have P: "(2 :: nat) ^ p = C * unat q1 + unat r1" using assms(1,2) by simp
  have r1: "unat r1 < C" using assms by simp
  have "(q1 < ad - r2 \<or> (q1 = ad - r2 \<and> r1 = 0)) \<longleftrightarrow> unat q1 < dl \<or> (unat q1 = dl \<and> unat r1 = 0)"
    unfolding dl [symmetric] by (auto simp: word_less_nat_alt word_unat_eq_iff)
  also have "\<dots> \<longleftrightarrow> C * unat q1 + unat r1 \<le> C * dl"
  proof (cases "unat q1 < dl")
    case True
    then have "C * (unat q1 + 1) \<le> C * dl" by (intro mult_le_mono2) simp
    then show ?thesis using True r1 by simp
  next
    case False
    then have "C * dl \<le> C * unat q1" by (intro mult_le_mono2) simp
    moreover have "C * dl = C * unat q1 \<longleftrightarrow> dl = unat q1" using assms(5) by simp
    ultimately show ?thesis using False by linarith
  qed
  also have "C * unat q1 + unat r1 = 2 ^ p" by (rule P [symmetric])
  finally show ?thesis unfolding exponent_ok_def dl_def by (simp add: not_less)
qed

lemma magic_loop_returns:
  assumes par: "magic_params A C" and w: "unat nc = C" "unat ad = A"
    and inv: "unat q1 = 2 ^ p div C" "unat r1 = 2 ^ p mod C" "unat q2 = 2 ^ p div A" "unat r2 = 2 ^ p mod A"
    and "p < 126" and fits: "2 ^ (p + 1) div C < (2 :: nat) ^ 64" "2 ^ (p + 1) div A + 1 < (2 :: nat) ^ 64"
  shows "\<exists>p' q'. magic_loop nc ad p q1 r1 q2 r2 = ret (q', p') \<and> p < p' \<and> p' \<le> 126 \<and>
    exponent_ok A C p' \<and> (\<forall>k. p < k \<and> k < p' \<longrightarrow> \<not> exponent_ok A C k) \<and>
    unat q' = 2 ^ p' div A \<and> unat q' + 1 < 2 ^ 64"
  using inv \<open>p < 126\<close> fits
proof (induction "126 - p" arbitrary: p q1 r1 q2 r2 rule: less_induct)
  case less
  have m: "0 < unat nc" "unat nc \<le> 2 ^ 63" "0 < unat ad" "unat ad \<le> 2 ^ 63"
    using par w unfolding magic_params_def by auto
  obtain a b where ab: "double_step nc q1 r1 = (a, b)" "unat a = 2 ^ (p + 1) div C" "unat b = 2 ^ (p + 1) mod C"
    using double_step_correct [of q1 p nc r1] less.prems m w by auto
  obtain c d where cd: "double_step ad q2 r2 = (c, d)" "unat c = 2 ^ (p + 1) div A" "unat d = 2 ^ (p + 1) mod A"
    using double_step_correct [of q2 p ad r2] less.prems m w by auto
  have test: "(a < ad - d \<or> (a = ad - d \<and> b = 0)) \<longleftrightarrow> \<not> exponent_ok A C (p + 1)"
    using exit_test [of a "p + 1" C b d A ad] ab cd m w by simp
  show ?case
  proof (cases "exponent_ok A C (p + 1)")
    case True
    then have "magic_loop nc ad p q1 r1 q2 r2 = ret (c, p + 1)"
      using test by (subst magic_loop.simps) (auto simp: ab(1) cd(1))
    then show ?thesis using True cd(2) less.prems(5,7)
      by (intro exI [of _ "p + 1"] exI [of _ c]) auto
  next
    case False
    then have loop: "magic_loop nc ad p q1 r1 q2 r2 = magic_loop nc ad (p + 1) a b c d"
      using test by (subst magic_loop.simps) (simp add: ab(1) cd(1))
    have p: "p + 1 < 126" using False exponent_126 [OF par] less.prems(5) by (cases "p + 1 = 126") auto
    note next' = not_ok_fits [OF par False p]
    obtain p' q' where "magic_loop nc ad (p + 1) a b c d = ret (q', p')" "p + 1 < p'" "p' \<le> 126"
      "exponent_ok A C p'" "\<forall>k. p + 1 < k \<and> k < p' \<longrightarrow> \<not> exponent_ok A C k"
      "unat q' = 2 ^ p' div A" "unat q' + 1 < 2 ^ 64"
      using less.hyps [OF _ ab(2,3) cd(2,3) p next'] p by fastforce
    moreover have "\<not> exponent_ok A C k" if "p < k" "k < p'" for k
      using that False calculation(5) by (cases "k = p + 1") auto
    ultimately show ?thesis unfolding loop by (intro exI [of _ p'] exI [of _ q']) auto
  qed
qed

section \<open>The computed magic number\<close>

definition divisor_abs :: "64 word \<Rightarrow> nat" where
  "divisor_abs d = nat \<bar>sint d\<bar>"

definition numerator_limit :: "64 word \<Rightarrow> nat" where
  "numerator_limit d = 2 ^ 63 + (if sint d < 0 then 1 else 0)"

definition critical :: "64 word \<Rightarrow> nat" where
  "critical d = numerator_limit d - 1 - numerator_limit d mod divisor_abs d"

lemma divisor_abs_bounds:
  assumes "2 \<le> \<bar>sint d\<bar>"
  shows "2 \<le> divisor_abs d" "divisor_abs d \<le> 2 ^ 63" "0 \<le> sint d \<Longrightarrow> divisor_abs d < 2 ^ 63"
  using assms sint_range64 [of d] unfolding divisor_abs_def by auto

lemma critical_params:
  assumes "2 \<le> \<bar>sint d\<bar>"
  shows "magic_params (divisor_abs d) (critical d)" "critical d + 1 + numerator_limit d mod divisor_abs d = numerator_limit d"
proof -
  define A T where "A = divisor_abs d" and "T = numerator_limit d"
  note A = divisor_abs_bounds [OF assms, folded A_def]
  have T: "T = 2 ^ 63 \<or> T = 2 ^ 63 + 1" unfolding T_def numerator_limit_def by simp
  have AT: "A \<le> T" using A T by auto
  have m: "T mod A < A" using A by simp
  have div1: "A \<le> T - T mod A"
  proof -
    have "1 \<le> T div A" using AT A by (simp add: div_greater_zero_iff Suc_le_eq)
    then have "A * 1 \<le> A * (T div A)" by (intro mult_le_mono2)
    then show ?thesis using mult_div_mod_eq [of A T] by linarith
  qed
  have C: "critical d + 1 + T mod A = T" unfolding critical_def A_def [symmetric] T_def [symmetric] using AT m A by linarith
  then show "critical d + 1 + numerator_limit d mod divisor_abs d = numerator_limit d"
    unfolding A_def T_def .
  have "2 ^ 62 \<le> critical d" using C div1 m T by auto
  moreover have "critical d \<le> 2 ^ 63" using C T by auto
  moreover have "critical d = 2 ^ 63 - 1" if "A = 2 ^ 63"
  proof -
    have "sint d < 0" using A(3) that by (cases "0 \<le> sint d") auto
    then have "T = 2 ^ 63 + 1" unfolding T_def numerator_limit_def by simp
    then show ?thesis using C that by simp
  qed
  moreover have "odd A" if "critical d = 2 ^ 63"
  proof
    have T': "T mod A = 0" "T = 2 ^ 63 + 1" using C T that by auto
    assume "even A"
    then have "2 dvd T" using T'(1) by (meson dvd_trans mod_0_imp_dvd)
    then show False using T'(2) by simp
  qed
  ultimately show "magic_params (divisor_abs d) (critical d)"
    using A unfolding magic_params_def A_def by blast
qed

lemma magic_words:
  assumes "2 \<le> \<bar>sint d\<bar>"
  defines "ad \<equiv> (if 0 \<le>s d then d else - d)" and "tmp \<equiv> push_bit 63 1 + drop_bit 63 d"
  shows "unat ad = divisor_abs d" "unat (tmp - 1 - tmp mod ad) = critical d" "unat (push_bit 63 1 :: 64 word) = 2 ^ 63"
proof -
  show p: "unat (push_bit 63 1 :: 64 word) = 2 ^ 63" by simp
  show a: "unat ad = divisor_abs d"
    unfolding ad_def divisor_abs_def word_sle_eq using unat_sint [of d] unat_minus_sint [of d] by auto
  have "drop_bit 63 d = (if sint d < 0 then 1 else 0)"
  proof (rule bit_word_eqI)
    fix n assume "n < LENGTH(64)"
    show "bit (drop_bit 63 d) n = bit (if sint d < 0 then 1 else 0 :: 64 word) n"
    proof (cases n)
      case 0
      then show ?thesis using bit_last_iff [of d] by (simp add: bit_drop_bit_eq)
    next
      case (Suc m)
      then have "\<not> bit d (63 + n)" using bit_imp_le_length [of d "63 + n"] by auto
      then show ?thesis using Suc by (simp add: bit_drop_bit_eq bit_1_iff)
    qed
  qed
  then have t: "unat tmp = numerator_limit d" unfolding tmp_def numerator_limit_def by simp
  note C = critical_params(2) [OF assms(1)]
  have m: "unat (tmp mod ad) = numerator_limit d mod divisor_abs d" by (simp add: unat_mod t a)
  have 1: "unat (tmp - 1) = numerator_limit d - 1"
    using t C by (subst unat_sub) (auto simp: word_le_nat_alt)
  show "unat (tmp - 1 - tmp mod ad) = critical d"
    using C by (subst unat_sub) (auto simp: word_le_nat_alt 1 m critical_def)
qed

lemma magic_result:
  assumes "2 \<le> \<bar>sint d\<bar>"
  obtains M shift where "CalculateMagicAndShiftForDivRem d = ret (if 0 < sint d then of_nat M else - of_nat M, shift)"
    "shift \<le> 62" "0 < M" "M < 2 ^ 64"
    "M * divisor_abs d = 2 ^ (64 + shift) + (divisor_abs d - 2 ^ (64 + shift) mod divisor_abs d)"
    "exponent_ok (divisor_abs d) (critical d) (64 + shift)"
    "\<forall>k < shift. \<not> exponent_ok (divisor_abs d) (critical d) (64 + k)"
proof -
  define A C where "A = divisor_abs d" and "C = critical d"
  define ad :: "64 word" where "ad = (if 0 \<le>s d then d else - d)"
  define tmp :: "64 word" where "tmp = push_bit 63 1 + drop_bit 63 d"
  define nc where "nc = tmp - 1 - tmp mod ad"
  define ex :: "64 word" where "ex = push_bit 63 1"
  note w = magic_words [OF assms, folded ad_def tmp_def, folded nc_def ex_def A_def C_def]
  have par: "magic_params A C" using critical_params(1) [OF assms] unfolding A_def C_def .
  then have AC: "0 < A" "2 \<le> A" "0 < C" "2 ^ 62 \<le> C" unfolding magic_params_def by auto
  have "(2 :: nat) ^ 64 div C \<le> 2 ^ 64 div 2 ^ 62" using AC by (intro div_le_mono2) auto
  then have f1: "(2 :: nat) ^ (63 + 1) div C < 2 ^ 64" by simp
  have "(2 :: nat) ^ 64 div A \<le> 2 ^ 64 div 2" using AC by (intro div_le_mono2) auto
  then have f2: "(2 :: nat) ^ (63 + 1) div A + 1 < 2 ^ 64" by simp
  have inv: "unat (ex div nc) = 2 ^ 63 div C" "unat (ex mod nc) = 2 ^ 63 mod C"
    "unat (ex div ad) = 2 ^ 63 div A" "unat (ex mod ad) = 2 ^ 63 mod A"
    by (simp_all add: unat_div unat_mod w)
  obtain p q where loop: "magic_loop nc ad 63 (ex div nc) (ex mod nc) (ex div ad) (ex mod ad) = ret (q, p)"
    and p: "63 < p" "p \<le> 126" "exponent_ok A C p" "\<forall>k. 63 < k \<and> k < p \<longrightarrow> \<not> exponent_ok A C k"
    and q: "unat q = 2 ^ p div A" "unat q + 1 < 2 ^ 64"
    using magic_loop_returns [OF par w(2) w(1) inv _ f1 f2] by auto
  define M shift where "M = unat q + 1" and "shift = p - 64"
  have ps: "p = 64 + shift" using p(1) unfolding shift_def by simp
  have "q + 1 = of_nat M" "- q - 1 = - (of_nat M :: 64 word)" unfolding M_def by simp_all
  moreover have "ad \<noteq> 0" "nc \<noteq> 0" using w AC by auto
  ultimately have "CalculateMagicAndShiftForDivRem d = ret (if 0 < sint d then of_nat M else - of_nat M, shift)"
    unfolding CalculateMagicAndShiftForDivRem_def Let_def
      ex_def [symmetric] ad_def [symmetric] tmp_def [folded ex_def, symmetric] nc_def [symmetric]
    using loop unfolding shift_def by (auto simp: word_sless_alt)
  moreover have "M * A = 2 ^ p + (A - 2 ^ p mod A)"
  proof -
    have "2 ^ p = A * (2 ^ p div A) + 2 ^ p mod A" by simp
    moreover have "2 ^ p mod A < A" using AC by simp
    moreover have "M * A = A * (2 ^ p div A) + A" unfolding M_def q(1) by simp
    ultimately show ?thesis by linarith
  qed
  moreover have "\<forall>k < shift. \<not> exponent_ok A C (64 + k)" using p(4) ps by simp
  ultimately show thesis
    using that [of M shift] p q ps unfolding A_def C_def M_def by simp
qed

section \<open>The quotient estimate is exact\<close>

text \<open>The distance of the multiple of the divisor from the power of two.\<close>

definition excess :: "64 word \<Rightarrow> nat \<Rightarrow> nat" where
  "excess d p = divisor_abs d - 2 ^ p mod divisor_abs d"

lemma critical_double:
  assumes "2 \<le> \<bar>sint d\<bar>"
  shows "numerator_limit d \<le> 2 * critical d + 1"
    "int (critical d) = int (numerator_limit d) - 1 - int (numerator_limit d) mod int (divisor_abs d)"
proof -
  define A T C where "A = divisor_abs d" and "T = numerator_limit d" and "C = critical d"
  note C = critical_params(2) [OF assms, folded A_def T_def C_def]
  have A: "2 \<le> A" using divisor_abs_bounds [OF assms] unfolding A_def by simp
  have "C + 1 = A * (T div A)" using C mult_div_mod_eq [of A T] by linarith
  then have "A dvd C + 1" by simp
  then have "A \<le> C + 1" by (rule dvd_imp_le) simp
  moreover have "T mod A < A" using A by simp
  ultimately show "numerator_limit d \<le> 2 * critical d + 1" using C unfolding T_def C_def by linarith
  show "int (critical d) = int (numerator_limit d) - 1 - int (numerator_limit d) mod int (divisor_abs d)"
    using C unfolding C_def T_def A_def zmod_int [symmetric] by linarith
qed

lemma excess_pos:
  assumes "2 \<le> \<bar>sint d\<bar>"
  shows "0 < excess d p"
  using divisor_abs_bounds(1) [OF assms] unfolding excess_def by simp

lemma magic_bound:
  assumes d: "2 \<le> \<bar>sint d\<bar>" and ok: "exponent_ok (divisor_abs d) (critical d) p"
    and N: "0 \<le> N" "N < int (numerator_limit d)"
  shows "N * int (excess d p) < (int (divisor_abs d) - N mod int (divisor_abs d)) * 2 ^ p"
proof (rule reciprocal_bound [OF _ _ _ critical_double(2) [OF d] _ _ N])
  show "0 < int (divisor_abs d)" using divisor_abs_bounds [OF d] by simp
  have "critical d * excess d p < 2 ^ p" using ok unfolding exponent_ok_def excess_def .
  then have "int (critical d * excess d p) < int (2 ^ p)" by (rule of_nat_less_iff [THEN iffD2])
  then show "int (critical d) * int (excess d p) < 2 ^ p" by simp
  show "int (numerator_limit d) \<le> 2 * int (critical d) + 1" using critical_double(1) [OF d] by linarith
qed simp_all

lemma magic_bound_limit:
  assumes d: "2 \<le> sint d" and ok: "exponent_ok (divisor_abs d) (critical d) (64 + shift)"
    and least: "shift = 0 \<or> \<not> exponent_ok (divisor_abs d) (critical d) 64"
  shows "2 ^ 63 * int (excess d (64 + shift)) \<le> (int (divisor_abs d) - 2 ^ 63 mod int (divisor_abs d)) * 2 ^ (64 + shift)"
proof -
  define A C where "A = divisor_abs d" and "C = critical d"
  have d': "2 \<le> \<bar>sint d\<bar>" using d by simp
  have T: "numerator_limit d = 2 ^ 63" using d unfolding numerator_limit_def by simp
  note Ab = divisor_abs_bounds [OF d', folded A_def]
  have C: "C + 1 + 2 ^ 63 mod A = 2 ^ 63" using critical_params(2) [OF d'] unfolding T A_def C_def .
  have lt: "2 ^ 63 mod A < A" using Ab by simp
  have ok': "C * excess d (64 + shift) < 2 ^ (64 + shift)"
    using ok unfolding exponent_ok_def excess_def C_def .
  have "2 ^ 63 * excess d (64 + shift) \<le> (A - 2 ^ 63 mod A) * 2 ^ (64 + shift)"
  proof (cases "2 ^ 63 mod A = A - 1")
    case True
    have odd: "odd A"
    proof
      assume "even A"
      then have "even (A * (2 ^ 63 div A))" by simp
      then have "even (2 ^ 63 mod A)" using mult_div_mod_eq [of A "2 ^ 63"] by (metis even_add even_power even_numeral zero_less_numeral)
      then show False using True \<open>even A\<close> Ab by simp
    qed
    have "(2 :: nat) ^ 64 mod A = (2 * (2 ^ 63 mod A)) mod A" by (simp add: mod_mult_right_eq)
    also have "\<dots> = (A - 2 + A) mod A" using True Ab by (intro arg_cong [of _ _ "\<lambda>x. x mod A"]) linarith
    also have "\<dots> = A - 2" unfolding mod_add_self2 using Ab(1) by simp
    finally have e: "excess d 64 = 2" unfolding excess_def A_def [symmetric] using Ab by simp
    then have "exponent_ok A C 64" using C unfolding exponent_ok_def excess_def A_def [symmetric] by simp
    then have "shift = 0" using least unfolding A_def C_def by simp
    then show ?thesis using e True Ab by simp
  next
    case False
    then have "2 \<le> A - 2 ^ 63 mod A" using lt by linarith
    then have "2 * 2 ^ (64 + shift) \<le> (A - 2 ^ 63 mod A) * 2 ^ (64 + shift)" by (rule mult_le_mono1)
    moreover have "2 ^ 63 \<le> 2 * C" using critical_double(1) [OF d'] unfolding T C_def by simp
    then have "2 ^ 63 * excess d (64 + shift) \<le> 2 * C * excess d (64 + shift)" by (rule mult_le_mono1)
    ultimately show ?thesis using ok' by linarith
  qed
  then have "int (2 ^ 63 * excess d (64 + shift)) \<le> int ((A - 2 ^ 63 mod A) * 2 ^ (64 + shift))" by (rule of_nat_le_iff [THEN iffD2])
  then show ?thesis using lt unfolding A_def by (simp add: of_nat_diff zmod_int)
qed

text \<open>The integer that the magic number stands for.\<close>

definition magic_int :: "64 word \<Rightarrow> nat \<Rightarrow> int" where
  "magic_int d M = (if 0 < sint d then int M else - int M)"

lemma magic_quotient:
  fixes n :: "64 word"
  assumes d: "2 \<le> \<bar>sint d\<bar>" and ok: "exponent_ok (divisor_abs d) (critical d) (64 + shift)"
    and least: "shift = 0 \<or> \<not> exponent_ok (divisor_abs d) (critical d) 64"
    and M: "M * divisor_abs d = 2 ^ (64 + shift) + excess d (64 + shift)"
  defines "e \<equiv> magic_int d M * sint n div 2 ^ (64 + shift)"
  shows "e + (if e < 0 then 1 else 0) = tdiv (sint n) (sint d)"
proof -
  define a N where "a = int (divisor_abs d)" and "N = (if 0 < sint d then sint n else - sint n)"
  have e: "e = int M * N div 2 ^ (64 + shift)" unfolding e_def N_def magic_int_def by simp
  have a: "0 < a" using divisor_abs_bounds [OF d] unfolding a_def by simp
  have "int (M * divisor_abs d) = int (2 ^ (64 + shift) + excess d (64 + shift))" using M by (rule arg_cong)
  then have M': "int M * a = 2 ^ (64 + shift) + int (excess d (64 + shift))" unfolding a_def by simp
  have quo: "tdiv (sint n) (sint d) = tdiv N a"
    using d unfolding N_def a_def divisor_abs_def by (auto simp: tdiv_def)
  note r = sint_range64 [of n]
  show ?thesis
  proof (cases "0 \<le> N")
    case True
    have "N < int (numerator_limit d)" using r d unfolding N_def numerator_limit_def by auto
    then have "e = N div a"
      unfolding e using reciprocal_floor [OF a _ _ M' True magic_bound [OF d ok True, folded a_def]] by simp
    then show ?thesis using True a quo tdiv_nonneg [of N a] by (simp add: pos_imp_zdiv_neg_iff)
  next
    case False
    define m where "m = - N"
    have m: "0 < m" using False unfolding m_def by simp
    have "m * int (excess d (64 + shift)) \<le> (a - m mod a) * 2 ^ (64 + shift)"
    proof (cases "m < int (numerator_limit d)")
      case True
      then show ?thesis using magic_bound [OF d ok _ True, folded a_def] m by simp
    next
      case False
      then have "sint d > 0" "m = 2 ^ 63" using r d unfolding m_def N_def numerator_limit_def by (auto split: if_splits)
      then show ?thesis using magic_bound_limit [OF _ ok least, folded a_def] d by simp
    qed
    then have "e = - (m div a) - 1"
      unfolding e using reciprocal_ceiling [OF a _ _ M' m] excess_pos [OF d] m_def by simp
    moreover have "tdiv N a = - (m div a)" using m a tdiv_minus(1) [of m a] tdiv_nonneg [of m a] unfolding m_def by simp
    moreover have "0 \<le> m div a" using m a by (simp add: pos_imp_zdiv_nonneg_iff)
    ultimately show ?thesis using quo by simp
  qed
qed

text \<open>C33.  The magic number of a division.  For every divisor that is at least two in absolute value the
  search terminates, no intermediate number overflows, and the multiplier and shift it returns give the
  quotient: the high part of the product with any 64-bit numerator, shifted, is the exact quotient
  rounded downwards, so that adding one to a negative estimate gives the quotient rounded towards zero.
  The exponent is the least one above 63 that the algorithm allows.\<close>

theorem magic_number_correct:
  assumes "2 \<le> \<bar>sint d\<bar>"
  shows "\<exists>M shift. CalculateMagicAndShiftForDivRem d = ret (word_of_int (magic_int d M), shift) \<and> 0 < M \<and> M < 2 ^ 64 \<and> shift \<le> 62 \<and>
    (\<forall>n :: 64 word. let e = magic_int d M * sint n div 2 ^ (64 + shift)
       in e + (if e < 0 then 1 else 0) = tdiv (sint n) (sint d)) \<and>
    shift = (LEAST k. exponent_ok (divisor_abs d) (critical d) (64 + k))"
proof -
  obtain M shift where calc: "CalculateMagicAndShiftForDivRem d = ret (if 0 < sint d then of_nat M else - of_nat M, shift)"
    and M: "shift \<le> 62" "0 < M" "M < 2 ^ 64" "M * divisor_abs d = 2 ^ (64 + shift) + excess d (64 + shift)"
    "exponent_ok (divisor_abs d) (critical d) (64 + shift)"
    "\<forall>k < shift. \<not> exponent_ok (divisor_abs d) (critical d) (64 + k)"
    using magic_result [OF assms] unfolding excess_def by metis
  have "(if 0 < sint d then of_nat M else - of_nat M) = (word_of_int (magic_int d M) :: 64 word)"
    unfolding magic_int_def by simp
  moreover have "shift = 0 \<or> \<not> exponent_ok (divisor_abs d) (critical d) 64" using M(6) by (cases "shift = 0") auto
  then have "\<forall>n :: 64 word. let e = magic_int d M * sint n div 2 ^ (64 + shift)
      in e + (if e < 0 then 1 else 0) = tdiv (sint n) (sint d)"
    unfolding Let_def using magic_quotient [OF assms M(5) _ M(4)] by blast
  moreover have "shift = (LEAST k. exponent_ok (divisor_abs d) (critical d) (64 + k))"
    using M(5,6) by (intro Least_equality [symmetric]) (auto simp: not_less [symmetric])
  ultimately show ?thesis using calc M by (intro exI [of _ M] exI [of _ shift]) simp
qed

theorem magic_number_correct_witness:
  "\<exists>M shift. CalculateMagicAndShiftForDivRem 7 = ret (word_of_int (magic_int 7 M), shift) \<and>
    (\<forall>n :: 64 word. let e = magic_int 7 M * sint n div 2 ^ (64 + shift)
       in e + (if e < 0 then 1 else 0) = tdiv (sint n) 7)"
proof -
  have "sint (7 :: 64 word) = 7" by simp
  then show ?thesis using magic_number_correct [of 7] by (simp only:) fastforce
qed

end
