(* ===== verification/Arm64_Division.thy ===== *)
theory Arm64_Division
  imports Arm64_Constants Magic_Division
begin

unbundle bit_operations_syntax

text \<open>
  The ARM64 code for 64-bit divisions by a constant, from \<open>EmitInt64ModTruncDiv\<close> of
  \<open>runtime/vm/compiler/backend/il_arm64.cc\<close>.  The instructions that it emits through the assembler, with the
  multiplier of \<open>CalculateMagicAndShiftForDivRem\<close>, are run in the simulator and leave the quotient or the
  remainder that the Dart operators \<open>~/\<close> and \<open>%\<close> define.  The code for other divisors is the parameter
  \<open>general\<close>.
\<close>

section \<open>The emitted division\<close>

text \<open>The code for a division or a remainder by a constant that is at least two in absolute value.  The
  register \<open>TMP2\<close> holds the estimate of the quotient.\<close>

definition emit_magic_estimate ::
  "bool \<Rightarrow> (64 word \<Rightarrow> nat) \<Rightarrow> 64 word \<Rightarrow> 64 word \<Rightarrow> nat \<Rightarrow> nat \<Rightarrow> 32 word list" where
  "emit_magic_estimate constant_pool_allowed find_immediate divisor magic shift left =
     LoadImmediate constant_pool_allowed find_immediate TMP2 magic @
     [smulh TMP2 TMP2 left kEightBytes] @
     (if 0 <s divisor \<and> magic <s 0 then [add TMP2 TMP2 (Operand_reg left) kEightBytes]
      else if divisor <s 0 \<and> 0 <s magic then [sub TMP2 TMP2 (Operand_reg left) kEightBytes]
      else []) @
     (if shift \<noteq> 0 then [add TMP2 ZR (Operand_shift TMP2 ASR shift) kEightBytes] else [])"

datatype div_kind = kMOD | kTRUNCDIV

definition EmitInt64ModTruncDiv ::
  "bool \<Rightarrow> (64 word \<Rightarrow> nat) \<Rightarrow> 32 word list exec \<Rightarrow> nat \<Rightarrow> div_kind \<Rightarrow> nat \<Rightarrow> 64 word option \<Rightarrow> nat \<Rightarrow>
   32 word list exec" where
  "EmitInt64ModTruncDiv constant_pool_allowed find_immediate general optimization_level op_kind left right_constant out =
     (if optimization_level \<le> 2 then general
      else case right_constant of
        None \<Rightarrow> general
      | Some divisor \<Rightarrow>
          if divisor \<le>s -2 \<or> 2 \<le>s divisor then
            ebind (CalculateMagicAndShiftForDivRem divisor) (\<lambda>(magic, shift).
              ret (emit_magic_estimate constant_pool_allowed find_immediate divisor magic shift left @
                (case op_kind of
                   kTRUNCDIV \<Rightarrow> [sub out TMP2 (Operand_shift TMP2 ASR 63) kEightBytes]
                 | kMOD \<Rightarrow>
                     [sub TMP2 TMP2 (Operand_shift TMP2 ASR 63) kEightBytes] @
                     LoadImmediate constant_pool_allowed find_immediate TMP divisor @
                     [msub out TMP2 TMP left kEightBytes,
                      CompareRegisters out ZR,
                      (if 0 <s divisor then add TMP2 out (Operand_reg TMP) kEightBytes
                       else sub TMP2 out (Operand_reg TMP) kEightBytes),
                      csel out TMP2 out LT])))
          else general)"

lemma sint_word_of_int:
  assumes "- (2 ^ 63) \<le> x" "x < 2 ^ 63"
  shows "sint (word_of_int x :: 64 word) = x"
  using assms by (simp add: sint_of_int [where 'a = 64])

lemma sint_wrap:
  assumes "- (2 ^ 63) \<le> x + c * 2 ^ 64" "x + c * 2 ^ 64 < 2 ^ 63"
  shows "sint (word_of_int x :: 64 word) = x + c * 2 ^ 64"
proof -
  have "(word_of_int x :: 64 word) = word_of_int (x + c * 2 ^ 64)"
    unfolding word_of_int_eq_iff take_bit_eq_mod by simp
  then show ?thesis using sint_word_of_int [OF assms] by simp
qed

lemma sint_asr: "signed_drop_bit k w = word_of_int (sint (w :: 64 word) div 2 ^ k)"
proof -
  have "sint (signed_drop_bit k w) = sint w div 2 ^ k" by (simp add: sint_signed_drop_bit_eq drop_bit_eq_div)
  moreover have "word_of_int (sint (signed_drop_bit k w)) = signed_drop_bit k w" by simp
  ultimately show ?thesis by simp
qed

lemma magic_product_bounds:
  assumes "M < 2 ^ 64"
  shows "- (2 ^ 63) \<le> magic_int d M * sint n div 2 ^ 64" "magic_int d M * sint (n :: 64 word) div 2 ^ 64 < 2 ^ 63"
proof -
  have m: "\<bar>magic_int d M\<bar> \<le> 2 ^ 64 - 1" using assms unfolding magic_int_def by auto
  have n: "\<bar>sint n\<bar> \<le> 2 ^ 63" using sint_range64 [of n] by auto
  have "\<bar>magic_int d M * sint n\<bar> \<le> (2 ^ 64 - 1) * 2 ^ 63"
    unfolding abs_mult using m n by (intro mult_mono) auto
  then have "- (2 ^ 63) * 2 ^ 64 \<le> magic_int d M * sint n" "magic_int d M * sint n < 2 ^ 63 * 2 ^ 64" by auto
  moreover have "0 < (2 :: int) ^ 64" by simp
  ultimately show "- (2 ^ 63) \<le> magic_int d M * sint n div 2 ^ 64" "magic_int d M * sint n div 2 ^ 64 < 2 ^ 63"
    by (simp_all only: zle_div_iff zdiv_lt_iff)
qed

lemma magic_correction:
  assumes "0 < M" "M < 2 ^ 64" "2 \<le> \<bar>sint d\<bar>"
  defines "magic \<equiv> (if 0 < sint d then of_nat M else - of_nat M :: 64 word)"
  shows "magic_int d M = sint magic +
    (if 0 <s d \<and> magic <s 0 then 2 ^ 64 else if d <s 0 \<and> 0 <s magic then - (2 ^ 64) else 0)"
proof -
  have m: "magic = word_of_int (magic_int d M)" unfolding magic_def magic_int_def by simp
  have M: "0 < int M" "int M < 2 ^ 64" using assms(1,2) by auto
  show ?thesis
  proof (cases "0 < sint d")
    case True
    then have "sint magic = (if int M < 2 ^ 63 then int M else int M - 2 ^ 64)"
      unfolding m magic_int_def using M sint_wrap [of "int M" 0] sint_wrap [of "int M" "- 1"] by simp
    then show ?thesis using True M unfolding word_sless_alt magic_int_def by simp
  next
    case False
    then have "sint magic = (if int M \<le> 2 ^ 63 then - int M else 2 ^ 64 - int M)"
      unfolding m magic_int_def using M sint_wrap [of "- int M" 0] sint_wrap [of "- int M" 1] by simp
    then show ?thesis using False M assms(3) unfolding word_sless_alt magic_int_def by simp
  qed
qed

lemma estimate_word:
  fixes d n :: "64 word" and M shift :: nat
  assumes "0 < M" "M < 2 ^ 64" "2 \<le> \<bar>sint d\<bar>"
  defines "magic \<equiv> (if 0 < sint d then of_nat M else - of_nat M :: 64 word)"
    and "E \<equiv> magic_int d M * sint n div 2 ^ 64"
  shows "(if 0 <s d \<and> magic <s 0 then word_of_int (sint magic * sint n div 2 ^ 64) + n
          else if d <s 0 \<and> 0 <s magic then word_of_int (sint magic * sint n div 2 ^ 64) - n
          else word_of_int (sint magic * sint n div 2 ^ 64)) = word_of_int E"
    and "signed_drop_bit shift (word_of_int E :: 64 word) = word_of_int (magic_int d M * sint n div 2 ^ (64 + shift))"
    and "sint (word_of_int (magic_int d M * sint n div 2 ^ (64 + shift)) :: 64 word) = magic_int d M * sint n div 2 ^ (64 + shift)"
proof -
  have n: "n = word_of_int (sint n)" by simp
  note c = magic_correction [OF assms(1-3), folded magic_def]
  have "(sint magic + c * 2 ^ 64) * sint n div 2 ^ 64 = sint magic * sint n div 2 ^ 64 + c * sint n" for c :: int
  proof -
    have "(sint magic + c * 2 ^ 64) * sint n = sint magic * sint n + (c * sint n) * 2 ^ 64" by (simp add: algebra_simps)
    then show ?thesis by simp
  qed
  from this [of 1] this [of "- 1"]
  have up: "(sint magic + 2 ^ 64) * sint n div 2 ^ 64 = sint magic * sint n div 2 ^ 64 + sint n"
    and down: "(sint magic + - (2 ^ 64)) * sint n div 2 ^ 64 = sint magic * sint n div 2 ^ 64 - sint n" by simp_all
  show "(if 0 <s d \<and> magic <s 0 then word_of_int (sint magic * sint n div 2 ^ 64) + n
          else if d <s 0 \<and> 0 <s magic then word_of_int (sint magic * sint n div 2 ^ 64) - n
          else word_of_int (sint magic * sint n div 2 ^ 64)) = word_of_int E"
    unfolding E_def c using up down n by (auto simp del: power_numeral)
  note b = magic_product_bounds [OF assms(2), of d n, folded E_def]
  have sE: "sint (word_of_int E :: 64 word) = E" by (rule sint_word_of_int [OF b])
  have e: "magic_int d M * sint n div 2 ^ (64 + shift) = E div 2 ^ shift"
    unfolding E_def power_add by (rule zdiv_zmult2_eq) simp
  show "signed_drop_bit shift (word_of_int E :: 64 word) = word_of_int (magic_int d M * sint n div 2 ^ (64 + shift))"
    unfolding sint_asr sE e ..
  have "- (2 ^ 63) \<le> E div 2 ^ shift" "E div 2 ^ shift < 2 ^ 63"
  proof -
    have p: "(1 :: int) \<le> 2 ^ shift" by simp
    have "- (2 ^ 63) * 2 ^ shift \<le> - (2 ^ 63) * (1 :: int)" using p by (intro mult_left_mono_neg) simp_all
    moreover have "2 ^ 63 * (1 :: int) \<le> 2 ^ 63 * 2 ^ shift" using p by (intro mult_left_mono) simp_all
    ultimately have "- (2 ^ 63) * 2 ^ shift \<le> E" "E < 2 ^ 63 * 2 ^ shift" using b by linarith+
    moreover have "0 < (2 :: int) ^ shift" by simp
    ultimately show "- (2 ^ 63) \<le> E div 2 ^ shift" "E div 2 ^ shift < 2 ^ 63" by (simp_all only: zle_div_iff zdiv_lt_iff)
  qed
  then show "sint (word_of_int (magic_int d M * sint n div 2 ^ (64 + shift)) :: 64 word) = magic_int d M * sint n div 2 ^ (64 + shift)"
    unfolding e by (rule sint_word_of_int)
qed

text \<open>The last step: subtracting the sign turns the rounding downwards into one towards zero.\<close>

lemma round_to_zero:
  assumes "sint (v :: 64 word) = e"
  shows "v - signed_drop_bit 63 v = word_of_int (e + (if e < 0 then 1 else 0))"
proof -
  have "e div 2 ^ 63 = (if e < 0 then - 1 else 0)"
    using sint_range64 [of v] assms by (auto intro: div_pos_pos_trivial div_pos_neg_trivial)
  then have "signed_drop_bit 63 v = word_of_int (if e < 0 then - 1 else 0)" unfolding sint_asr assms by (simp only:)
  moreover have "v = word_of_int e" using assms by auto
  ultimately show ?thesis by simp
qed

lemma TMP_facts: "TMP < 31" "TMP2 < 31" "TMP \<noteq> TMP2" "TMP \<noteq> LR" "TMP2 \<noteq> LR" "reg_ok TMP" "reg_ok TMP2" "reg_ok ZR"
    "TMP \<noteq> ZR" "TMP2 \<noteq> ZR" "TMP \<noteq> PP" "TMP2 \<noteq> PP"
  by (simp_all add: TMP_def TMP2_def LR_def reg_ok_def ZR_def PP_def)

lemma emit_magic_estimate_runs:
  assumes "0 < M" "M < 2 ^ 64" "2 \<le> \<bar>sint d\<bar>" "shift \<le> 62" "left < 31" "left \<noteq> TMP2"
  shows "runs (pool_ready c find_immediate TMP2 (if 0 < sint d then of_nat M else - of_nat M))
    (emit_magic_estimate c find_immediate d (if 0 < sint d then of_nat M else - of_nat M) shift left)
    (\<lambda>s. write_x TMP2 (word_of_int (magic_int d M * sint (xreg s left) div 2 ^ (64 + shift))) s)"
proof -
  define magic :: "64 word" where "magic = (if 0 < sint d then of_nat M else - of_nat M)"
  define high :: "sim \<Rightarrow> 64 word" where "high s = word_of_int (sint magic * sint (xreg s left) div 2 ^ 64)" for s
  define adj where "adj = (if 0 <s d \<and> magic <s 0 then [add TMP2 TMP2 (Operand_reg left) kEightBytes]
      else if d <s 0 \<and> 0 <s magic then [sub TMP2 TMP2 (Operand_reg left) kEightBytes] else [])"
  define E :: "sim \<Rightarrow> int" where "E s = magic_int d M * sint (xreg s left) div 2 ^ 64" for s
  note T = TMP_facts
  have l: "reg_ok left" using assms(5) by (rule reg_ok_gp)
  have w: "xreg (write_x TMP2 v s) left = xreg s left" for v s using assms(6) by (simp add: xreg_write T)
  have e: "smulh TMP2 TMP2 left kEightBytes = encode (IMulHigh True TMP2 TMP2 left)" by simp
  have 1: "runs (pool_ready c find_immediate TMP2 magic) (LoadImmediate c find_immediate TMP2 magic @ [smulh TMP2 TMP2 left kEightBytes])
      (\<lambda>s. write_x TMP2 (high s) s)"
    using runs_then [OF LoadImmediate_runs [OF T(2,12)] computes_single [of "IMulHigh True TMP2 TMP2 left"]] l T
    unfolding e by (auto simp: w xreg_write high_def)
  have 2: "computes adj (\<lambda>s. if 0 <s d \<and> magic <s 0 then addsub False False TMP2 (xreg s TMP2) (xreg s left) s
      else if d <s 0 \<and> 0 <s magic then addsub False True TMP2 (xreg s TMP2) (xreg s left) s else s)"
    unfolding adj_def add_def sub_def using computes_addsub_reg [OF T(7,7) l] computes_Nil by auto
  have 12: "runs (pool_ready c find_immediate TMP2 magic)
      ((LoadImmediate c find_immediate TMP2 magic @ [smulh TMP2 TMP2 left kEightBytes]) @ adj)
      (\<lambda>s. write_x TMP2 (word_of_int (E s)) s)"
    by (rule runs_eq [OF runs_then [OF 1 2]])
      (use estimate_word(1) [OF assms(1-3), folded magic_def] in
        \<open>auto simp: w xreg_write T addsub_def high_def E_def split: if_splits\<close>)
  have "computes (if shift \<noteq> 0 then [add TMP2 ZR (Operand_shift TMP2 ASR shift) kEightBytes] else [])
      (\<lambda>s. write_x TMP2 (signed_drop_bit shift (xreg s TMP2)) s)"
  proof (cases "shift = 0")
    case True
    have "write_x TMP2 (xreg s TMP2) s = s" for s by (simp add: write_x_def xreg_def)
    then show ?thesis using True computes_Nil by simp
  next
    case False
    then show ?thesis
      using computes_single [of "IAddSub False False TMP2 ZR TMP2 ASR shift"] assms(4) T
      by (auto simp: add_def addsub_def xreg_def [of _ ZR] intro: computes_eq)
  qed
  from runs_then [OF 12 this]
  have "runs (pool_ready c find_immediate TMP2 magic) (emit_magic_estimate c find_immediate d magic shift left)
      (\<lambda>s. write_x TMP2 (signed_drop_bit shift (word_of_int (E s))) s)"
    unfolding emit_magic_estimate_def adj_def [symmetric] by (simp add: xreg_write T)
  then show ?thesis
    unfolding magic_def [symmetric] E_def by (simp only: estimate_word(2) [OF assms(1-3)])
qed

lemma tdiv_bounds:
  assumes "2 \<le> \<bar>b\<bar>" "\<bar>a\<bar> \<le> 2 ^ 63"
  shows "- (2 ^ 63) \<le> tdiv a b" "tdiv a b < 2 ^ 63"
proof -
  have "\<bar>a\<bar> div \<bar>b\<bar> \<le> 2 ^ 63 div 2" 
    using assms zdiv_mono1 [of "\<bar>a\<bar>" "2 ^ 63" "\<bar>b\<bar>"] zdiv_mono2 [of "2 ^ 63" 2 "\<bar>b\<bar>"] by linarith
  moreover have "0 \<le> \<bar>a\<bar> div \<bar>b\<bar>" using assms by (simp add: pos_imp_zdiv_nonneg_iff)
  ultimately show "- (2 ^ 63) \<le> tdiv a b" "tdiv a b < 2 ^ 63"
    unfolding tdiv_def by (auto simp: sgn_if)
qed

lemma tdiv_remainder:
  fixes a b :: int
  assumes "b \<noteq> 0"
  defines "r \<equiv> a - tdiv a b * b"
  shows "\<bar>r\<bar> < \<bar>b\<bar>" "a mod \<bar>b\<bar> = (if r < 0 then r + \<bar>b\<bar> else r)"
proof -
  have r: "r = sgn a * (\<bar>a\<bar> mod \<bar>b\<bar>)"
  proof -
    have "tdiv a b * b = sgn a * (\<bar>a\<bar> div \<bar>b\<bar> * \<bar>b\<bar>)" unfolding tdiv_def by (simp add: abs_sgn ac_simps)
    moreover have "\<bar>a\<bar> div \<bar>b\<bar> * \<bar>b\<bar> = \<bar>a\<bar> - \<bar>a\<bar> mod \<bar>b\<bar>" by (simp add: minus_mod_eq_div_mult)
    moreover have "sgn a * \<bar>a\<bar> = a" by (simp add: sgn_mult_abs)
    ultimately show ?thesis unfolding r_def by (simp add: right_diff_distrib)
  qed
  have m: "0 \<le> \<bar>a\<bar> mod \<bar>b\<bar>" "\<bar>a\<bar> mod \<bar>b\<bar> < \<bar>b\<bar>" using assms(1) by simp_all
  then show b: "\<bar>r\<bar> < \<bar>b\<bar>" unfolding r by (auto simp: sgn_if)
  have "a = \<bar>b\<bar> * (sgn b * tdiv a b) + r" unfolding r_def by (simp add: abs_sgn ac_simps)
  then have "a = \<bar>b\<bar> * (if r < 0 then sgn b * tdiv a b - 1 else sgn b * tdiv a b) + (if r < 0 then r + \<bar>b\<bar> else r)"
    by (simp add: right_diff_distrib)
  then show "a mod \<bar>b\<bar> = (if r < 0 then r + \<bar>b\<bar> else r)" using b by (intro int_mod_pos_eq) auto
qed

lemma truncdiv_runs:
  assumes "reg_ok out" "runs P est (\<lambda>s. write_x TMP2 (v s) s)"
    and "\<And>s. v s - signed_drop_bit 63 (v s) = q s"
  shows "runs P (est @ [sub out TMP2 (Operand_shift TMP2 ASR 63) kEightBytes]) (\<lambda>s. write_x out (q s) (write_x TMP2 (v s) s))"
proof -
  have "computes [sub out TMP2 (Operand_shift TMP2 ASR 63) kEightBytes]
      (\<lambda>s. write_x out (xreg s TMP2 - signed_drop_bit 63 (xreg s TMP2)) s)"
    using computes_single [of "IAddSub False True out TMP2 TMP2 ASR 63"] assms(1) TMP_facts
    by (auto simp: sub_def addsub_def intro: computes_eq)
  from runs_then [OF assms(2) this] show ?thesis by (simp add: xreg_write TMP_facts assms(3))
qed

lemma mod_runs:
  fixes d :: "64 word"
  assumes "out < 31" "out \<noteq> TMP" "out \<noteq> TMP2" "left < 31" "left \<noteq> TMP" "left \<noteq> TMP2"
    and est: "runs P est (\<lambda>s. write_x TMP2 (q s) s)" and pool: "\<And>s. P s \<Longrightarrow> pool_ready c find_immediate TMP d s"
  defines "r \<equiv> \<lambda>s. xreg s left - q s * d"
  shows "\<exists>f. runs P (est @ LoadImmediate c find_immediate TMP d @
      [msub out TMP2 TMP left kEightBytes, CompareRegisters out ZR,
       (if 0 <s d then add TMP2 out (Operand_reg TMP) kEightBytes else sub TMP2 out (Operand_reg TMP) kEightBytes),
       csel out TMP2 out LT]) f \<and>
    (\<forall>s. xreg (f s) out = (if r s <s 0 then (if 0 <s d then r s + d else r s - d) else r s) \<and>
      (\<forall>p. p \<notin> {out, TMP, TMP2} \<longrightarrow> xreg (f s) p = xreg s p))"
proof -
  note T = TMP_facts
  have o: "reg_ok out" "reg_ok left" "out \<noteq> ZR" "out \<noteq> CSP"
    using assms(1,4) by (simp_all add: reg_ok_def ZR_def CSP_def)
  define Is where "Is = [IMulAdd True out TMP2 TMP left, IAddSub True True ZR out ZR LSL 0,
    IAddSub False (\<not> 0 <s d) TMP2 out TMP LSL 0, ISelect False out TMP2 out LT]"
  have "[msub out TMP2 TMP left kEightBytes, CompareRegisters out ZR,
       (if 0 <s d then add TMP2 out (Operand_reg TMP) kEightBytes else sub TMP2 out (Operand_reg TMP) kEightBytes),
       csel out TMP2 out LT] = map encode Is"
    unfolding Is_def using o by (simp add: CompareRegisters_def cmp_def subs_def add_def sub_def Operand_reg_shift)
  moreover have "list_all valid Is" unfolding Is_def using o T by simp
  ultimately have tail: "computes [msub out TMP2 TMP left kEightBytes, CompareRegisters out ZR,
       (if 0 <s d then add TMP2 out (Operand_reg TMP) kEightBytes else sub TMP2 out (Operand_reg TMP) kEightBytes),
       csel out TMP2 out LT] (fold sem Is)"
    unfolding computes_def by (intro exI [of _ Is]) simp
  have all: "runs P (est @ LoadImmediate c find_immediate TMP d @
      [msub out TMP2 TMP left kEightBytes, CompareRegisters out ZR,
       (if 0 <s d then add TMP2 out (Operand_reg TMP) kEightBytes else sub TMP2 out (Operand_reg TMP) kEightBytes),
       csel out TMP2 out LT]) (\<lambda>s. fold sem Is (write_x TMP d (write_x TMP2 (q s) s)))"
    by (rule runs_append [OF est runs_then [OF LoadImmediate_runs [OF T(1,11)] tail]])
      (intro pool_ready_write T(12) pool)
  have order: "(sint x < 0) \<noteq> (sint x < - (2 ^ 63) \<or> 2 ^ 63 \<le> sint x) \<longleftrightarrow> x <s 0" for x :: "64 word"
    using signed_order_from_diff [of x 0] by (simp add: word_sless_alt)
  have flags: "xreg (sub_flags l z s) p = xreg s p" for l z s p by (simp add: sub_flags_def xreg_def)
  have lt: "cond_holds LT (write_x p v (sub_flags x 0 s)) \<longleftrightarrow> x <s 0" for p v x s
    using order [of x] by (simp add: write_x_def sub_flags_def)
  have zr: "xreg s ZR = 0" "write_x ZR v s = s" for s v by (simp_all add: xreg_def write_x_def)
  have "xreg (fold sem Is (write_x TMP d (write_x TMP2 (q s) s))) p =
      (if p = out then (if r s <s 0 then (if 0 <s d then r s + d else r s - d) else r s)
       else if p = TMP2 then (if 0 <s d then r s + d else r s - d) else if p = TMP then d else xreg s p)" for s p
    unfolding Is_def using assms(2,3,5,6) T o
    by (simp add: addsub_def xreg_write flags zr lt r_def Let_def del: cond_holds.simps)
  then show ?thesis
    by (intro exI [of _ "\<lambda>s. fold sem Is (write_x TMP d (write_x TMP2 (q s) s))"] conjI all) simp
qed

text \<open>The value that Dart defines for the two operations; the remainder is never negative.\<close>

fun dart_division :: "div_kind \<Rightarrow> int \<Rightarrow> int \<Rightarrow> int" where
  "dart_division kTRUNCDIV a b = tdiv a b"
| "dart_division kMOD a b = a mod \<bar>b\<bar>"

lemma remainder_word:
  fixes n d :: "64 word"
  assumes "2 \<le> \<bar>sint d\<bar>"
  defines "r \<equiv> n - word_of_int (tdiv (sint n) (sint d)) * d"
  shows "sint (if r <s 0 then (if 0 <s d then r + d else r - d) else r) = sint n mod \<bar>sint d\<bar>"
proof -
  define R where "R = sint n - tdiv (sint n) (sint d) * sint d"
  have w: "n = word_of_int (sint n)" "d = word_of_int (sint d)" by simp_all
  have "r = word_of_int (sint n) - word_of_int (tdiv (sint n) (sint d)) * word_of_int (sint d)"
    unfolding r_def using w by simp
  then have r: "r = word_of_int R" unfolding R_def by simp
  have "sint d \<noteq> 0" using assms by auto
  note R = tdiv_remainder [OF this, of "sint n", folded R_def]
  note D = sint_range64 [of d]
  have b: "- (2 ^ 63) \<le> R" "R < 2 ^ 63" using R(1) D by auto
  have s: "sint r = R" unfolding r by (rule sint_word_of_int [OF b])
  show ?thesis
  proof (cases "R < 0")
    case True
    then have "0 \<le> R + \<bar>sint d\<bar>" "R + \<bar>sint d\<bar> < 2 ^ 63" using R(1) D by auto
    then have "sint (word_of_int (R + \<bar>sint d\<bar>) :: 64 word) = R + \<bar>sint d\<bar>" by (intro sint_word_of_int) auto
    moreover have "(if 0 <s d then r + d else r - d) = word_of_int (R + \<bar>sint d\<bar>)"
      unfolding r using w(2) by (cases "0 < sint d") (simp_all add: word_sless_alt)
    ultimately show ?thesis using True s R(2) by (simp add: word_sless_alt)
  next
    case False
    then show ?thesis using s R(2) by (simp add: word_sless_alt)
  qed
qed

text \<open>The constants that the emitted code takes from the object pool are in it: the multiplier and, for a
  remainder, the divisor.\<close>

definition division_pool_ready :: "bool \<Rightarrow> (64 word \<Rightarrow> nat) \<Rightarrow> div_kind \<Rightarrow> 64 word \<Rightarrow> sim \<Rightarrow> bool" where
  "division_pool_ready constant_pool_allowed find_immediate op_kind d s \<longleftrightarrow>
     returns (CalculateMagicAndShiftForDivRem d)
       (\<lambda>(magic, shift). pool_ready constant_pool_allowed find_immediate TMP2 magic s) \<and>
     (op_kind = kMOD \<longrightarrow> pool_ready constant_pool_allowed find_immediate TMP d s)"

lemma EmitInt64ModTruncDiv_runs:
  assumes d: "2 \<le> \<bar>sint d\<bar>" and level: "2 < level"
    and out: "out < 31" "out \<noteq> TMP" "out \<noteq> TMP2" and left: "left < 31" "left \<noteq> TMP" "left \<noteq> TMP2"
  shows "\<exists>ws f. EmitInt64ModTruncDiv c find_immediate general level op_kind left (Some d) out = ret ws \<and>
    runs (division_pool_ready c find_immediate op_kind d) ws f \<and>
    (\<forall>s. sint (xreg (f s) out) = dart_division op_kind (sint (xreg s left)) (sint d) \<and>
      (\<forall>p. p \<notin> {out, TMP, TMP2} \<longrightarrow> xreg (f s) p = xreg s p))"
proof -
  obtain M shift where calc: "CalculateMagicAndShiftForDivRem d = ret (if 0 < sint d then of_nat M else - of_nat M, shift)"
    and M: "shift \<le> 62" "0 < M" "M < 2 ^ 64"
    "M * divisor_abs d = 2 ^ (64 + shift) + excess d (64 + shift)"
    "exponent_ok (divisor_abs d) (critical d) (64 + shift)" "shift = 0 \<or> \<not> exponent_ok (divisor_abs d) (critical d) 64"
    using magic_result [OF d] unfolding excess_def by (metis add_0_right neq0_conv)
  define v :: "sim \<Rightarrow> 64 word" where
    "v s = word_of_int (magic_int d M * sint (xreg s left) div 2 ^ (64 + shift))" for s
  define est where "est = emit_magic_estimate c find_immediate d (if 0 < sint d then of_nat M else - of_nat M) shift left"
  define q :: "sim \<Rightarrow> 64 word" where "q s = word_of_int (tdiv (sint (xreg s left)) (sint d))" for s
  have est: "runs (division_pool_ready c find_immediate op_kind d) est (\<lambda>s. write_x TMP2 (v s) s)"
    unfolding est_def v_def by (rule runs_weaken [OF emit_magic_estimate_runs [OF M(2,3) d M(1) left(1,3)]])
      (simp add: division_pool_ready_def calc)
  have q: "v s - signed_drop_bit 63 (v s) = q s" for s
    unfolding q_def v_def round_to_zero [OF estimate_word(3) [OF M(2,3) d]] magic_quotient [OF d M(5,6,4)] ..
  have guard: "d \<le>s - 2 \<or> 2 \<le>s d" using d by (auto simp: word_sle_eq)
  have ok: "reg_ok out" "out \<noteq> ZR" using out(1) by (simp_all add: reg_ok_def ZR_def)
  show ?thesis
  proof (cases op_kind)
    case kTRUNCDIV
    have "\<bar>sint (xreg s left)\<bar> \<le> 2 ^ 63" for s using sint_range64 [of "xreg s left"] by auto
    then have sq: "sint (q s) = tdiv (sint (xreg s left)) (sint d)" for s
      unfolding q_def by (intro sint_word_of_int tdiv_bounds [OF d])
    show ?thesis
      using truncdiv_runs [OF ok(1) est q] level guard calc sq ok TMP_facts
      by (intro exI conjI) (auto simp: EmitInt64ModTruncDiv_def est_def kTRUNCDIV xreg_write)
  next
    case kMOD
    have est2: "runs (division_pool_ready c find_immediate op_kind d)
        (est @ [sub TMP2 TMP2 (Operand_shift TMP2 ASR 63) kEightBytes]) (\<lambda>s. write_x TMP2 (q s) s)"
      using truncdiv_runs [OF TMP_facts(7) est q] by simp
    have "pool_ready c find_immediate TMP d s" if "division_pool_ready c find_immediate op_kind d s" for s
      using that kMOD by (simp add: division_pool_ready_def)
    note m = mod_runs [OF out left est2 this]
    have rem: "sint (if xreg s left - q s * d <s 0 then if 0 <s d then xreg s left - q s * d + d else xreg s left - q s * d - d
        else xreg s left - q s * d) = sint (xreg s left) mod \<bar>sint d\<bar>" for s
      unfolding q_def by (rule remainder_word [OF d])
    show ?thesis
      using m level guard calc rem by (auto simp: EmitInt64ModTruncDiv_def est_def kMOD)
  qed
qed

text \<open>C34.  Division by a constant compiles correctly.  At optimization level 3, the only level at which the
  compiler specialises divisions, and for every constant divisor that is at least two in absolute value,
  the code that it emits for a division or a remainder, run in the simulator on any 64-bit operand,
  returns and leaves in the output register the quotient rounded towards zero, respectively the
  non-negative remainder, and it changes no other register but the two scratch registers.  This holds
  with the object pool, which the graph compiler always allows, as long as the constants that the code
  loads from the pool are in it, and without.\<close>

theorem constant_division_correct:
  assumes "2 \<le> \<bar>sint d\<bar>" and "2 < level"
    and "out < 31" "out \<noteq> TMP" "out \<noteq> TMP2" "out \<noteq> LR" and "left < 31" "left \<noteq> TMP" "left \<noteq> TMP2"
  shows "\<exists>ws. EmitInt64ModTruncDiv constant_pool_allowed find_immediate general level op_kind left (Some d) out = ret ws \<and>
    (\<forall>s other fetch. registers s LR = kEndSimulatingPC \<longrightarrow> code_at fetch (pc s) (ws @ [ret_instr LR]) \<longrightarrow>
      division_pool_ready constant_pool_allowed find_immediate op_kind d s \<longrightarrow>
      (\<exists>s'. Execute other fetch s = ret s' \<and>
        sint (registers s' out) = dart_division op_kind (sint (registers s left)) (sint d) \<and>
        {p. p < 32 \<and> registers s' p \<noteq> registers s p} \<subseteq> {out, TMP, TMP2}))"
proof -
  have x: "xreg t p = registers t p" if "p < 32" for t p using that by (simp add: xreg_def ZR_def)
  obtain ws f where e: "EmitInt64ModTruncDiv constant_pool_allowed find_immediate general level op_kind left (Some d) out = ret ws"
    and f: "runs (division_pool_ready constant_pool_allowed find_immediate op_kind d) ws f"
    "\<And>s. sint (xreg (f s) out) = dart_division op_kind (sint (xreg s left)) (sint d)"
    "\<And>s p. p \<notin> {out, TMP, TMP2} \<Longrightarrow> xreg (f s) p = xreg s p"
    using EmitInt64ModTruncDiv_runs [OF assms(1,2,3-5,7-9), of constant_pool_allowed find_immediate general op_kind] by blast
  have "\<exists>s'. Execute other fetch s = ret s' \<and>
        sint (registers s' out) = dart_division op_kind (sint (registers s left)) (sint d) \<and>
        {p. p < 32 \<and> registers s' p \<noteq> registers s p} \<subseteq> {out, TMP, TMP2}"
    if lr: "registers s LR = kEndSimulatingPC" and code: "code_at fetch (pc s) (ws @ [ret_instr LR])"
      and pool: "division_pool_ready constant_pool_allowed find_immediate op_kind d s" for s other fetch
  proof -
    have "LR \<notin> {out, TMP, TMP2}" "LR < 32" using assms(6) TMP_facts by (auto simp: LR_def)
    then have "registers (f s) LR = kEndSimulatingPC" using f(3) [of LR s] x lr by simp
    from Execute_runs [OF f(1) pool code this, of other]
    obtain s' where s': "Execute other fetch s = ret s'" "registers s' = registers (f s)" by (auto simp: cpu_def)
    have "registers s' p = registers s p" if "p < 32" "p \<notin> {out, TMP, TMP2}" for p
      using f(3) [OF that(2)] x [OF that(1)] s'(2) by simp
    moreover have "sint (registers s' out) = dart_division op_kind (sint (registers s left)) (sint d)"
      using f(2) [of s] x assms(3,7) s'(2) by simp
    ultimately show ?thesis using s'(1) by blast
  qed
  then show ?thesis using e by blast
qed

lemma length_EmitInt64ModTruncDiv:
  assumes "EmitInt64ModTruncDiv c find_immediate (ret []) level op_kind left d out = ret ws"
  shows "length ws \<le> 20"
proof -
  have l: "length (LoadImmediate c find_immediate r imm) \<le> 4" for r imm by (rule length_LoadImmediate)
  have "length (emit_magic_estimate c find_immediate d m k left) \<le> 8" for d m k
    using l [of TMP2 m] by (simp add: emit_magic_estimate_def)
  then have a: "length (emit_magic_estimate c find_immediate d m k left) + length (LoadImmediate c find_immediate TMP d) \<le> 12"
    and b: "length (emit_magic_estimate c find_immediate d m k left) \<le> 12" for d m k
    using l [of TMP d] add_mono [of _ 8 _ 4] order_trans [of _ 8 12] by fastforce+
  have le: "x \<le> 12 \<Longrightarrow> x \<le> 15" "x \<le> 12 \<Longrightarrow> x \<le> 19" for x :: nat by simp_all
  show ?thesis using assms le(1) [OF a] le(2) [OF b]
    by (auto simp: EmitInt64ModTruncDiv_def ebind_eq_ret split: option.splits div_kind.splits if_splits prod.splits)
qed

text \<open>A value whose upper half is all ones is never taken from the pool.\<close>

lemma LoadImmediate_negative:
  "High32Bits imm = 0xFFFFFFFF \<Longrightarrow> LoadImmediate c find_immediate reg imm = LoadImmediate False find_immediate reg imm"
  unfolding LoadImmediate_def Let_def by (simp split: prod.splits option.splits OperandType.splits)

text \<open>The remainder of \<open>-20\<close> by \<open>-7\<close>, with the multiplier in the pool.\<close>

theorem constant_division_correct_witness:
  "\<exists>ws magic shift. CalculateMagicAndShiftForDivRem (- 7) = ret (magic, shift) \<and>
    EmitInt64ModTruncDiv True (\<lambda>_. 5000) (ret []) 3 kMOD 1 (Some (- 7)) 0 = ret ws \<and>
    (\<exists>s'. Execute (\<lambda>_ _. unimplemented) (memory_of 0x20000 (ws @ [ret_instr LR]))
      ((demo_pool magic)\<lparr>registers := (registers (demo_pool magic))(1 := - 20)\<rparr>) = ret s' \<and> sint (registers s' 0) = 1)"
proof -
  obtain magic shift where m: "CalculateMagicAndShiftForDivRem (- 7) = ret (magic, shift)"
    by (rule magic_result [of "- 7"]) simp_all
  let ?s = "(demo_pool magic)\<lparr>registers := (registers (demo_pool magic))(1 := - 20)\<rparr>"
  have "LoadImmediate True (\<lambda>_. 5000) TMP (- 7) = LoadImmediate False (\<lambda>_. 5000) TMP (- 7)"
    by (rule LoadImmediate_negative) code_simp
  moreover have "?s = write_x 1 (- 20) (demo_pool magic)"
    by (simp add: write_x_def ZR_def)
  then have "pool_ready True (\<lambda>_. 5000) TMP2 magic ?s"
    using pool_ready_write [OF _ demo_pool_ready, of 1 True TMP2 magic "- 20"] by (simp add: PP_def)
  ultimately have pool: "division_pool_ready True (\<lambda>_. 5000) kMOD (- 7) ?s"
    by (simp add: division_pool_ready_def m pool_ready_def [of _ _ TMP])
  obtain ws where ws: "EmitInt64ModTruncDiv True (\<lambda>_. 5000) (ret []) 3 kMOD 1 (Some (- 7)) 0 = ret ws"
    and run: "\<forall>s other fetch. registers s LR = kEndSimulatingPC \<longrightarrow> code_at fetch (pc s) (ws @ [ret_instr LR]) \<longrightarrow>
      division_pool_ready True (\<lambda>_. 5000) kMOD (- 7) s \<longrightarrow>
      (\<exists>s'. Execute other fetch s = ret s' \<and> sint (registers s' 0) = dart_division kMOD (sint (registers s 1)) (sint (- 7 :: 64 word)) \<and>
        {p. p < 32 \<and> registers s' p \<noteq> registers s p} \<subseteq> {0, TMP, TMP2})"
    using constant_division_correct [of "- 7" 3 0 1 True "\<lambda>_. 5000" "ret []" kMOD] by (auto simp: TMP_def TMP2_def LR_def)
  have "registers ?s LR = kEndSimulatingPC" "code_at (memory_of 0x20000 (ws @ [ret_instr LR])) (pc ?s) (ws @ [ret_instr LR])"
    using demo_code [of "ws @ [ret_instr LR]"] length_EmitInt64ModTruncDiv [OF ws] demo_pool_call [of magic]
    by (simp_all add: LR_def)
  then have "\<exists>s'. Execute (\<lambda>_ _. unimplemented) (memory_of 0x20000 (ws @ [ret_instr LR])) ?s = ret s' \<and>
      sint (registers s' 0) = dart_division kMOD (sint (registers ?s 1)) (sint (- 7 :: 64 word))"
    using run pool by blast
  then show ?thesis using ws m by simp
qed

end
