(* ===== verification/Data_Stream.thy ===== *)
theory Data_Stream
  imports Dart_Utils
begin

unbundle bit_operations_syntax

text \<open>
  The byte streams of \<open>runtime/vm/datastream.h\<close> and \<open>datastream.cc\<close>.  A \<open>ReadStream\<close> is a buffer with a
  position.  A write stream has a growing buffer; \<open>w_current\<close> is the offset of \<open>current_\<close> in the buffer and a null
  buffer is \<open>None\<close>.  The three subclasses differ in the virtual \<open>Realloc\<close>, \<open>Position\<close> and \<open>SetPosition\<close>;
  \<open>wkind\<close> is the dynamic class.  The bytes handed to the callback of a streaming stream are collected in
  \<open>w_flushed\<close>.  The C library's allocator is the parameter of type \<open>allocator\<close>: which requests fail, and
  what the fresh bytes of a grown block contain.  Templates over an integer type are functions over words
  of any length.
\<close>

section \<open>Constants\<close>

definition kDataBitsPerByte :: nat where "kDataBitsPerByte = 7"
definition kByteMask :: int where "kByteMask = 2 ^ kDataBitsPerByte - 1"
definition kMaxUnsignedDataPerByte :: int where "kMaxUnsignedDataPerByte = kByteMask"
definition kMinDataPerByte :: int where "kMinDataPerByte = - (2 ^ (kDataBitsPerByte - 1))"
definition kMaxDataPerByte :: int where "kMaxDataPerByte = NOT kMinDataPerByte AND kByteMask"
definition kEndByteMarker :: "8 word" where "kEndByteMarker = word_of_int (255 - kMaxDataPerByte)"
definition kEndUnsignedByteMarker :: "8 word" where "kEndUnsignedByteMarker = word_of_int (255 - kMaxUnsignedDataPerByte)"

definition kDataByteMask :: "8 word" where "kDataByteMask = 0x7f"
definition kMoreDataMask :: "8 word" where "kMoreDataMask = 0x80"
definition kSignMask :: "8 word" where "kSignMask = 0x40"

section \<open>Reading\<close>

record rstream =
  rbuf :: "8 word list"
  rpos :: nat

definition ReadStream :: "8 word list \<Rightarrow> rstream" where
  "ReadStream bs = \<lparr>rbuf = bs, rpos = 0\<rparr>"

definition ReadByte :: "rstream \<Rightarrow> (8 word \<times> rstream) exec" where
  "ReadByte st =
     (if rpos st < length (rbuf st) then ret (rbuf st ! rpos st, st\<lparr>rpos := rpos st + 1\<rparr>)
      else raise_fault OutOfBounds)"

definition Advance :: "nat \<Rightarrow> rstream \<Rightarrow> rstream" where
  "Advance n st = st\<lparr>rpos := rpos st + n\<rparr>"

definition PendingBytes :: "rstream \<Rightarrow> nat" where
  "PendingBytes st = length (rbuf st) - rpos st"

definition ReadStream_SetPosition :: "nat \<Rightarrow> rstream \<Rightarrow> rstream" where
  "ReadStream_SetPosition n st = st\<lparr>rpos := n\<rparr>"

text \<open>The next multiple of the alignment, on 64-bit positions.\<close>

definition round_position :: "nat \<Rightarrow> nat \<Rightarrow> nat \<Rightarrow> nat" where
  "round_position pos alignment offset = unat (RoundUp (of_nat pos) (of_nat alignment) (of_nat offset))"

definition ReadStream_Align :: "nat \<Rightarrow> nat \<Rightarrow> rstream \<Rightarrow> rstream" where
  "ReadStream_Align alignment offset st =
     (let position_before = rpos st;
          position_after = round_position position_before alignment offset
      in Advance (position_after - position_before) st)"

definition ReadBytes :: "nat \<Rightarrow> rstream \<Rightarrow> (8 word list \<times> rstream) exec" where
  "ReadBytes len st =
     (if rpos st + len \<le> length (rbuf st) then ret (take len (drop (rpos st) (rbuf st)), Advance len st)
      else raise_fault OutOfBounds)"

text \<open>The loop of \<open>Read<T>(marker)\<close>.\<close>

partial_function (option) read_loop ::
    "8 word \<Rightarrow> 'a::len word \<Rightarrow> nat \<Rightarrow> 8 word \<Rightarrow> rstream \<Rightarrow> ('a word \<times> rstream) exec" where
  "read_loop end_byte_marker r s b st =
     (if LENGTH('a) \<le> s then raise_fault BadShift
      else let r = r OR push_bit s (ucast b); s = s + kDataBitsPerByte
           in ebind (ReadByte st) (\<lambda>(b, st).
                if uint b \<le> kMaxUnsignedDataPerByte then read_loop end_byte_marker r s b st
                else if LENGTH('a) \<le> s then raise_fault BadShift
                else ret (r OR push_bit s (ucast b - ucast end_byte_marker), st)))"

definition Read_marker :: "8 word \<Rightarrow> rstream \<Rightarrow> ('a::len word \<times> rstream) exec" where
  "Read_marker end_byte_marker st =
     ebind (ReadByte st) (\<lambda>(b, st).
       if kMaxUnsignedDataPerByte < uint b then ret (ucast b - ucast end_byte_marker, st)
       else read_loop end_byte_marker 0 0 b st)"

definition Read_T :: "rstream \<Rightarrow> ('a::len word \<times> rstream) exec" where
  "Read_T = Read_marker kEndByteMarker"

definition ReadUnsigned :: "rstream \<Rightarrow> ('a::len word \<times> rstream) exec" where
  "ReadUnsigned = Read_marker kEndUnsignedByteMarker"

text \<open>The unrolled readers; a macro with a \<open>return\<close> takes the rest of the function as its continuation.\<close>

definition UNROLLED_INIT ::
    "8 word \<Rightarrow> ('a::len word \<Rightarrow> rstream \<Rightarrow> ('a word \<times> rstream) exec) \<Rightarrow> rstream \<Rightarrow> ('a word \<times> rstream) exec" where
  "UNROLLED_INIT end_byte_marker k st =
     ebind (ReadByte st) (\<lambda>(b, st).
       if kMaxUnsignedDataPerByte < uint b then ret (ucast b - ucast end_byte_marker, st)
       else k (ucast b) st)"

definition UNROLLED_BODY ::
    "8 word \<Rightarrow> nat \<Rightarrow> ('a::len word \<Rightarrow> rstream \<Rightarrow> ('a word \<times> rstream) exec) \<Rightarrow> 'a word \<Rightarrow> rstream \<Rightarrow> ('a word \<times> rstream) exec" where
  "UNROLLED_BODY end_byte_marker bit_start k r st =
     ebind (ReadByte st) (\<lambda>(b, st).
       if kMaxUnsignedDataPerByte < uint b then ret (r OR push_bit bit_start (ucast b - ucast end_byte_marker), st)
       else k (r OR push_bit bit_start (ucast b)) st)"

definition UNROLLED_END :: "8 word \<Rightarrow> nat \<Rightarrow> 'a::len word \<Rightarrow> rstream \<Rightarrow> ('a word \<times> rstream) exec" where
  "UNROLLED_END end_byte_marker bit_start r st =
     ebind (ReadByte st) (\<lambda>(b, st). ret (r OR push_bit bit_start (ucast b - ucast end_byte_marker), st))"

definition Read16 :: "8 word \<Rightarrow> rstream \<Rightarrow> (16 word \<times> rstream) exec" where
  "Read16 m = UNROLLED_INIT m (UNROLLED_BODY m 7 (UNROLLED_END m 14))"

definition Read32 :: "8 word \<Rightarrow> rstream \<Rightarrow> (32 word \<times> rstream) exec" where
  "Read32 m = UNROLLED_INIT m (UNROLLED_BODY m 7 (UNROLLED_BODY m 14 (UNROLLED_BODY m 21 (UNROLLED_END m 28))))"

definition Read64 :: "8 word \<Rightarrow> rstream \<Rightarrow> (64 word \<times> rstream) exec" where
  "Read64 m = UNROLLED_INIT m (UNROLLED_BODY m 7 (UNROLLED_BODY m 14 (UNROLLED_BODY m 21 (UNROLLED_BODY m 28
     (UNROLLED_BODY m 35 (UNROLLED_BODY m 42 (UNROLLED_BODY m 49 (UNROLLED_BODY m 56 (UNROLLED_END m 63)))))))))"

definition Raw_Read1 :: "rstream \<Rightarrow> (8 word \<times> rstream) exec" where "Raw_Read1 = ReadByte"
definition Raw_Read2 :: "rstream \<Rightarrow> (16 word \<times> rstream) exec" where "Raw_Read2 = Read16 kEndByteMarker"
definition Raw_Read4 :: "rstream \<Rightarrow> (32 word \<times> rstream) exec" where "Raw_Read4 = Read32 kEndByteMarker"
definition Raw_Read8 :: "rstream \<Rightarrow> (64 word \<times> rstream) exec" where "Raw_Read8 = Read64 kEndByteMarker"

definition ReadWordWith32BitReads :: "rstream \<Rightarrow> (64 word \<times> rstream) exec" where
  "ReadWordWith32BitReads st =
     ebind (Raw_Read4 st) (\<lambda>(lo, st). ebind (Raw_Read4 st) (\<lambda>(hi, st).
       ret ((0 OR push_bit 0 (ucast lo)) OR push_bit 32 (ucast hi), st)))"

text \<open>The loop that \<open>ReadLEB128\<close> and \<open>ReadSLEB128\<close> share; the latter also uses the last byte and the
  number of bits read.\<close>

partial_function (option) leb_loop :: "'a::len word \<Rightarrow> nat \<Rightarrow> rstream \<Rightarrow> ('a word \<times> nat \<times> 8 word \<times> rstream) exec" where
  "leb_loop r s st =
     ebind (ReadByte st) (\<lambda>(b, st).
       if LENGTH('a) \<le> s then raise_fault BadShift
       else let r = r OR push_bit s (ucast (b AND kDataByteMask)); s = s + kDataBitsPerByte
            in if b AND kMoreDataMask \<noteq> 0 then leb_loop r s st else ret (r, s, b, st))"

definition ReadLEB128 :: "rstream \<Rightarrow> ('a::len word \<times> rstream) exec" where
  "ReadLEB128 st = ebind (leb_loop 0 0 st) (\<lambda>(r, s, b, st). ret (r, st))"

definition ReadSLEB128 :: "rstream \<Rightarrow> ('a::len word \<times> rstream) exec" where
  "ReadSLEB128 st =
     ebind (leb_loop 0 0 st) (\<lambda>(r, s, b, st).
       let sign_bits = (if b AND kSignMask \<noteq> 0 \<and> s < LENGTH('a) then NOT (push_bit s 1 - 1) else 0)
       in ret (r OR sign_bits, st))"

text \<open>\<open>ReadRefId\<close> reads at most four bytes through a cursor of signed bytes.\<close>

primrec ref_stages :: "nat \<Rightarrow> 64 word \<Rightarrow> rstream \<Rightarrow> (64 word \<times> rstream) exec" where
  "ref_stages 0 result st = ret (result, st)"
| "ref_stages (Suc n) result st =
     ebind (ReadByte st) (\<lambda>(b, st).
       let byte = scast b; result = byte + push_bit 7 result
       in if byte <s 0 then ret (result, st) else ref_stages n result st)"

definition ReadRefId :: "rstream \<Rightarrow> (64 word \<times> rstream) exec" where
  "ReadRefId st = ebind (ref_stages 4 0 st) (\<lambda>(result, st). ret (result + 128, st))"

section \<open>Writing\<close>

record allocator =
  fails :: "nat \<Rightarrow> bool"
  junk :: "nat \<Rightarrow> 8 word"

datatype stream_kind = MallocWriteStream | ZoneWriteStream | StreamingWriteStream

record wstream =
  wkind :: stream_kind
  w_initial :: nat
  w_buffer :: "8 word list option"
  w_current :: nat
  w_capacity :: nat
  w_flushed :: "8 word list"
  w_flushed_size :: nat

definition BaseWriteStream :: "stream_kind \<Rightarrow> nat \<Rightarrow> wstream" where
  "BaseWriteStream k initial_size =
     \<lparr>wkind = k, w_initial = unat (RoundUpToPowerOfTwo (of_nat initial_size)), w_buffer = None, w_current = 0,
      w_capacity = 0, w_flushed = [], w_flushed_size = 0\<rparr>"

text \<open>The C library's \<open>realloc\<close>: the old bytes are kept, the new ones are arbitrary.  No block reaches
  \<open>2 ^ 62\<close> bytes, which exceeds the address space of every supported platform.  For a zone stream the function
  stands for \<open>Zone::Realloc\<close> (\<open>runtime/vm/zone.h\<close>), which is not modelled beyond this contract: it extends the
  block in place or copies it, and stops the process when memory is exhausted, which is the same fault
  here as the exception that the caller throws for a null buffer.\<close>

definition refused :: "allocator \<Rightarrow> nat \<Rightarrow> bool" where
  "refused A n \<longleftrightarrow> 2 ^ 62 \<le> n \<or> fails A n"

definition realloc :: "allocator \<Rightarrow> 8 word list option \<Rightarrow> nat \<Rightarrow> 8 word list option" where
  "realloc A old n =
     (if refused A n then None
      else let bs = (case old of None \<Rightarrow> [] | Some bs \<Rightarrow> bs)
           in Some (take n bs @ map (junk A) [length bs..<n]))"

definition Flush :: "wstream \<Rightarrow> wstream" where
  "Flush st =
     (let size = w_current st
      in st\<lparr>w_flushed := w_flushed st @ (case w_buffer st of None \<Rightarrow> [] | Some bs \<Rightarrow> take size bs),
            w_flushed_size := w_flushed_size st + size, w_current := 0\<rparr>)"

definition Malloc_Realloc :: "allocator \<Rightarrow> nat \<Rightarrow> wstream \<Rightarrow> wstream" where
  "Malloc_Realloc A new_size st =
     (let old_offset = w_current st; b = realloc A (w_buffer st) new_size
      in st\<lparr>w_buffer := b, w_capacity := (if b \<noteq> None then new_size else 0),
            w_current := (if b \<noteq> None then old_offset else 0)\<rparr>)"

definition Streaming_Realloc :: "allocator \<Rightarrow> nat \<Rightarrow> wstream \<Rightarrow> wstream" where
  "Streaming_Realloc A new_size st0 =
     (let st = Flush st0
      in if new_size \<le> w_capacity st then st
         else let new_capacity = round_position new_size 0x10000 0; b = realloc A (w_buffer st) new_capacity
              in st\<lparr>w_buffer := b, w_capacity := (if b \<noteq> None then new_capacity else 0), w_current := 0\<rparr>)"

definition Realloc :: "allocator \<Rightarrow> nat \<Rightarrow> wstream \<Rightarrow> wstream" where
  "Realloc A new_size st =
     (case wkind st of StreamingWriteStream \<Rightarrow> Streaming_Realloc A new_size st | _ \<Rightarrow> Malloc_Realloc A new_size st)"

definition Position :: "wstream \<Rightarrow> nat" where
  "Position st = (case wkind st of StreamingWriteStream \<Rightarrow> w_flushed_size st + w_current st | _ \<Rightarrow> w_current st)"

definition Remaining :: "wstream \<Rightarrow> nat" where
  "Remaining st = w_capacity st - w_current st"

definition ensure_space :: "(nat \<Rightarrow> wstream \<Rightarrow> wstream) \<Rightarrow> nat \<Rightarrow> wstream \<Rightarrow> wstream exec" where
  "ensure_space re size_needed st =
     (if size_needed \<le> Remaining st then ret st
      else let increment_size = (if w_capacity st < size_needed then round_position size_needed (w_initial st) 0
                                 else w_capacity st);
               new_size = w_capacity st + increment_size;
               st = re new_size st
           in if w_buffer st = None then raise_fault OutOfMemory else ret st)"

definition EnsureSpace :: "allocator \<Rightarrow> nat \<Rightarrow> wstream \<Rightarrow> wstream exec" where
  "EnsureSpace A = ensure_space (Realloc A)"

text \<open>Storing bytes at \<open>w_current\<close>, without moving it.\<close>

definition store_bytes :: "8 word list \<Rightarrow> wstream \<Rightarrow> wstream exec" where
  "store_bytes bs st =
     (case w_buffer st of
        None \<Rightarrow> raise_fault NullDeref
      | Some buf \<Rightarrow>
          if w_current st + length bs \<le> length buf
          then ret (st\<lparr>w_buffer := Some (take (w_current st) buf @ bs @ drop (w_current st + length bs) buf)\<rparr>)
          else raise_fault OutOfBounds)"

definition store_advance :: "8 word list \<Rightarrow> wstream \<Rightarrow> wstream exec" where
  "store_advance bs st = ebind (store_bytes bs st) (\<lambda>st. ret (st\<lparr>w_current := w_current st + length bs\<rparr>))"

definition Base_SetPosition :: "allocator \<Rightarrow> nat \<Rightarrow> wstream \<Rightarrow> wstream exec" where
  "Base_SetPosition A value st =
     ebind (EnsureSpace A (value - w_current st) st) (\<lambda>st. ret (st\<lparr>w_current := value\<rparr>))"

definition SetPosition :: "allocator \<Rightarrow> nat \<Rightarrow> wstream \<Rightarrow> wstream exec" where
  "SetPosition A value st =
     (case wkind st of
        StreamingWriteStream \<Rightarrow> Base_SetPosition A (value - w_flushed_size st) st
      | _ \<Rightarrow> Base_SetPosition A value st)"

definition Align :: "allocator \<Rightarrow> nat \<Rightarrow> nat \<Rightarrow> wstream \<Rightarrow> wstream exec" where
  "Align A alignment offset st =
     (let position_before = Position st;
          position_after = round_position position_before alignment offset;
          length = position_after - position_before
      in if length \<noteq> 0
         then ebind (EnsureSpace A length st) (\<lambda>st. ebind (store_bytes (replicate length 0) st) (SetPosition A position_after))
         else ret st)"

definition WriteByte :: "allocator \<Rightarrow> 8 word \<Rightarrow> wstream \<Rightarrow> wstream exec" where
  "WriteByte A b st = ebind (EnsureSpace A 1 st) (store_advance [b])"

definition WriteBytes :: "allocator \<Rightarrow> 8 word list \<Rightarrow> wstream \<Rightarrow> wstream exec" where
  "WriteBytes A bs st =
     (if length bs \<noteq> 0 then ebind (EnsureSpace A (length bs) st) (store_advance bs) else ret st)"

definition WriteString :: "allocator \<Rightarrow> 8 word list \<Rightarrow> wstream \<Rightarrow> wstream exec" where
  "WriteString A cstr st = WriteBytes A cstr st"

text \<open>\<open>VPrintf\<close> with the formatted text; the terminating zero is written but not kept.\<close>

definition VPrintf :: "allocator \<Rightarrow> 8 word list \<Rightarrow> wstream \<Rightarrow> wstream exec" where
  "VPrintf A s st =
     ebind (EnsureSpace A (length s + 1) st) (\<lambda>st. ebind (store_bytes (s @ [0]) st)
       (\<lambda>st. ret (st\<lparr>w_current := w_current st + length s\<rparr>)))"

text \<open>The bytes of a word in memory, the lowest first.\<close>

definition memory_bytes :: "'a::len word \<Rightarrow> 8 word list" where
  "memory_bytes value = map (\<lambda>i. ucast (drop_bit (8 * i) value)) [0..<LENGTH('a) div 8]"

definition WriteFixed :: "allocator \<Rightarrow> 'a::len word \<Rightarrow> wstream \<Rightarrow> wstream exec" where
  "WriteFixed A value st = WriteBytes A (memory_bytes value) st"

text \<open>\<open>Write\<close> is used with signed types only.\<close>

partial_function (option) Write_T :: "allocator \<Rightarrow> 'a::len word \<Rightarrow> wstream \<Rightarrow> wstream exec" where
  "Write_T A v st =
     (if sint v < kMinDataPerByte \<or> kMaxDataPerByte < sint v
      then ebind (WriteByte A (ucast (v AND word_of_int kByteMask)) st) (Write_T A (signed_drop_bit kDataBitsPerByte v))
      else WriteByte A (scast v + kEndByteMarker) st)"

text \<open>\<open>WriteUnsigned\<close> is used with signed types, then on non-negative values, and with unsigned types: the type
  decides how the value is compared and shifted.\<close>

definition T_value :: "bool \<Rightarrow> 'a::len word \<Rightarrow> int" where
  "T_value is_signed v = (if is_signed then sint v else uint v)"

definition T_shift :: "bool \<Rightarrow> nat \<Rightarrow> 'a::len word \<Rightarrow> 'a word" where
  "T_shift is_signed n v = (if is_signed then signed_drop_bit n v else drop_bit n v)"

partial_function (option) WriteUnsigned :: "allocator \<Rightarrow> bool \<Rightarrow> 'a::len word \<Rightarrow> wstream \<Rightarrow> wstream exec" where
  "WriteUnsigned A is_signed v st =
     (if kMaxUnsignedDataPerByte < T_value is_signed v
      then ebind (WriteByte A (ucast (v AND word_of_int kByteMask)) st)
             (WriteUnsigned A is_signed (T_shift is_signed kDataBitsPerByte v))
      else WriteByte A (word_of_int (T_value is_signed v) + kEndUnsignedByteMarker) st)"

definition Raw_Write1 :: "allocator \<Rightarrow> 8 word \<Rightarrow> wstream \<Rightarrow> wstream exec" where "Raw_Write1 = WriteByte"
definition Raw_Write2 :: "allocator \<Rightarrow> 16 word \<Rightarrow> wstream \<Rightarrow> wstream exec" where "Raw_Write2 = Write_T"
definition Raw_Write4 :: "allocator \<Rightarrow> 32 word \<Rightarrow> wstream \<Rightarrow> wstream exec" where "Raw_Write4 = Write_T"
definition Raw_Write8 :: "allocator \<Rightarrow> 64 word \<Rightarrow> wstream \<Rightarrow> wstream exec" where "Raw_Write8 = Write_T"

definition WriteWordWith32BitWrites :: "allocator \<Rightarrow> 64 word \<Rightarrow> wstream \<Rightarrow> wstream exec" where
  "WriteWordWith32BitWrites A value st =
     (let msk = mask 32
      in ebind (Raw_Write4 A (ucast (drop_bit 0 value) AND msk) st) (Raw_Write4 A (ucast (drop_bit 32 value) AND msk)))"

definition WriteRefId :: "allocator \<Rightarrow> 64 word \<Rightarrow> wstream \<Rightarrow> wstream exec" where
  "WriteRefId A value st =
     (let part = (\<lambda>s st. if signed_drop_bit s value \<noteq> 0 then store_advance [ucast (signed_drop_bit s value AND 127)] st else ret st)
      in ebind (EnsureSpace A 4 st) (\<lambda>st. ebind (part 21 st) (\<lambda>st. ebind (part 14 st) (\<lambda>st. ebind (part 7 st)
           (store_advance [ucast ((signed_drop_bit 0 value AND 127) OR 128)])))))"

partial_function (option) WriteLEB128 :: "allocator \<Rightarrow> 'a::len word \<Rightarrow> wstream \<Rightarrow> wstream exec" where
  "WriteLEB128 A v st =
     (let part = ucast (v AND ucast kDataByteMask);
          v' = drop_bit kDataBitsPerByte v;
          is_last_part = (v' = 0);
          part = (if \<not> is_last_part then part OR kMoreDataMask else part)
      in ebind (WriteByte A part st) (\<lambda>st. if is_last_part then ret st else WriteLEB128 A v' st))"

partial_function (option) sleb_write_loop :: "allocator \<Rightarrow> bool \<Rightarrow> 'a::len word \<Rightarrow> wstream \<Rightarrow> wstream exec" where
  "sleb_write_loop A is_negative v st =
     (let part = ucast (v AND ucast kDataByteMask);
          v' = signed_drop_bit kDataBitsPerByte v;
          v' = (if is_negative then v' OR NOT (push_bit (LENGTH('a) - kDataBitsPerByte) 1 - 1) else v');
          is_last_part = (if is_negative then v' = NOT 0 \<and> part AND kSignMask \<noteq> 0 else v' = 0 \<and> part AND kSignMask = 0);
          part = (if \<not> is_last_part then part OR kMoreDataMask else part)
      in ebind (WriteByte A part st) (\<lambda>st. if is_last_part then ret st else sleb_write_loop A is_negative v' st))"

definition WriteSLEB128 :: "allocator \<Rightarrow> 'a::len word \<Rightarrow> wstream \<Rightarrow> wstream exec" where
  "WriteSLEB128 A v st = sleb_write_loop A (sint v < 0) v st"

text \<open>\<open>Steal\<close> hands the buffer over and resets the stream.\<close>

definition Steal :: "wstream \<Rightarrow> (8 word list option \<times> nat) \<times> wstream" where
  "Steal st = ((w_buffer st, Position st), st\<lparr>w_current := 0, w_buffer := None, w_capacity := 0\<rparr>)"

text \<open>The destructors: a streaming stream hands out what is left, and the buffer is freed.\<close>

definition MallocWriteStream_destroy :: "wstream \<Rightarrow> wstream" where
  "MallocWriteStream_destroy st = st\<lparr>w_buffer := None\<rparr>"

definition StreamingWriteStream_destroy :: "wstream \<Rightarrow> wstream" where
  "StreamingWriteStream_destroy st = (Flush st)\<lparr>w_buffer := None\<rparr>"

section \<open>The invariant and the contents of a write stream\<close>

definition stream_ok :: "wstream \<Rightarrow> bool" where
  "stream_ok st \<longleftrightarrow>
     (case w_buffer st of None \<Rightarrow> w_capacity st = 0 | Some bs \<Rightarrow> length bs = w_capacity st) \<and>
     w_current st \<le> w_capacity st \<and> w_capacity st < 2 ^ 62 \<and> (\<exists>k\<le>62. w_initial st = 2 ^ k) \<and>
     w_flushed_size st = length (w_flushed st) \<and> (wkind st \<noteq> StreamingWriteStream \<longrightarrow> w_flushed st = [])"

text \<open>Everything written so far.\<close>

definition contents :: "wstream \<Rightarrow> 8 word list" where
  "contents st = w_flushed st @ (case w_buffer st of None \<Rightarrow> [] | Some bs \<Rightarrow> take (w_current st) bs)"

lemma Position_output: "stream_ok st \<Longrightarrow> Position st = length (contents st)"
  by (cases "w_buffer st"; cases "wkind st") (auto simp: stream_ok_def contents_def Position_def)

lemma RoundDown_power:
  assumes "k < 64"
  shows "unat (RoundDown x (2 ^ k)) = unat x div 2 ^ k * 2 ^ k"
proof -
  have "- (2 ^ k :: 64 word) = NOT (mask k)" by (simp add: mask_eq_exp_minus_1 minus_eq_not_minus_1)
  then have "RoundDown x (2 ^ k) = push_bit k (drop_bit k x)"
    unfolding RoundDown_def by (intro bit_word_eqI) (auto simp: bit_simps)
  then have "unat (RoundDown x (2 ^ k)) = take_bit 64 (push_bit k (drop_bit k (unat x)))"
    using take_bit_nat_eq_self [OF unsigned_less [of x]] by (simp add: unsigned_push_bit_eq unsigned_drop_bit_eq)
  moreover have "drop_bit k (unat x) * 2 ^ k \<le> unat x" by (simp add: drop_bit_eq_div)
  then have "drop_bit k (unat x) * 2 ^ k < 2 ^ 64" by (rule le_less_trans) (use unsigned_less [of x, where 'a = nat] in simp)
  ultimately show ?thesis by (simp add: push_bit_eq_mult drop_bit_eq_div take_bit_nat_eq_self)
qed

lemma round_position_eq:
  assumes "pos + 2 ^ k + offset < 2 ^ 64" "k < 64" "offset < 2 ^ k"
  shows "round_position pos (2 ^ k) offset = (pos + 2 ^ k - 1 + offset) div 2 ^ k * 2 ^ k - offset"
    and "pos \<le> round_position pos (2 ^ k) offset" "round_position pos (2 ^ k) offset < pos + 2 ^ k"
proof -
  define y where "y = pos + 2 ^ k - 1 + offset"
  define z where "z = y div 2 ^ k * 2 ^ k"
  have "(of_nat pos + of_nat (2 ^ k) - 1 + of_nat offset :: 64 word) = of_nat y"
  proof -
    have "y + 1 = pos + 2 ^ k + offset" unfolding y_def by simp
    then have "(of_nat (y + 1) :: 64 word) = of_nat (pos + 2 ^ k + offset)" by (rule arg_cong)
    then show ?thesis by (simp add: algebra_simps)
  qed
  moreover have "unat (of_nat y :: 64 word) = y" unfolding y_def using assms(1) by (intro unat_of_nat64) simp
  ultimately have "unat (RoundDown (of_nat pos + of_nat (2 ^ k) - 1 + of_nat offset) (2 ^ k)) = z"
    unfolding z_def using RoundDown_power [OF assms(2), of "of_nat y"] by simp
  moreover have z: "z \<le> y" "y < z + 2 ^ k"
    unfolding z_def using mod_less_divisor [of "2 ^ k" y] div_mult_mod_eq [of y "2 ^ k"] zero_less_power [of "2 :: nat" k]
    by linarith+
  then have le: "offset \<le> z" "pos + offset \<le> z" "z < pos + 2 ^ k + offset" unfolding y_def by linarith+
  moreover have "unat (of_nat offset :: 64 word) = offset" using assms(1) by (intro unat_of_nat64) simp
  ultimately have "round_position pos (2 ^ k) offset = z - offset"
    unfolding round_position_def RoundUp_def by (simp add: unat_sub word_le_nat_alt)
  then show "round_position pos (2 ^ k) offset = (pos + 2 ^ k - 1 + offset) div 2 ^ k * 2 ^ k - offset"
    "pos \<le> round_position pos (2 ^ k) offset" "round_position pos (2 ^ k) offset < pos + 2 ^ k"
    using le unfolding z_def y_def by linarith+
qed

lemma new_stream_ok:
  assumes "0 < n" "n \<le> 2 ^ 61"
  shows "stream_ok (BaseWriteStream kind n)" "contents (BaseWriteStream kind n) = []" "w_initial (BaseWriteStream kind n) \<le> 2 * n"
proof -
  have "unat (of_nat n :: 64 word) = n" using assms by (intro unat_of_nat64) simp
  then have "(0 :: 64 word) < of_nat n" "(of_nat n :: 64 word) \<le> 2 ^ 63"
    using assms by (simp_all add: word_less_nat_alt word_le_nat_alt)
  from RoundUpToPowerOfTwo_power [OF this] \<open>unat (of_nat n) = n\<close>
  obtain k where k: "unat (RoundUpToPowerOfTwo (of_nat n)) = 2 ^ k" "2 ^ k < 2 * n" by auto
  have "(2 :: nat) ^ k < 2 ^ 62" using k(2) assms(2) by simp
  then have "k \<le> 62" using power_less_imp_less_exp [of "2 :: nat" k 62] by simp
  then show "stream_ok (BaseWriteStream kind n)" "contents (BaseWriteStream kind n) = []" "w_initial (BaseWriteStream kind n) \<le> 2 * n"
    using k by (auto simp: stream_ok_def BaseWriteStream_def contents_def)
qed

section \<open>Growing the buffer\<close>

text \<open>What \<open>EnsureSpace\<close> needs from the virtual \<open>Realloc\<close> of a subclass: unless the allocation fails, the
  stream stays well formed, nothing written is lost and the requested room is there.\<close>

locale realloc_contract =
  fixes re :: "nat \<Rightarrow> wstream \<Rightarrow> wstream" and of_kind :: "stream_kind \<Rightarrow> bool" and refuse :: "nat \<Rightarrow> bool"
  assumes re_null: "stream_ok st \<Longrightarrow> of_kind (wkind st) \<Longrightarrow> w_capacity st < n \<Longrightarrow> n < 2 ^ 63 \<Longrightarrow>
      w_buffer (re n st) = None \<or> stream_ok (re n st)"
    and re_contents: "stream_ok st \<Longrightarrow> of_kind (wkind st) \<Longrightarrow> w_capacity st < n \<Longrightarrow> n < 2 ^ 63 \<Longrightarrow>
      w_buffer (re n st) = None \<or> contents (re n st) = contents st"
    and re_room: "stream_ok st \<Longrightarrow> of_kind (wkind st) \<Longrightarrow> w_capacity st < n \<Longrightarrow> n < 2 ^ 63 \<Longrightarrow>
      w_buffer (re n st) = None \<or> n \<le> w_capacity (re n st) \<and> w_current (re n st) \<le> w_current st"
    and re_refused: "stream_ok st \<Longrightarrow> of_kind (wkind st) \<Longrightarrow> w_capacity st < n \<Longrightarrow> n < 2 ^ 63 \<Longrightarrow>
      w_buffer (re n st) = None \<Longrightarrow> \<exists>m\<le>n + 2 ^ 16. refuse m"
    and re_kind: "wkind (re n st) = wkind st" and re_initial: "w_initial (re n st) = w_initial st"
begin

lemma ensure_space_correct:
  assumes ok: "stream_ok st" "of_kind (wkind st)" and size: "0 < len" "len < 2 ^ 61"
  shows "ensure_space re len st = raise_fault OutOfMemory \<and> (\<exists>n\<le>2 * (w_current st + len) + w_initial st + 2 ^ 16. refuse n) \<or>
    (\<exists>st'. ensure_space re len st = ret st' \<and> stream_ok st' \<and> contents st' = contents st \<and> wkind st' = wkind st \<and> w_initial st' = w_initial st \<and>
       w_buffer st' \<noteq> None \<and> len \<le> Remaining st')"
proof (cases "len \<le> Remaining st")
  case True
  moreover have "w_buffer st \<noteq> None" using True size(1) ok(1) unfolding stream_ok_def Remaining_def by (auto split: option.splits)
  ultimately show ?thesis using ok(1) by (simp add: ensure_space_def)
next
  case False
  define inc where "inc = (if w_capacity st < len then round_position len (w_initial st) 0 else w_capacity st)"
  obtain k where k: "k \<le> 62" "w_initial st = 2 ^ k" using ok(1) unfolding stream_ok_def by blast
  have "(2 :: nat) ^ k \<le> 2 ^ 62" using k(1) by (intro power_increasing) simp_all
  then have r: "len \<le> round_position len (w_initial st) 0" "round_position len (w_initial st) 0 < len + 2 ^ k"
    "round_position len (w_initial st) 0 < len + 2 ^ 62"
    using round_position_eq(2,3) [of len k 0] k size by auto
  have cap: "w_current st \<le> w_capacity st" "w_capacity st < 2 ^ 62" using ok(1) unfolding stream_ok_def by simp_all
  note pos = size(1)
  have inc: "len \<le> inc" "w_capacity st + inc < 2 ^ 63" using r cap(2) size(2) unfolding inc_def by auto
  define st' where "st' = re (w_capacity st + inc) st"
  have lim: "w_capacity st < w_capacity st + inc" "w_capacity st + inc < 2 ^ 63" using inc cap(2) pos by simp_all
  have e: "ensure_space re len st = (if w_buffer st' = None then raise_fault OutOfMemory else ret st')"
    using False unfolding ensure_space_def st'_def inc_def Let_def by simp
  have bound: "w_capacity st + inc \<le> 2 * (w_current st + len) + w_initial st"
    using False r cap unfolding inc_def Remaining_def k(2) by auto
  show ?thesis
  proof (cases "w_buffer st' = None")
    case True
    then obtain m where "m \<le> w_capacity st + inc + 2 ^ 16" "refuse m" using re_refused [OF ok lim] unfolding st'_def by blast
    then have "m \<le> 2 * (w_current st + len) + w_initial st + 2 ^ 16" using bound by linarith
    then show ?thesis using e True \<open>refuse m\<close> by auto
  next
    case False
    have "w_capacity st + inc \<le> w_capacity st'" "w_current st' \<le> w_current st"
      using re_room [OF ok lim] False unfolding st'_def by simp_all
    then have "len \<le> Remaining st'" using inc(1) cap(1) unfolding Remaining_def by linarith
    then show ?thesis
      using e False re_null [OF ok lim] re_contents [OF ok lim] re_kind re_initial unfolding st'_def by auto
  qed
qed

end

lemma realloc_cases:
  "realloc A old n = None \<and> refused A n \<or>
   (\<exists>bs. realloc A old n = Some bs \<and> n < 2 ^ 62 \<and> length bs = n \<and>
      (\<forall>m\<le>n. take m bs = take m (case old of None \<Rightarrow> [] | Some bs \<Rightarrow> bs) \<or> (case old of None \<Rightarrow> 0 | Some bs \<Rightarrow> length bs) < m))"
  by (auto simp: realloc_def refused_def Let_def split: option.splits)

interpretation malloc_realloc: realloc_contract "Malloc_Realloc A" "\<lambda>k. k \<noteq> StreamingWriteStream" "refused A" for A
proof
  fix st :: wstream and n :: nat
  show "wkind (Malloc_Realloc A n st) = wkind st" "w_initial (Malloc_Realloc A n st) = w_initial st"
    by (simp_all add: Malloc_Realloc_def Let_def)
  assume ok: "stream_ok st" and n: "w_capacity st < n"
  have c: "w_current st \<le> w_capacity st" using ok unfolding stream_ok_def by simp
  show "w_buffer (Malloc_Realloc A n st) = None \<or> stream_ok (Malloc_Realloc A n st)"
    using realloc_cases [of A "w_buffer st" n] ok n c by (auto simp: Malloc_Realloc_def Let_def stream_ok_def)
  show "\<exists>m\<le>n + 2 ^ 16. refused A m" if "w_buffer (Malloc_Realloc A n st) = None"
    using realloc_cases [of A "w_buffer st" n] that by (auto simp: Malloc_Realloc_def Let_def intro!: exI [of _ n])
  show "w_buffer (Malloc_Realloc A n st) = None \<or> n \<le> w_capacity (Malloc_Realloc A n st) \<and>
      w_current (Malloc_Realloc A n st) \<le> w_current st"
    using realloc_cases [of A "w_buffer st" n] by (auto simp: Malloc_Realloc_def Let_def)
  show "w_buffer (Malloc_Realloc A n st) = None \<or> contents (Malloc_Realloc A n st) = contents st"
    using ok n c by (auto simp: Malloc_Realloc_def Let_def contents_def realloc_def stream_ok_def split: option.splits)
qed

interpretation streaming_realloc: realloc_contract "Streaming_Realloc A" "\<lambda>k. k = StreamingWriteStream" "refused A" for A
proof
  fix st :: wstream and n :: nat
  show "wkind (Streaming_Realloc A n st) = wkind st" "w_initial (Streaming_Realloc A n st) = w_initial st"
    by (simp_all add: Streaming_Realloc_def Flush_def Let_def)
  assume ok: "stream_ok st" and k: "wkind st = StreamingWriteStream" and n: "w_capacity st < n" "n < 2 ^ 63"
  have r: "n \<le> round_position n (2 ^ 16) 0" "round_position n (2 ^ 16) 0 \<le> n + 2 ^ 16"
    using round_position_eq(2,3) [of n 16 0] n by simp_all
  have c: "w_current st \<le> w_capacity st" using ok unfolding stream_ok_def by simp
  show "w_buffer (Streaming_Realloc A n st) = None \<or> stream_ok (Streaming_Realloc A n st)"
    using realloc_cases [of A "w_buffer st" "round_position n (2 ^ 16) 0"] ok k n c
    by (auto simp: Streaming_Realloc_def Flush_def Let_def stream_ok_def split: option.splits)
  show "\<exists>m\<le>n + 2 ^ 16. refused A m" if "w_buffer (Streaming_Realloc A n st) = None"
    using realloc_cases [of A "w_buffer st" "round_position n (2 ^ 16) 0"] that n r
    by (auto simp: Streaming_Realloc_def Flush_def Let_def intro!: exI [of _ "round_position n (2 ^ 16) 0"])
  show "w_buffer (Streaming_Realloc A n st) = None \<or> n \<le> w_capacity (Streaming_Realloc A n st) \<and>
      w_current (Streaming_Realloc A n st) \<le> w_current st"
    using r n by (auto simp: Streaming_Realloc_def Flush_def Let_def)
  show "w_buffer (Streaming_Realloc A n st) = None \<or> contents (Streaming_Realloc A n st) = contents st"
    using n by (auto simp: Streaming_Realloc_def Flush_def Let_def contents_def split: option.splits)
qed

lemma EnsureSpace_correct:
  assumes "stream_ok st" "0 < len" "len < 2 ^ 61"
  shows "EnsureSpace A len st = raise_fault OutOfMemory \<and> (\<exists>n\<le>2 * (w_current st + len) + w_initial st + 2 ^ 16. refused A n) \<or>
    (\<exists>st'. EnsureSpace A len st = ret st' \<and> stream_ok st' \<and> contents st' = contents st \<and> wkind st' = wkind st \<and> w_initial st' = w_initial st \<and>
       w_buffer st' \<noteq> None \<and> len \<le> Remaining st')"
proof -
  have "EnsureSpace A len st = ensure_space (Malloc_Realloc A) len st" if "wkind st \<noteq> StreamingWriteStream"
    using that by (cases "wkind st") (simp_all add: EnsureSpace_def ensure_space_def Realloc_def)
  moreover have "EnsureSpace A len st = ensure_space (Streaming_Realloc A) len st" if "wkind st = StreamingWriteStream"
    using that by (simp add: EnsureSpace_def ensure_space_def Realloc_def)
  ultimately show ?thesis
    using malloc_realloc.ensure_space_correct [OF assms(1) _ assms(2,3)]
      streaming_realloc.ensure_space_correct [OF assms(1) _ assms(2,3)]
    by (cases "wkind st = StreamingWriteStream") simp_all
qed

section \<open>Writing appends\<close>

text \<open>The allocator refuses a block that is needed to append \<open>n\<close> bytes.\<close>

definition exhausted :: "allocator \<Rightarrow> wstream \<Rightarrow> nat \<Rightarrow> bool" where
  "exhausted A st n \<longleftrightarrow> (\<exists>m\<le>2 * (length (contents st) + n + 4) + w_initial st + 2 ^ 16. refused A m)"

lemma exhausted_mono:
  assumes "exhausted A st k" "k \<le> n"
  shows "exhausted A st n"
proof -
  obtain m where m: "m \<le> 2 * (length (contents st) + k + 4) + w_initial st + 2 ^ 16" "refused A m"
    using assms(1) unfolding exhausted_def by blast
  then have "m \<le> 2 * (length (contents st) + n + 4) + w_initial st + 2 ^ 16" using assms(2) by simp
  with m(2) show ?thesis unfolding exhausted_def by blast
qed

lemma EnsureSpace_cases:
  assumes "stream_ok st" "0 < len" "len < 2 ^ 61"
  obtains (exhausted) "EnsureSpace A len st = raise_fault OutOfMemory" "\<And>n. len \<le> n + 4 \<Longrightarrow> exhausted A st n"
  | (room) st' where "EnsureSpace A len st = ret st'" "stream_ok st'" "contents st' = contents st" "wkind st' = wkind st"
    "w_initial st' = w_initial st" "w_buffer st' \<noteq> None" "len \<le> Remaining st'"
proof -
  have c: "w_current st \<le> length (contents st)"
    using assms(1) unfolding stream_ok_def contents_def by (cases "w_buffer st") simp_all
  have ex: "exhausted A st n" if m: "m \<le> 2 * (w_current st + len) + w_initial st + 2 ^ 16" "refused A m" and "len \<le> n + 4" for m n
  proof -
    have "2 * (w_current st + len) \<le> 2 * (length (contents st) + n + 4)" using c \<open>len \<le> n + 4\<close> by simp
    then have "m \<le> 2 * (length (contents st) + n + 4) + w_initial st + 2 ^ 16" using m(1) by linarith
    with m(2) show ?thesis unfolding exhausted_def by (intro exI conjI)
  qed
  from EnsureSpace_correct [OF assms, of A] show thesis
  proof (elim disjE exE conjE)
    fix m assume "EnsureSpace A len st = raise_fault OutOfMemory" "m \<le> 2 * (w_current st + len) + w_initial st + 2 ^ 16" "refused A m"
    then show thesis using ex by (intro exhausted) simp_all
  qed (rule room)
qed

text \<open>The outcome of an operation that appends bytes to the stream: unless the allocator refuses, it
  returns a well-formed stream of the same class with the bytes added.\<close>

definition appends :: "allocator \<Rightarrow> wstream \<Rightarrow> 8 word list \<Rightarrow> wstream exec \<Rightarrow> bool" where
  "appends A st bs m \<longleftrightarrow> m = raise_fault OutOfMemory \<and> exhausted A st (length bs) \<or>
     (\<exists>st'. m = ret st' \<and> stream_ok st' \<and> contents st' = contents st @ bs \<and> wkind st' = wkind st \<and> w_initial st' = w_initial st)"

lemma appends_ret: "stream_ok st \<Longrightarrow> appends A st [] (ret st)"
  by (simp add: appends_def)

lemma appends_bind:
  assumes "appends A st bs m" "\<And>st'. stream_ok st' \<Longrightarrow> appends A st' bs' (k st')"
  shows "appends A st (bs @ bs') (ebind m k)"
  using assms(1) unfolding appends_def [of _ _ bs]
proof (elim disjE exE conjE)
  fix st' assume st': "m = ret st'" "stream_ok st'" "contents st' = contents st @ bs" "wkind st' = wkind st" "w_initial st' = w_initial st"
  have "exhausted A st (length (bs @ bs'))" if "exhausted A st' (length bs')"
    using that st'(3,5) unfolding exhausted_def by (simp add: add.assoc)
  then show ?thesis using assms(2) [OF st'(2)] st' unfolding appends_def by auto
qed (auto simp: appends_def intro: exhausted_mono)

lemma store_correct:
  assumes "stream_ok st" "w_buffer st \<noteq> None" "length bs \<le> Remaining st" "n \<le> length bs"
  shows "\<exists>st'. store_bytes bs st = ret st' \<and> stream_ok (st'\<lparr>w_current := w_current st + n\<rparr>) \<and> w_current st' = w_current st \<and>
    contents (st'\<lparr>w_current := w_current st + n\<rparr>) = contents st @ take n bs \<and> wkind st' = wkind st \<and> w_initial st' = w_initial st \<and>
    w_capacity st' = w_capacity st \<and> w_buffer st' \<noteq> None \<and> w_flushed_size st' = w_flushed_size st \<and> stream_ok st'"
proof -
  obtain buf where b: "w_buffer st = Some buf" "length buf = w_capacity st"
    using assms(1,2) unfolding stream_ok_def by auto
  have c: "w_current st + length bs \<le> w_capacity st"
    using assms(1,3) unfolding stream_ok_def Remaining_def by linarith
  show ?thesis
    using assms(1,4) b c by (auto simp: store_bytes_def stream_ok_def contents_def)
qed

lemma store_advance_correct:
  assumes "stream_ok st" "w_buffer st \<noteq> None" "length bs \<le> Remaining st"
  shows "\<exists>st'. store_advance bs st = ret st' \<and> stream_ok st' \<and> contents st' = contents st @ bs \<and> wkind st' = wkind st \<and>
    w_initial st' = w_initial st \<and> w_buffer st' \<noteq> None \<and> Remaining st' = Remaining st - length bs"
  using store_correct [OF assms order_refl] by (auto simp: store_advance_def Remaining_def)

lemma WriteBytes_appends:
  assumes "stream_ok st" "length bs < 2 ^ 61"
  shows "appends A st bs (WriteBytes A bs st)"
proof (cases "bs = []")
  case False
  then have "0 < length bs" by simp
  from assms(1) this assms(2) show ?thesis
  proof (cases rule: EnsureSpace_cases [of _ _ A])
    case exhausted
    then show ?thesis using False by (simp add: WriteBytes_def appends_def)
  next
    case (room st')
    then show ?thesis using store_advance_correct [of st' bs] False by (auto simp: WriteBytes_def appends_def)
  qed
qed (simp add: WriteBytes_def appends_ret assms(1))

lemma WriteByte_appends: "stream_ok st \<Longrightarrow> appends A st [b] (WriteByte A b st)"
  using WriteBytes_appends [of st "[b]" A] by (simp add: WriteBytes_def WriteByte_def)

lemma VPrintf_appends:
  assumes "stream_ok st" "length s < 2 ^ 61 - 1"
  shows "appends A st s (VPrintf A s st)"
proof -
  have "0 < length s + 1" "length s + 1 < 2 ^ 61" using assms(2) by simp_all
  from assms(1) this show ?thesis
  proof (cases rule: EnsureSpace_cases [of _ _ A])
    case exhausted
    then show ?thesis by (simp add: VPrintf_def appends_def)
  next
    case (room st')
    then show ?thesis using store_correct [of st' "s @ [0]" "length s"] by (auto simp: VPrintf_def appends_def)
  qed
qed

lemma SetPosition_inside:
  assumes "value - (Position st - w_current st) - w_current st \<le> Remaining st" "stream_ok st"
  shows "SetPosition A value st = ret (st\<lparr>w_current := value - (Position st - w_current st)\<rparr>)"
  using assms by (cases "wkind st")
    (auto simp: SetPosition_def Base_SetPosition_def EnsureSpace_def ensure_space_def Position_def stream_ok_def)

text \<open>The non-streaming streams let the client set the position anywhere.\<close>

lemma SetPosition_correct:
  assumes "stream_ok st" "wkind st \<noteq> StreamingWriteStream" "value < 2 ^ 61"
  shows "SetPosition A value st = raise_fault OutOfMemory \<or>
    (\<exists>st'. SetPosition A value st = ret st' \<and> stream_ok st' \<and> wkind st' = wkind st \<and> Position st' = value)"
proof -
  have base: "SetPosition A value st = ebind (EnsureSpace A (value - w_current st) st) (\<lambda>st. ret (st\<lparr>w_current := value\<rparr>))"
    using assms(2) by (cases "wkind st") (simp_all add: SetPosition_def Base_SetPosition_def)
  have upd: "stream_ok (st'\<lparr>w_current := value\<rparr>) \<and> Position (st'\<lparr>w_current := value\<rparr>) = value"
    if "stream_ok st'" "wkind st' = wkind st" "value \<le> w_capacity st'" for st'
    using that assms(2) by (cases "wkind st") (auto simp: stream_ok_def Position_def split: option.splits)
  show ?thesis
  proof (cases "value \<le> w_current st")
    case True
    then have "value \<le> w_capacity st" using assms(1) unfolding stream_ok_def by simp
    then show ?thesis using True upd [OF assms(1) refl] by (simp add: base EnsureSpace_def ensure_space_def)
  next
    case False
    then have n: "0 < value - w_current st" "value - w_current st < 2 ^ 61" using assms(3) by simp_all
    have len: "w_current s = length (contents s)" if "stream_ok s" "wkind s = wkind st" for s
      using Position_output [OF that(1)] that assms(2) by (cases "wkind st") (simp_all add: Position_def)
    from assms(1) n show ?thesis
    proof (cases rule: EnsureSpace_cases [of _ _ A])
      case (room st')
      note e = room(1) and st' = room(2,3,4,7)
      have "w_current st' = w_current st" using len [OF st'(1,3)] len [OF assms(1)] st'(2) by simp
      then have "value \<le> w_capacity st'" using st'(4) False unfolding Remaining_def by linarith
      then show ?thesis using upd [OF st'(1,3)] st'(3) by (simp add: base e)
    next
      case exhausted
      then show ?thesis by (simp add: base)
    qed
  qed
qed

lemma Align_appends:
  assumes ok: "stream_ok st" and a: "k < 61" "offset < 2 ^ k" "Position st < 2 ^ 63"
  shows "appends A st (replicate (round_position (Position st) (2 ^ k) offset - Position st) 0) (Align A (2 ^ k) offset st)"
proof -
  define p where "p = round_position (Position st) (2 ^ k) offset"
  define n where "n = p - Position st"
  have k: "(2 :: nat) ^ k < 2 ^ 61" using a(1) by (rule power_strict_increasing) simp
  then have "Position st + 2 ^ k + offset < 2 ^ 64" using a(2,3) by simp
  note r = round_position_eq(2,3) [OF this _ a(2), folded p_def]
  have eq: "Align A (2 ^ k) offset st =
      (if n \<noteq> 0 then ebind (EnsureSpace A n st) (\<lambda>st. ebind (store_bytes (replicate n 0) st) (SetPosition A p)) else ret st)"
    unfolding Align_def Let_def p_def n_def ..
  have "appends A st (replicate n 0) (Align A (2 ^ k) offset st)"
  proof (cases "n = 0")
    case True
    then show ?thesis using ok by (simp add: eq appends_ret)
  next
    case False
    have n: "0 < n" "n < 2 ^ 61" "p = Position st + n" using False r a(1) k unfolding n_def by auto
    from ok n(1,2) show ?thesis
    proof (cases rule: EnsureSpace_cases [of _ _ A])
      case (room st1)
      note e = room(1) and st1 = room(2-4,6,7)
      have len: "length (replicate n (0 :: 8 word)) \<le> Remaining st1" using st1(5) by simp
      obtain st2 where s: "store_bytes (replicate n 0) st1 = ret st2" and st2: "w_current st2 = w_current st1"
        "w_capacity st2 = w_capacity st1" "wkind st2 = wkind st1" "w_flushed_size st2 = w_flushed_size st1"
        "w_initial st2 = w_initial st1"
        "stream_ok (st2\<lparr>w_current := w_current st1 + n\<rparr>)" "stream_ok st2"
        "contents (st2\<lparr>w_current := w_current st1 + n\<rparr>) = contents st1 @ replicate n 0"
        using store_correct [OF st1(1,4) len, of n] by auto
      have pos: "Position st1 = Position st" using Position_output ok st1(1,2) by simp
      then have pos2: "Position st2 = Position st" using st2 by (cases "wkind st1") (simp_all add: Position_def)
      have "w_current st2 \<le> Position st2" by (cases "wkind st2") (simp_all add: Position_def)
      then have v: "p - (Position st2 - w_current st2) = w_current st1 + n" using pos2 n(3) st2(1) by linarith
      have "SetPosition A p st2 = ret (st2\<lparr>w_current := w_current st1 + n\<rparr>)"
        using SetPosition_inside [of p st2 A] st2 st1(5) unfolding v by (simp add: Remaining_def)
      then show "appends A st (replicate n 0) (Align A (2 ^ k) offset st)"
        using e s st1 st2 False room(5) by (simp add: eq appends_def)
    next
      case exhausted
      then show ?thesis using False by (simp add: eq appends_def)
    qed
  qed
  then show ?thesis unfolding n_def p_def .
qed

end
