(* ===== verification/Stream_Codec.thy ===== *)
theory Stream_Codec
  imports Data_Stream
begin

unbundle bit_operations_syntax

text \<open>
  The integer encodings of \<open>runtime/vm/datastream.h\<close>: what each writer appends, that each reader inverts it,
  and that the unrolled readers agree with the loop.  The encodings are given as functions on integers;
  the writers and readers of the code work on words of a fixed width, and their loops stop before they
  shift by more than the width.
\<close>

section \<open>The encodings\<close>

function signed_code :: "int \<Rightarrow> 8 word list" where
  "signed_code v = (if - 64 \<le> v \<and> v \<le> 63 then [word_of_int (v + 192)]
     else word_of_int (v mod 128) # signed_code (v div 128))"
  by auto
termination
  by (relation "measure (nat \<circ> abs)") auto

function unsigned_code :: "int \<Rightarrow> 8 word list" where
  "unsigned_code v = (if v \<le> 127 then [word_of_int (v + 128)]
     else word_of_int (v mod 128) # unsigned_code (v div 128))"
  by auto
termination
  by (relation "measure nat") auto

function leb_code :: "int \<Rightarrow> 8 word list" where
  "leb_code v = (if v < 128 then [word_of_int v] else word_of_int (v mod 128 + 128) # leb_code (v div 128))"
  by auto
termination
  by (relation "measure nat") auto

function sleb_code :: "int \<Rightarrow> 8 word list" where
  "sleb_code v = (if - 64 \<le> v \<and> v \<le> 63 then [word_of_int (v mod 128)]
     else word_of_int (v mod 128 + 128) # sleb_code (v div 128))"
  by auto
termination
  by (relation "measure (nat \<circ> abs)") auto

definition ref_code :: "nat \<Rightarrow> 8 word list" where
  "ref_code x =
     (if x div 2 ^ 21 \<noteq> 0 then [of_nat (x div 2 ^ 21 mod 128)] else []) @
     (if x div 2 ^ 14 \<noteq> 0 then [of_nat (x div 2 ^ 14 mod 128)] else []) @
     (if x div 2 ^ 7 \<noteq> 0 then [of_nat (x div 2 ^ 7 mod 128)] else []) @ [of_nat (x mod 128 + 128)]"

lemmas code_simps [simp del] = signed_code.simps unsigned_code.simps leb_code.simps sleb_code.simps

lemmas stream_constants = kDataBitsPerByte_def kByteMask_def kMaxUnsignedDataPerByte_def kMinDataPerByte_def
  kEndUnsignedByteMarker_def kDataByteMask_def kMoreDataMask_def kSignMask_def

lemma data_limits [simp]: "kMaxDataPerByte = 63" "kEndByteMarker = 192" "kEndUnsignedByteMarker = 128"
  "kByteMask = 127" "kMaxUnsignedDataPerByte = 127" "kMinDataPerByte = - 64" "kDataBitsPerByte = 7"
  by (simp_all add: kMaxDataPerByte_def kEndByteMarker_def stream_constants)

section \<open>What the writers append\<close>

lemma sint_shift7: "sint (signed_drop_bit 7 v) = sint v div 128" for v :: "'a::len word"
  by (simp add: sint_signed_drop_bit_eq drop_bit_eq_div)

lemma low_bits:
  fixes v :: "'a::len word"
  assumes "8 \<le> LENGTH('a)"
  shows "ucast (v AND 127) = (word_of_int (sint v mod 128) :: 8 word)"
    "ucast (v AND 127) = (word_of_int (uint v mod 128) :: 8 word)"
proof -
  have m: "v AND 127 = take_bit 7 v" by (simp add: take_bit_eq_mask mask_eq_exp_minus_1)
  have "sint v mod 128 = take_bit 7 (sint v)" "uint v mod 128 = take_bit 7 (uint v)" by (simp_all add: take_bit_eq_mod)
  then show "ucast (v AND 127) = (word_of_int (sint v mod 128) :: 8 word)"
    "ucast (v AND 127) = (word_of_int (uint v mod 128) :: 8 word)"
    unfolding m using assms by (auto intro!: bit_word_eqI simp: bit_simps bit_sint_iff min_def split: if_splits)
qed

lemma Write_T_appends:
  fixes v :: "'a::len word"
  assumes "8 \<le> LENGTH('a)" "stream_ok st"
  shows "appends A st (signed_code (sint v)) (Write_T A v st)"
  using assms(2)
proof (induction "sint v" arbitrary: v st rule: signed_code.induct)
  case (1 v)
  show ?case
  proof (cases "- 64 \<le> sint v \<and> sint v \<le> 63")
    case True
    then show ?thesis
      using WriteByte_appends [OF 1(2), of A "word_of_int (sint v + 192)"]
      by (subst Write_T.simps, subst signed_code.simps) simp
  next
    case False
    have "appends A st ([word_of_int (sint v mod 128)] @ signed_code (sint v div 128))
        (ebind (WriteByte A (word_of_int (sint v mod 128)) st) (Write_T A (signed_drop_bit 7 v)))"
      using 1(1) [OF False, of "signed_drop_bit 7 v"] by (intro appends_bind WriteByte_appends 1(2)) (simp add: sint_shift7)
    then show ?thesis
      using False low_bits(1) [OF assms(1), of v] by (subst Write_T.simps, subst signed_code.simps) auto
  qed
qed

lemma T_value_shift: "T_value is_signed (T_shift is_signed 7 v) = T_value is_signed v div 128" for v :: "'a::len word"
proof -
  have "uint (drop_bit 7 v) = uint v div 128"
    unfolding unsigned_drop_bit_eq by (simp add: take_bit_int_eq_self drop_bit_eq_div)
  then show ?thesis by (simp add: T_value_def T_shift_def sint_shift7)
qed

lemma WriteUnsigned_appends:
  fixes v :: "'a::len word"
  assumes "8 \<le> LENGTH('a)" "stream_ok st"
  shows "appends A st (unsigned_code (T_value is_signed v)) (WriteUnsigned A is_signed v st)"
  using assms(2)
proof (induction "T_value is_signed v" arbitrary: v st rule: unsigned_code.induct)
  case (1 v)
  let ?v = "T_value is_signed v"
  show ?case
  proof (cases "?v \<le> 127")
    case True
    then show ?thesis
      using WriteByte_appends [OF 1(2), of A "word_of_int (?v + 128)"]
      by (subst WriteUnsigned.simps, subst unsigned_code.simps) simp
  next
    case False
    have "appends A st ([word_of_int (?v mod 128)] @ unsigned_code (?v div 128))
        (ebind (WriteByte A (word_of_int (?v mod 128)) st) (WriteUnsigned A is_signed (T_shift is_signed 7 v)))"
      using 1(1) [OF False, of "T_shift is_signed 7 v"] by (intro appends_bind WriteByte_appends 1(2)) (simp add: T_value_shift)
    moreover have "ucast (v AND 127) = (word_of_int (?v mod 128) :: 8 word)"
      using low_bits [OF assms(1), of v] by (simp add: T_value_def)
    ultimately show ?thesis
      using False by (subst WriteUnsigned.simps, subst unsigned_code.simps) auto
  qed
qed

lemma or_push_add:
  fixes r x :: "'a::len word"
  assumes "take_bit s r = r"
  shows "r OR push_bit s x = r + push_bit s x"
proof -
  have "take_bit s r AND push_bit s x = 0" by (intro bit_word_eqI) (auto simp: bit_simps)
  then show ?thesis unfolding assms by (rule disjunctive_add_eq_or [symmetric])
qed

lemma byte_add_mask:
  assumes "0 \<le> x" "x < 128"
  shows "word_of_int x OR (128 :: 8 word) = word_of_int (x + 128)"
proof -
  have "take_bit 7 x = x" using assms by (simp add: take_bit_int_eq_self)
  then have "take_bit 7 (word_of_int x :: 8 word) = word_of_int x"
    by (metis of_int_take_bit)
  from or_push_add [OF this, of 1] show ?thesis by simp
qed

lemma WriteLEB128_appends:
  fixes v :: "'a::len word"
  assumes "8 \<le> LENGTH('a)" "stream_ok st"
  shows "appends A st (leb_code (uint v)) (WriteLEB128 A v st)"
  using assms(2)
proof (induction "uint v" arbitrary: v st rule: leb_code.induct)
  case (1 v)
  have m: "ucast kDataByteMask = (127 :: 'a word)" by (simp add: kDataByteMask_def)
  have d: "uint (drop_bit 7 v) = uint v div 128"
    unfolding unsigned_drop_bit_eq by (simp add: take_bit_int_eq_self drop_bit_eq_div)
  have "drop_bit 7 v = 0 \<longleftrightarrow> uint (drop_bit 7 v) = 0" by (simp only: uint_0_iff)
  then have z: "drop_bit 7 v = 0 \<longleftrightarrow> uint v < 128" unfolding d using uint_ge_0 [of v] by auto
  have p: "ucast (v AND 127) = (word_of_int (uint v mod 128) :: 8 word)" by (rule low_bits [OF assms(1)])
  show ?case
  proof (cases "uint v < 128")
    case True
    then have "uint v mod 128 = uint v" by simp
    then show ?thesis
      using True WriteByte_appends [OF 1(2), of A "word_of_int (uint v)"] 
        appends_bind [of A st "[word_of_int (uint v)]" "WriteByte A (word_of_int (uint v)) st" "[]" ret] appends_ret
      by (subst WriteLEB128.simps, subst leb_code.simps) (simp add: m z p Let_def)
  next
    case False
    have "appends A st ([word_of_int (uint v mod 128 + 128)] @ leb_code (uint v div 128))
        (ebind (WriteByte A (word_of_int (uint v mod 128 + 128)) st) (WriteLEB128 A (drop_bit 7 v)))"
      using 1(1) [OF False, of "drop_bit 7 v"] by (intro appends_bind WriteByte_appends 1(2)) (simp add: d)
    then show ?thesis
      using False z p byte_add_mask [of "uint v mod 128"]
      by (subst WriteLEB128.simps, subst leb_code.simps) (simp add: m Let_def kMoreDataMask_def)
  qed
qed

text \<open>The signed loop shifts arithmetically, so that the explicit sign extension changes nothing.\<close>

lemma sleb_shift:
  fixes v :: "'a::len word"
  assumes "8 \<le> LENGTH('a)" "sint v < 0"
  shows "signed_drop_bit 7 v OR NOT (push_bit (LENGTH('a) - 7) 1 - 1) = signed_drop_bit 7 v"
proof (rule bit_word_eqI)
  fix n assume n: "n < LENGTH('a)"
  have "bit v (LENGTH('a) - 1)" using bit_last_iff [of v] assms(2) by simp
  moreover have "(push_bit (LENGTH('a) - 7) 1 - 1 :: 'a word) = mask (LENGTH('a) - 7)"
    by (simp add: mask_eq_exp_minus_1 push_bit_eq_mult)
  ultimately show "bit (signed_drop_bit 7 v OR NOT (push_bit (LENGTH('a) - 7) 1 - 1)) n = bit (signed_drop_bit 7 v) n"
    using n assms(1) by (auto simp: bit_simps bit_signed_drop_bit_iff)
qed

lemma sign_mask:
  assumes "0 \<le> x" "x < 128"
  shows "word_of_int x AND kSignMask \<noteq> 0 \<longleftrightarrow> 64 \<le> x"
proof -
  have "word_of_int x AND kSignMask \<noteq> 0 \<longleftrightarrow> bit (word_of_int x :: 8 word) 6"
    unfolding kSignMask_def bit_iff_and_push_bit_not_eq_0 [of "word_of_int x :: 8 word"] by simp
  also have "\<dots> \<longleftrightarrow> odd (x div 64)" unfolding bit_word_of_int_iff by (simp add: bit_iff_odd)
  also have "\<dots> \<longleftrightarrow> 64 \<le> x" using assms by presburger
  finally show ?thesis .
qed

lemma sleb_last:
  fixes v :: "'a::len word"
  assumes "8 \<le> LENGTH('a)"
  defines "part \<equiv> word_of_int (sint v mod 128) :: 8 word" and "v' \<equiv> signed_drop_bit 7 v"
  shows "sint v < 0 \<Longrightarrow> (v' = NOT 0 \<and> part AND kSignMask \<noteq> 0) \<longleftrightarrow> - 64 \<le> sint v \<and> sint v \<le> 63"
    and "\<not> sint v < 0 \<Longrightarrow> (v' = 0 \<and> part AND kSignMask = 0) \<longleftrightarrow> - 64 \<le> sint v \<and> sint v \<le> 63"
proof -
  have s: "sint v' = sint v div 128" unfolding v'_def by (rule sint_shift7)
  have "v' = NOT 0 \<longleftrightarrow> sint v' = - 1" "v' = 0 \<longleftrightarrow> sint v' = 0"
    by (simp_all add: word_eq_iff_signed [where 'a = int])
  moreover have k: "part AND kSignMask \<noteq> 0 \<longleftrightarrow> 64 \<le> sint v mod 128"
    unfolding part_def by (rule sign_mask) simp_all
  moreover have "part AND kSignMask = 0 \<longleftrightarrow> \<not> 64 \<le> sint v mod 128" using k by blast
  moreover have "sint v = 128 * (sint v div 128) + sint v mod 128" "0 \<le> sint v mod 128" "sint v mod 128 < 128" by simp_all
  ultimately show "sint v < 0 \<Longrightarrow> (v' = NOT 0 \<and> part AND kSignMask \<noteq> 0) \<longleftrightarrow> - 64 \<le> sint v \<and> sint v \<le> 63"
    "\<not> sint v < 0 \<Longrightarrow> (v' = 0 \<and> part AND kSignMask = 0) \<longleftrightarrow> - 64 \<le> sint v \<and> sint v \<le> 63"
    unfolding s by (simp_all only: simp_thms) presburger+
qed

lemma WriteSLEB128_appends:
  fixes v :: "'a::len word"
  assumes "8 \<le> LENGTH('a)" "stream_ok st"
  shows "appends A st (sleb_code (sint v)) (WriteSLEB128 A v st)"
  unfolding WriteSLEB128_def using assms(2)
proof (induction "sint v" arbitrary: v st rule: sleb_code.induct)
  case (1 v)
  have m: "ucast kDataByteMask = (127 :: 'a word)" by (simp add: kDataByteMask_def)
  have p: "ucast (v AND 127) = (word_of_int (sint v mod 128) :: 8 word)" by (rule low_bits [OF assms(1)])
  define part :: "8 word" where "part = word_of_int (sint v mod 128)"
  define last where "last \<longleftrightarrow> - 64 \<le> sint v \<and> sint v \<le> 63"
  have neg: "sint (signed_drop_bit 7 v) < 0 \<longleftrightarrow> sint v < 0" unfolding sint_shift7 by (simp add: pos_imp_zdiv_neg_iff)
  have eq: "sleb_write_loop A (sint v < 0) v st =
      ebind (WriteByte A (if \<not> last then part OR kMoreDataMask else part) st)
        (\<lambda>st. if last then ret st else sleb_write_loop A (sint v < 0) (signed_drop_bit 7 v) st)"
    unfolding sleb_write_loop.simps [of A _ v] Let_def m p data_limits last_def part_def
    by (cases "sint v < 0")
      (simp_all only: if_True if_False sleb_shift [OF assms(1)] sleb_last [OF assms(1), of v] not_False_eq_True)
  show ?case
  proof (cases last)
    case True
    then show ?thesis
      using WriteByte_appends [OF 1(2), of A part] appends_bind [of A st "[part]" "WriteByte A part st" "[]" ret] appends_ret
      unfolding eq by (subst sleb_code.simps) (simp add: last_def part_def)
  next
    case False
    have "appends A st ([word_of_int (sint v mod 128 + 128)] @ sleb_code (sint v div 128))
        (ebind (WriteByte A (word_of_int (sint v mod 128 + 128)) st) (sleb_write_loop A (sint v < 0) (signed_drop_bit 7 v)))"
      using 1(1) [of "signed_drop_bit 7 v"] False neg
      by (intro appends_bind WriteByte_appends 1(2)) (simp add: sint_shift7 last_def)
    then show ?thesis
      using False byte_add_mask [of "sint v mod 128"] unfolding eq
      by (subst sleb_code.simps) (auto simp: last_def part_def kMoreDataMask_def)
  qed
qed
lemma ref_part:
  fixes x :: "64 word"
  assumes "unat x < 2 ^ 28"
  shows "signed_drop_bit k x = of_nat (unat x div 2 ^ k)"
    "signed_drop_bit k x \<noteq> 0 \<longleftrightarrow> unat x div 2 ^ k \<noteq> 0"
    "ucast (signed_drop_bit k x AND 127) = (of_nat (unat x div 2 ^ k mod 128) :: 8 word)"
    "ucast ((signed_drop_bit k x AND 127) OR 128) = (of_nat (unat x div 2 ^ k mod 128 + 128) :: 8 word)"
proof -
  have "\<not> bit x 63" using assms bit_iff_odd [of "unat x" 63] by (simp add: bit_unsigned_iff)
  then have "signed_drop_bit k x = drop_bit k x"
    by (intro bit_word_eqI) (auto simp: bit_simps bit_signed_drop_bit_iff min_def not_le dest: bit_imp_le_length)
  then have s: "signed_drop_bit k x = of_nat (unat x div 2 ^ k)"
    by (simp flip: unat_drop_bit64)
  then show "signed_drop_bit k x = of_nat (unat x div 2 ^ k)" .
  have lt: "unat x div 2 ^ k < 2 ^ 64" by (rule le_less_trans [OF div_le_dividend]) (use assms in simp)
  have "signed_drop_bit k x = 0 \<longleftrightarrow> unat (signed_drop_bit k x) = 0" by (simp only: unsigned_eq_0_iff)
  then show "signed_drop_bit k x \<noteq> 0 \<longleftrightarrow> unat x div 2 ^ k \<noteq> 0" unfolding s unat_of_nat64 [OF lt] by (simp only:)
  have m: "signed_drop_bit k x AND 127 = take_bit 7 (of_nat (unat x div 2 ^ k))"
    unfolding s by (simp add: take_bit_eq_mask mask_eq_exp_minus_1)
  also have "\<dots> = of_nat (unat x div 2 ^ k mod 128)" unfolding of_nat_take_bit [symmetric] by (simp add: take_bit_eq_mod)
  finally have m: "signed_drop_bit k x AND 127 = of_nat (unat x div 2 ^ k mod 128)" .
  define y where "y = unat x div 2 ^ k mod 128"
  have y: "y < 128" unfolding y_def by simp
  have u: "ucast (of_nat z :: 64 word) = (of_nat z :: 8 word)" for z 
    by (simp add: unsigned_of_nat of_nat_take_bit take_bit_word_eq_self)
  show "ucast (signed_drop_bit k x AND 127) = (of_nat (unat x div 2 ^ k mod 128) :: 8 word)"
    unfolding m by (rule u)
  have "take_bit 7 (of_nat y :: 64 word) = of_nat y" 
    unfolding of_nat_take_bit [symmetric] using y by (simp add: take_bit_nat_eq_self)
  from or_push_add [OF this, of 1] have "of_nat y OR (128 :: 64 word) = of_nat (y + 128)" by simp
  then show "ucast ((signed_drop_bit k x AND 127) OR 128) = (of_nat (unat x div 2 ^ k mod 128 + 128) :: 8 word)"
    unfolding m y_def [symmetric] by (simp only: u)
qed

lemma store_parts:
  assumes "stream_ok st" "w_buffer st \<noteq> None" "length as \<le> Remaining st"
    and "\<And>st'. stream_ok st' \<Longrightarrow> w_buffer st' \<noteq> None \<Longrightarrow> Remaining st - length as \<le> Remaining st' \<Longrightarrow> appends A st' bs (k st')"
  shows "appends A st (as @ bs) (ebind (if as \<noteq> [] then store_advance as st else ret st) k)"
proof (cases "as = []")
  case True
  then show ?thesis using assms(4) [OF assms(1,2)] by simp
next
  case False
  obtain st' where st': "store_advance as st = ret st'" "stream_ok st'" "contents st' = contents st @ as"
    "wkind st' = wkind st" "w_initial st' = w_initial st" "w_buffer st' \<noteq> None" "Remaining st' = Remaining st - length as"
    using store_advance_correct [OF assms(1-3)] by blast
  then have k: "appends A st' bs (k st')" by (intro assms(4)) simp_all
  have "exhausted A st (length (as @ bs))" if "exhausted A st' (length bs)"
    using that st'(3,5) unfolding exhausted_def by (simp add: add.assoc)
  then show ?thesis using k st' False unfolding appends_def by auto
qed

lemma WriteRefId_appends:
  assumes "stream_ok st" "unat x < 2 ^ 28"
  shows "appends A st (ref_code (unat x)) (WriteRefId A x st)"
proof -
  define d :: "nat \<Rightarrow> 8 word list" where
    "d k = (if unat x div 2 ^ k \<noteq> 0 then [of_nat (unat x div 2 ^ k mod 128)] else [])" for k
  define e :: "8 word" where "e = of_nat (unat x mod 128 + 128)"
  have part: "(if signed_drop_bit k x \<noteq> 0 then store_advance [ucast (signed_drop_bit k x AND 127)] s else ret s) =
      (if d k \<noteq> [] then store_advance (d k) s else ret s)" for k s
    using ref_part [OF assms(2), of k] by (simp add: d_def)
  have code: "ref_code (unat x) = d 21 @ d 14 @ d 7 @ [e]" by (simp add: ref_code_def d_def e_def)
  have len: "length (d k) \<le> 1" for k by (simp add: d_def)
  have last: "appends A s [e] (store_advance [e] s)" if "stream_ok s" "w_buffer s \<noteq> None" "1 \<le> Remaining s" for s
    using store_advance_correct [OF that(1,2), of "[e]"] that(3) by (auto simp: appends_def)
  have body: "appends A s (d 21 @ d 14 @ d 7 @ [e])
      (ebind (if d 21 \<noteq> [] then store_advance (d 21) s else ret s) (\<lambda>s.
       ebind (if d 14 \<noteq> [] then store_advance (d 14) s else ret s) (\<lambda>s.
       ebind (if d 7 \<noteq> [] then store_advance (d 7) s else ret s) (store_advance [e]))))"
    if "stream_ok s" "w_buffer s \<noteq> None" "4 \<le> Remaining s" for s
    using that len [of 21] len [of 14] len [of 7] by (intro store_parts last) linarith+
  have eq: "WriteRefId A x st = ebind (EnsureSpace A 4 st) (\<lambda>s.
       ebind (if d 21 \<noteq> [] then store_advance (d 21) s else ret s) (\<lambda>s.
       ebind (if d 14 \<noteq> [] then store_advance (d 14) s else ret s) (\<lambda>s.
       ebind (if d 7 \<noteq> [] then store_advance (d 7) s else ret s) (store_advance [e]))))"
    unfolding WriteRefId_def Let_def part ref_part(4) [OF assms(2), of 0] e_def by simp
  have "0 < (4 :: nat)" "(4 :: nat) < 2 ^ 61" by simp_all
  from assms(1) this show ?thesis
  proof (cases rule: EnsureSpace_cases [of _ _ A])
    case (room s)
    then show ?thesis using body [OF room(2,6,7)] unfolding eq room(1) code by (simp add: appends_def exhausted_def)
  next
    case exhausted
    then show ?thesis by (simp add: eq appends_def)
  qed
qed

lemma WriteWordWith32BitWrites_appends:
  assumes "stream_ok st"
  shows "appends A st (signed_code (sint (ucast x :: 32 word)) @ signed_code (sint (ucast (drop_bit 32 x) :: 32 word)))
    (WriteWordWith32BitWrites A x st)"
proof -
  have m: "y AND mask 32 = y" for y :: "32 word" by (intro bit_word_eqI) (simp add: bit_simps)
  show ?thesis
    unfolding WriteWordWith32BitWrites_def Let_def m Raw_Write4_def drop_bit_0 id_apply
    by (intro appends_bind Write_T_appends assms) simp_all
qed

section \<open>What the readers return\<close>

text \<open>The bytes that remain to be read.\<close>

definition pending :: "rstream \<Rightarrow> 8 word list" where
  "pending st = drop (rpos st) (rbuf st)"

lemma pending_Advance [simp]: "pending (Advance n st) = drop n (pending st)"
  by (simp add: pending_def Advance_def add.commute)

lemma Advance_Advance [simp]: "Advance m (Advance n st) = Advance (n + m) st" "Advance 0 st = st"
  by (simp_all add: Advance_def)

lemma ReadByte_pending [simp]: "pending st = b # bs \<Longrightarrow> ReadByte st = ret (b, Advance 1 st)"
proof -
  assume p: "pending st = b # bs"
  then have "rpos st < length (rbuf st)" unfolding pending_def by (metis drop_all list.distinct(1) not_less)
  moreover from this have "rbuf st ! rpos st = b" using p unfolding pending_def by (metis hd_drop_conv_nth list.sel(1))
  ultimately show ?thesis by (simp add: ReadByte_def Advance_def)
qed

lemma ReadByte_end [simp]: "pending st = [] \<Longrightarrow> ReadByte st = raise_fault OutOfBounds"
  by (simp add: pending_def ReadByte_def)

text \<open>The two terminated encodings: all bytes but the last are below 128, and the marker of the last
  byte is 255 minus the largest value it can hold.\<close>

inductive terminated :: "int \<Rightarrow> int \<Rightarrow> 8 word list \<Rightarrow> bool" for hi where
  last_byte: "hi - 127 \<le> v \<Longrightarrow> v \<le> hi \<Longrightarrow> terminated hi v [word_of_int (v + 255 - hi)]"
| more_bytes: "\<not> (hi - 127 \<le> v \<and> v \<le> hi) \<Longrightarrow> terminated hi (v div 128) bs \<Longrightarrow>
    terminated hi v (word_of_int (v mod 128) # bs)"

lemma signed_terminated: "terminated 63 v (signed_code v)"
proof (induction v rule: signed_code.induct)
  case (1 v)
  then show ?case
    using terminated.last_byte [of 63 v] terminated.more_bytes [of 63 v "signed_code (v div 128)"]
    by (subst signed_code.simps) (auto simp: algebra_simps)
qed

lemma unsigned_terminated: "0 \<le> v \<Longrightarrow> terminated 127 v (unsigned_code v)"
proof (induction v rule: unsigned_code.induct)
  case (1 v)
  then show ?case
    using terminated.last_byte [of 127 v] terminated.more_bytes [of 127 v "unsigned_code (v div 128)"]
    by (subst unsigned_code.simps) (auto simp: pos_imp_zdiv_nonneg_iff algebra_simps)
qed

text \<open>The value fits in \<open>e\<close> bits.\<close>

definition fits :: "int \<Rightarrow> nat \<Rightarrow> int \<Rightarrow> bool" where
  "fits hi e v \<longleftrightarrow> (hi - 127) * 2 ^ e \<le> 128 * v \<and> 128 * v < (hi + 1) * 2 ^ e"

lemma fits_next:
  assumes "fits hi e v" "\<not> (hi - 127 \<le> v \<and> v \<le> hi)" "hi = 63 \<or> hi = 127"
  shows "7 < e" "fits hi (e - 7) (v div 128)"
proof -
  show e: "7 < e"
  proof (rule ccontr)
    assume "\<not> 7 < e"
    then have p: "(2 :: int) ^ e \<le> 2 ^ 7" by (intro power_increasing) simp_all
    have "(hi - 127) * 2 ^ 7 \<le> (hi - 127) * 2 ^ e" "(hi + 1) * 2 ^ e \<le> (hi + 1) * 2 ^ 7"
      using p assms(3) by (auto intro: mult_left_mono_neg mult_left_mono)
    then show False using assms(1,2) unfolding fits_def by auto
  qed
  define f where "f = e - 8"
  have f: "e = f + 8" "e - 7 = f + 1" using e unfolding f_def by simp_all
  show "fits hi (e - 7) (v div 128)"
    using assms(1,3) unfolding fits_def f by (auto simp: power_add)
qed

lemma uint_byte: "0 \<le> x \<Longrightarrow> x < 256 \<Longrightarrow> uint (word_of_int x :: 8 word) = x"
  by (simp add: uint_word_of_int_eq take_bit_int_eq_self)

lemma byte_values:
  fixes hi v :: int
  assumes "hi = 63 \<or> hi = 127"
  shows "uint (word_of_int (v mod 128) :: 8 word) = v mod 128"
    and "hi - 127 \<le> v \<Longrightarrow> v \<le> hi \<Longrightarrow> uint (word_of_int (v + 255 - hi) :: 8 word) = v + 255 - hi"
proof -
  show "uint (word_of_int (v mod 128) :: 8 word) = v mod 128"
    by (rule uint_byte) (use pos_mod_bound [of 128 v] in simp_all)
  show "uint (word_of_int (v + 255 - hi) :: 8 word) = v + 255 - hi" if "hi - 127 \<le> v" "v \<le> hi"
    by (rule uint_byte) (use that assms in auto)
qed

lemma ucast_word_of_int: "0 \<le> x \<Longrightarrow> x < 256 \<Longrightarrow> ucast (word_of_int x :: 8 word) = (word_of_int x :: 'a::len word)"
  by (simp add: unsigned_of_int take_bit_int_eq_self)

lemma or_digit:
  fixes r :: "'a::len word"
  assumes "take_bit s r = r" "0 \<le> u" "u < 128"
  shows "r OR push_bit s (ucast (word_of_int u :: 8 word)) = r + push_bit s (word_of_int u)"
    and "take_bit (s + 7) (r + push_bit s (word_of_int u)) = r + push_bit s (word_of_int u)"
proof -
  have u: "take_bit 7 u = u" using assms by (simp add: take_bit_int_eq_self)
  have "ucast (word_of_int u :: 8 word) = (word_of_int u :: 'a word)" using assms by (intro ucast_word_of_int) auto
  then show eq: "r OR push_bit s (ucast (word_of_int u :: 8 word)) = r + push_bit s (word_of_int u)"
    using or_push_add [OF assms(1)] by simp
  have "take_bit (s + 7) (take_bit s r OR push_bit s (word_of_int (take_bit 7 u))) = take_bit s r OR push_bit s (word_of_int (take_bit 7 u))"
    by (intro bit_word_eqI) (auto simp: bit_simps bit_word_of_int_iff)
  then show "take_bit (s + 7) (r + push_bit s (word_of_int u)) = r + push_bit s (word_of_int u)"
    unfolding assms(1) u using or_push_add [OF assms(1)] by simp
qed

lemma last_digit:
  fixes hi v :: int
  assumes "hi = 63 \<or> hi = 127" "hi - 127 \<le> v" "v \<le> hi"
  shows "ucast (word_of_int (v + 255 - hi) :: 8 word) - ucast (word_of_int (255 - hi) :: 8 word) = (word_of_int v :: 'a::len word)"
proof -
  have "ucast (word_of_int (v + 255 - hi) :: 8 word) = (word_of_int (v + 255 - hi) :: 'a word)"
    "ucast (word_of_int (255 - hi) :: 8 word) = (word_of_int (255 - hi) :: 'a word)"
    by (rule ucast_word_of_int, use assms in auto)+
  then show ?thesis by (simp flip: of_int_diff)
qed

lemma digit_split: "word_of_int (v mod 128) + push_bit 7 (word_of_int (v div 128)) = (word_of_int v :: 'a::len word)"
proof -
  have "word_of_int v = (word_of_int (v mod 128 + 128 * (v div 128)) :: 'a word)" by simp
  also have "\<dots> = word_of_int (v mod 128) + 128 * word_of_int (v div 128)" by (simp only: of_int_add of_int_mult of_int_numeral)
  finally show ?thesis by (simp add: push_bit_eq_mult)
qed

lemma read_loop_terminated:
  fixes r :: "'a::len word"
  assumes "terminated hi v bs" and hi: "hi = 63 \<or> hi = 127"
    and "pending st = bs @ rest" "take_bit s r = r" "0 \<le> u" "u < 128" "s + 7 < LENGTH('a)" "fits hi (LENGTH('a) - (s + 7)) v"
  shows "read_loop (word_of_int (255 - hi)) r s (word_of_int u) st =
    ret (r + push_bit s (word_of_int u) + push_bit (s + 7) (word_of_int v), Advance (length bs) st)"
  using assms(1,3-)
proof (induction arbitrary: r s u st rule: terminated.induct)
  case (last_byte v)
  note d = or_digit [OF last_byte(4-6)]
  define b m :: "8 word" where "b = word_of_int (v + 255 - hi)" and "m = word_of_int (255 - hi)"
  have "uint b = v + 255 - hi" unfolding b_def using hi last_byte(1,2) by (rule byte_values(2))
  then have "127 < uint b" using last_byte(1) by linarith
  moreover have "ucast b - ucast m = (word_of_int v :: 'a word)" unfolding b_def m_def by (rule last_digit [OF hi last_byte(1,2)])
  ultimately show ?case
    using last_byte(3,7) or_push_add [OF d(2)] unfolding b_def [symmetric] m_def [symmetric]
    by (subst read_loop.simps) (simp add: Let_def d(1))
next
  case (more_bytes v bs)
  note d = or_digit [OF more_bytes(5-7)]
  note n = fits_next [OF more_bytes(9,1) hi]
  have "LENGTH('a) - (s + 7) - 7 = LENGTH('a) - (s + 7 + 7)" by simp
  then have IH: "read_loop (word_of_int (255 - hi)) (r + push_bit s (word_of_int u)) (s + 7) (word_of_int (v mod 128)) (Advance 1 st) =
      ret (r + push_bit s (word_of_int u) + push_bit (s + 7) (word_of_int (v mod 128)) + push_bit (s + 7 + 7) (word_of_int (v div 128)),
        Advance (length bs) (Advance 1 st))"
    using more_bytes(4,8) d(2) n by (intro more_bytes.IH) auto
  have "push_bit (s + 7) (word_of_int (v mod 128)) + push_bit (s + 7 + 7) (word_of_int (v div 128)) =
      push_bit (s + 7) (word_of_int v :: 'a word)"
    using arg_cong [OF digit_split [of v], of "push_bit (s + 7)"] by (simp add: push_bit_add)
  moreover have "uint (word_of_int (v mod 128) :: 8 word) = v mod 128" by (rule byte_values(1) [OF hi])
  moreover have "v mod 128 \<le> 127" using pos_mod_bound [of 128 v] by linarith
  ultimately show ?case
    using more_bytes(4,8) IH by (subst read_loop.simps) (simp add: Let_def d(1) add.assoc)
qed

lemma Read_marker_terminated:
  assumes "terminated hi v bs" and hi: "hi = 63 \<or> hi = 127" and "pending st = bs @ rest" "fits hi LENGTH('a) v"
  shows "Read_marker (word_of_int (255 - hi)) st = ret (word_of_int v :: 'a::len word, Advance (length bs) st)"
  using assms(1)
proof cases
  case last_byte
  define b m :: "8 word" where "b = word_of_int (v + 255 - hi)" and "m = word_of_int (255 - hi)"
  have "uint b = v + 255 - hi" unfolding b_def using hi last_byte(2,3) by (rule byte_values(2))
  then have "127 < uint b" using last_byte(2) by linarith
  moreover have "ucast b - ucast m = (word_of_int v :: 'a word)" unfolding b_def m_def by (rule last_digit [OF hi last_byte(2,3)])
  ultimately show ?thesis
    using assms(3) unfolding last_byte(1) b_def [symmetric] m_def [symmetric] by (simp add: Read_marker_def)
next
  case (more_bytes bs')
  note n = fits_next [OF assms(4) more_bytes(2) hi]
  have "read_loop (word_of_int (255 - hi)) (0 :: 'a word) 0 (word_of_int (v mod 128)) (Advance 1 st) =
      ret (0 + push_bit 0 (word_of_int (v mod 128)) + push_bit (0 + 7) (word_of_int (v div 128)), Advance (length bs') (Advance 1 st))"
    using more_bytes assms(3) n hi by (intro read_loop_terminated) auto
  moreover note digit_split [where 'a = 'a, of v]
  moreover have "v mod 128 \<le> 127" using pos_mod_bound [of 128 v] by linarith
  ultimately show ?thesis
    using more_bytes assms(3) byte_values(1) [OF hi, of v] by (simp add: Read_marker_def)
qed

lemma Read_T_code:
  fixes x :: "'a::len word"
  assumes "pending st = signed_code (sint x) @ rest" "8 \<le> LENGTH('a)"
  shows "Read_T st = ret (x, Advance (length (signed_code (sint x))) st)"
proof -
  define e where "e = LENGTH('a) - 1"
  have L: "LENGTH('a) = Suc e" using assms(2) unfolding e_def by simp
  have "fits 63 LENGTH('a) (sint x)" using sint_range [of x] unfolding fits_def L by simp
  from Read_marker_terminated [OF signed_terminated _ assms(1) this] show ?thesis by (simp add: Read_T_def)
qed

lemma T_value_fits:
  fixes x :: "'a::len word"
  assumes "0 \<le> T_value is_signed x"
  shows "fits 127 LENGTH('a) (T_value is_signed x)"
proof -
  have "sint x < 2 ^ LENGTH('a)"
    by (rule less_le_trans [OF sint_range(2) [of x] power_increasing]) simp_all
  then show ?thesis using assms uint_lt2p [of x] by (auto simp: fits_def T_value_def split: if_splits)
qed

lemma ReadUnsigned_code:
  fixes x :: "'a::len word"
  assumes "pending st = unsigned_code (T_value is_signed x) @ rest" "0 \<le> T_value is_signed x"
  shows "ReadUnsigned st = ret (x, Advance (length (unsigned_code (T_value is_signed x))) st)"
proof -
  have "word_of_int (T_value is_signed x) = x" by (simp add: T_value_def)
  then show ?thesis
    using Read_marker_terminated [OF unsigned_terminated [OF assms(2)] _ assms(1) T_value_fits [OF assms(2)]]
    by (simp add: ReadUnsigned_def)
qed

section \<open>The unrolled readers\<close>

text \<open>One of the next \<open>n\<close> bytes ends the number, or the stream ends before.\<close>

definition ends_within :: "nat \<Rightarrow> rstream \<Rightarrow> bool" where
  "ends_within n st \<longleftrightarrow> length (pending st) < n \<or> (\<exists>b\<in>set (take n (pending st)). 127 < uint b)"

lemma ends_within_next:
  assumes "ends_within (Suc n) st" "pending st = b # bs" "uint b \<le> 127"
  shows "ends_within n (Advance 1 st)"
  using assms unfolding ends_within_def by auto

text \<open>The loop after the bits below \<open>s\<close> have been read.\<close>

definition read_rest :: "8 word \<Rightarrow> nat \<Rightarrow> 'a::len word \<Rightarrow> rstream \<Rightarrow> ('a word \<times> rstream) exec" where
  "read_rest m s r st =
     ebind (ReadByte st) (\<lambda>(b, st).
       if uint b \<le> 127 then read_loop m r s b st
       else if LENGTH('a) \<le> s then raise_fault BadShift
       else ret (r OR push_bit s (ucast b - ucast m), st))"

lemma read_loop_rest:
  fixes r :: "'a::len word"
  shows "s < LENGTH('a) \<Longrightarrow> read_loop m r s b st = read_rest m (s + 7) (r OR push_bit s (ucast b)) st"
  by (subst read_loop.simps) (simp add: read_rest_def Let_def)

lemma Read_marker_rest: "Read_marker m = UNROLLED_INIT m (read_rest m 7 :: 'a::len word \<Rightarrow> _)"
proof
  fix st
  show "Read_marker m st = UNROLLED_INIT m (read_rest m 7 :: 'a word \<Rightarrow> _) st"
    using read_loop_rest [of 0 m "0 :: 'a word"]
    by (cases "pending st") (simp_all add: Read_marker_def UNROLLED_INIT_def not_le)
qed

lemma read_rest_body:
  assumes "ends_within (Suc n) st" "\<And>r st. ends_within n st \<Longrightarrow> k r st = read_rest m s' r st" "s' = s + 7" "s < LENGTH('a)"
  shows "UNROLLED_BODY m s k r st = (read_rest m s r st :: ('a::len word \<times> rstream) exec)"
proof (cases "pending st")
  case (Cons b bs)
  show ?thesis
  proof (cases "uint b \<le> 127")
    case True
    then have "ends_within n (Advance 1 st)" using ends_within_next [OF assms(1) Cons] by simp
    then show ?thesis using Cons True assms(2-4) by (simp add: UNROLLED_BODY_def read_rest_def read_loop_rest)
  qed (use Cons assms(4) in \<open>simp add: UNROLLED_BODY_def read_rest_def\<close>)
qed (simp add: UNROLLED_BODY_def read_rest_def)

lemma read_rest_end:
  assumes "ends_within (Suc 0) st" "s < LENGTH('a)"
  shows "UNROLLED_END m s r st = (read_rest m s r st :: ('a::len word \<times> rstream) exec)"
  using assms by (cases "pending st") (auto simp: UNROLLED_END_def read_rest_def ends_within_def)

lemma Read_marker_init:
  assumes "ends_within (Suc n) st" "\<And>r st. ends_within n st \<Longrightarrow> k r st = read_rest m 7 r st"
  shows "UNROLLED_INIT m k st = (Read_marker m st :: ('a::len word \<times> rstream) exec)"
proof (cases "pending st")
  case (Cons b bs)
  show ?thesis
  proof (cases "uint b \<le> 127")
    case True
    then have "ends_within n (Advance 1 st)" using ends_within_next [OF assms(1) Cons] by simp
    then show ?thesis using Cons True assms(2) unfolding Read_marker_rest by (simp add: UNROLLED_INIT_def)
  qed (use Cons in \<open>simp add: UNROLLED_INIT_def Read_marker_rest\<close>)
qed (simp add: UNROLLED_INIT_def Read_marker_rest)

lemmas unrolled_rules = Read_marker_init read_rest_body read_rest_end

lemma Read16_loop: "ends_within 3 st \<Longrightarrow> Read16 m st = Read_marker m st"
proof -
  assume "ends_within 3 st"
  then have e: "ends_within (Suc (Suc (Suc 0))) st" by (simp add: numeral_eq_Suc)
  show ?thesis unfolding Read16_def by (rule Read_marker_init [OF e], (rule unrolled_rules, assumption)+) simp_all
qed

lemma Read32_loop: "ends_within 5 st \<Longrightarrow> Read32 m st = Read_marker m st"
proof -
  assume "ends_within 5 st"
  then have e: "ends_within (Suc (Suc (Suc (Suc (Suc 0))))) st" by (simp add: numeral_eq_Suc)
  show ?thesis unfolding Read32_def by (rule Read_marker_init [OF e], (rule unrolled_rules, assumption)+) simp_all
qed

lemma Read64_loop: "ends_within 10 st \<Longrightarrow> Read64 m st = Read_marker m st"
proof -
  assume "ends_within 10 st"
  then have e: "ends_within (Suc (Suc (Suc (Suc (Suc (Suc (Suc (Suc (Suc (Suc 0)))))))))) st" by (simp add: numeral_eq_Suc)
  show ?thesis unfolding Read64_def by (rule Read_marker_init [OF e], (rule unrolled_rules, assumption)+) simp_all
qed


text \<open>The encoded numbers are short enough for the unrolled readers.\<close>

lemma terminated_length:
  assumes "terminated hi v bs" "fits hi e v" "hi = 63 \<or> hi = 127" "0 < e"
  shows "7 * (length bs - 1) < e"
  using assms(1,2,4)
proof (induction arbitrary: e rule: terminated.induct)
  case (more_bytes v bs)
  note n = fits_next [OF more_bytes(4,1) assms(3)]
  have "7 * (length bs - 1) < e - 7" using more_bytes.IH [OF n(2)] n(1) by simp
  then show ?case using n(1) by (cases bs) simp_all
qed simp

lemma terminated_ends:
  assumes "terminated hi v bs" "hi = 63 \<or> hi = 127" "pending st = bs @ rest" "length bs \<le> n"
  shows "ends_within n st"
proof -
  have "\<exists>b\<in>set bs. 127 < uint b"
    using assms(1)
  proof induction
    case (last_byte v)
    then have "uint (word_of_int (v + 255 - hi) :: 8 word) = v + 255 - hi" by (rule byte_values(2) [OF assms(2)])
    then show ?case using last_byte by simp
  qed simp
  then show ?thesis using assms(3,4) by (auto simp: ends_within_def)
qed

lemma fits_sint: "fits 63 LENGTH('a) (sint (w :: 'a::len word))"
proof -
  define e where "e = LENGTH('a) - 1"
  have L: "LENGTH('a) = Suc e" unfolding e_def by simp
  show ?thesis using sint_range [of w] unfolding fits_def L by simp
qed

lemma signed_code_length: "7 * (length (signed_code (sint w)) - 1) < LENGTH('a)" for w :: "'a::len word"
  using terminated_length [OF signed_terminated fits_sint] by simp

lemma Raw_Read_code:
  shows "pending st = signed_code (sint (x :: 16 word)) @ rest \<Longrightarrow> Raw_Read2 st = ret (x, Advance (length (signed_code (sint x))) st)"
    and "pending st = signed_code (sint (y :: 32 word)) @ rest \<Longrightarrow> Raw_Read4 st = ret (y, Advance (length (signed_code (sint y))) st)"
    and "pending st = signed_code (sint (z :: 64 word)) @ rest \<Longrightarrow> Raw_Read8 st = ret (z, Advance (length (signed_code (sint z))) st)"
proof -
  note len = signed_code_length
  note ends = terminated_ends [OF signed_terminated disjI1 [OF refl]]
  show "Raw_Read2 st = ret (x, Advance (length (signed_code (sint x))) st)" if "pending st = signed_code (sint x) @ rest"
    using Read16_loop [of st] ends [OF that, of 3] len [of x] Read_T_code [OF that]
    by (simp add: Raw_Read2_def Read_T_def)
  show "Raw_Read4 st = ret (y, Advance (length (signed_code (sint y))) st)" if "pending st = signed_code (sint y) @ rest"
    using Read32_loop [of st] ends [OF that, of 5] len [of y] Read_T_code [OF that]
    by (simp add: Raw_Read4_def Read_T_def)
  show "Raw_Read8 st = ret (z, Advance (length (signed_code (sint z))) st)" if "pending st = signed_code (sint z) @ rest"
    using Read64_loop [of st] ends [OF that, of 10] len [of z] Read_T_code [OF that]
    by (simp add: Raw_Read8_def Read_T_def)
qed

section \<open>LEB128\<close>

fun digits :: "8 word list \<Rightarrow> int" where
  "digits [] = 0"
| "digits (b # bs) = uint (b AND 127) + 128 * digits bs"

fun continued :: "8 word list \<Rightarrow> bool" where
  "continued [] \<longleftrightarrow> False"
| "continued [b] \<longleftrightarrow> b AND 128 = 0"
| "continued (b # c # bs) \<longleftrightarrow> b AND 128 \<noteq> 0 \<and> continued (c # bs)"

lemma low_byte: "uint (b AND 127) = uint b mod 128" "0 \<le> uint (b AND 127)" "uint (b AND 127) < 128" for b :: "8 word"
proof -
  have "b AND 127 = take_bit 7 b" by (simp add: take_bit_eq_mask mask_eq_exp_minus_1)
  then show eq: "uint (b AND 127) = uint b mod 128" 
    by (simp only: unsigned_take_bit_eq) (simp add: take_bit_eq_mod)
  show "0 \<le> uint (b AND 127)" "uint (b AND 127) < 128" unfolding eq by simp_all
qed

lemma high_bit: "b AND 128 \<noteq> 0 \<longleftrightarrow> 128 \<le> uint b" for b :: "8 word"
proof -
  have "b AND 128 \<noteq> 0 \<longleftrightarrow> bit b 7" unfolding bit_iff_and_push_bit_not_eq_0 [of b] by simp
  also have "\<dots> \<longleftrightarrow> bit (uint b) 7" by (simp add: bit_uint_iff)
  also have "\<dots> \<longleftrightarrow> odd (uint b div 2 ^ 7)" by (rule bit_iff_odd)
  also have "\<dots> \<longleftrightarrow> 128 \<le> uint b" using uint_lt2p [of b] uint_ge_0 [of b] by (simp, presburger)
  finally show ?thesis .
qed

lemma leb_loop_digits:
  fixes r :: "'a::len word"
  assumes "continued bs" "pending st = bs @ rest" "take_bit s r = r" "s + 7 * (length bs - 1) < LENGTH('a)"
  shows "leb_loop r s st = ret (r + push_bit s (word_of_int (digits bs)), s + 7 * length bs, last bs, Advance (length bs) st) \<and>
    take_bit (s + 7 * length bs) (r + push_bit s (word_of_int (digits bs))) = r + push_bit s (word_of_int (digits bs))"
  using assms
proof (induction bs arbitrary: r s st rule: continued.induct)
  case (2 b)
  define u where "u = uint (b AND 127)"
  note d = or_digit [OF 2(3) low_byte(2,3) [of b], folded u_def]
  have "ucast (b AND 127) = (ucast (word_of_int u :: 8 word) :: 'a word)" unfolding u_def by simp
  then show ?case using 2 d by (subst leb_loop.simps) (simp add: kDataByteMask_def kMoreDataMask_def Let_def u_def [symmetric])
next
  case (3 b c bs)
  define u where "u = uint (b AND 127)"
  note d = or_digit [OF 3(4) low_byte(2,3) [of b], folded u_def]
  have e: "ucast (b AND 127) = (ucast (word_of_int u :: 8 word) :: 'a word)" unfolding u_def by simp
  let ?r = "r + push_bit s (word_of_int u)"
  have IH: "leb_loop ?r (s + 7) (Advance 1 st) = ret (?r + push_bit (s + 7) (word_of_int (digits (c # bs))),
        s + 7 + 7 * length (c # bs), last (c # bs), Advance (length (c # bs)) (Advance 1 st)) \<and>
      take_bit (s + 7 + 7 * length (c # bs)) (?r + push_bit (s + 7) (word_of_int (digits (c # bs)))) =
        ?r + push_bit (s + 7) (word_of_int (digits (c # bs)))"
    using 3(2,3,5) d(2) by (intro 3(1)) simp_all
  have sum: "?r + push_bit (s + 7) (word_of_int (digits (c # bs))) = r + push_bit s (word_of_int (digits (b # c # bs)))"
    unfolding digits.simps(2) [of b] u_def [symmetric]
    by (simp add: push_bit_eq_mult power_add algebra_simps)
  show ?case
    using 3(2,3,5) d(1) e IH unfolding sum
    by (subst leb_loop.simps) (simp add: kDataByteMask_def kMoreDataMask_def Let_def add.left_commute del: digits.simps)
qed simp

lemma leb_byte: "0 \<le> x \<Longrightarrow> x < 128 \<Longrightarrow> uint (word_of_int x AND (127 :: 8 word)) = x \<and> word_of_int x AND (128 :: 8 word) = 0"
  "0 \<le> x \<Longrightarrow> x < 128 \<Longrightarrow> uint (word_of_int (x + 128) AND (127 :: 8 word)) = x \<and> word_of_int (x + 128) AND (128 :: 8 word) \<noteq> 0"
proof -
  assume x: "0 \<le> x" "x < 128"
  have "uint (word_of_int x :: 8 word) = x" "uint (word_of_int (x + 128) :: 8 word) = x + 128"
    by (rule uint_byte, use x in simp, use x in simp)+
  then show "uint (word_of_int x AND (127 :: 8 word)) = x \<and> word_of_int x AND (128 :: 8 word) = 0"
    "uint (word_of_int (x + 128) AND (127 :: 8 word)) = x \<and> word_of_int (x + 128) AND (128 :: 8 word) \<noteq> 0"
    using x low_byte(1) [of "word_of_int x"] low_byte(1) [of "word_of_int (x + 128)"]
      high_bit [of "word_of_int x"] high_bit [of "word_of_int (x + 128)"] by (simp_all only:) auto
qed

lemma continued_more: "b AND 128 \<noteq> 0 \<Longrightarrow> continued bs \<Longrightarrow> continued (b # bs)"
  by (cases bs) simp_all

lemma leb_code_correct:
  assumes "0 \<le> v"
  shows "continued (leb_code v)" "digits (leb_code v) = v"
    and "0 < e \<Longrightarrow> v < 2 ^ e \<Longrightarrow> 7 * (length (leb_code v) - 1) < e"
proof -
  have "continued (leb_code v) \<and> digits (leb_code v) = v \<and> (\<forall>e. 0 < e \<longrightarrow> v < 2 ^ e \<longrightarrow> 7 * (length (leb_code v) - 1) < e)"
    using assms
  proof (induction v rule: leb_code.induct)
    case (1 v)
    show ?case
    proof (cases "v < 128")
      case True
      then show ?thesis using leb_byte(1) [OF 1(2) True] by (subst (1 2 3) leb_code.simps) simp
    next
      case False
      note IH = 1(1) [OF False]
      have b: "uint (word_of_int (v mod 128 + 128) AND (127 :: 8 word)) = v mod 128"
        "word_of_int (v mod 128 + 128) AND (128 :: 8 word) \<noteq> 0" using leb_byte(2) [of "v mod 128"] by auto
      have l: "7 * length (leb_code (v div 128)) < e" if "v < 2 ^ e" for e
      proof -
        have e: "7 < e"
        proof (rule ccontr)
          assume "\<not> 7 < e"
          then have "(2 :: int) ^ e \<le> 2 ^ 7" by (intro power_increasing) simp_all
          then show False using that False by simp
        qed
        define f where "f = e - 7"
        have "(2 :: int) ^ e = 2 ^ f * 128" unfolding f_def using e power_add [of "2 :: int" "e - 7" 7] by simp
        then have "v div 128 < 2 ^ f" using that by (simp add: zdiv_lt_iff)
        then have "7 * (length (leb_code (v div 128)) - 1) < f" using IH 1(2) False e unfolding f_def by auto
        then show ?thesis using IH 1(2) False e unfolding f_def by (cases "leb_code (v div 128)") auto
      qed
      show ?thesis
        using IH 1(2) False b l by (subst (1 2 3) leb_code.simps) (auto simp: continued_more)
    qed
  qed
  then show "continued (leb_code v)" "digits (leb_code v) = v"
    "0 < e \<Longrightarrow> v < 2 ^ e \<Longrightarrow> 7 * (length (leb_code v) - 1) < e" by auto
qed

lemma ReadLEB128_code:
  fixes x :: "'a::len word"
  assumes "pending st = leb_code (uint x) @ rest"
  shows "ReadLEB128 st = ret (x, Advance (length (leb_code (uint x))) st)"
proof -
  note c = leb_code_correct [OF uint_ge_0 [of x]]
  have "7 * (length (leb_code (uint x)) - 1) < LENGTH('a)" using c(3) [of "LENGTH('a)"] uint_lt2p [of x] by simp
  then show ?thesis using leb_loop_digits [OF c(1) assms, of 0 "0 :: 'a word"] c(2) by (simp add: ReadLEB128_def)
qed

lemma sleb_code_length: "length (sleb_code v) = length (signed_code v)"
proof (induction v rule: sleb_code.induct)
  case (1 v)
  then show ?case by (subst sleb_code.simps, subst signed_code.simps) simp
qed

lemma sleb_code_correct:
  "continued (sleb_code v) \<and> digits (sleb_code v) = v + (if v < 0 then 128 ^ length (sleb_code v) else 0) \<and>
   (last (sleb_code v) AND kSignMask \<noteq> 0 \<longleftrightarrow> v < 0)"
proof (induction v rule: sleb_code.induct)
  case (1 v)
  have m: "0 \<le> v mod 128" "v mod 128 < 128" by simp_all
  have v: "v = 128 * (v div 128) + v mod 128" by simp
  show ?case
  proof (cases "- 64 \<le> v \<and> v \<le> 63")
    case True
    have s: "v mod 128 = v + (if v < 0 then 128 else 0)" using True by (auto intro: int_mod_pos_eq [of v 128 "- 1"])
    have "word_of_int (v mod 128) AND kSignMask \<noteq> 0 \<longleftrightarrow> v < 0"
      using sign_mask [OF m] s True by auto
    then show ?thesis using True leb_byte(1) [OF m] s by (subst (1 2 3 4) sleb_code.simps) auto
  next
    case False
    have n: "v div 128 < 0 \<longleftrightarrow> v < 0" by (simp add: pos_imp_zdiv_neg_iff)
    note IH = 1 [OF False]
    have ne: "sleb_code (v div 128) \<noteq> []" using IH by auto
    show ?thesis
      using False IH leb_byte(2) [OF m] n ne v by (subst (1 2 3 4) sleb_code.simps) (auto simp: continued_more)
  qed
qed

lemma ReadSLEB128_code:
  fixes x :: "'a::len word"
  assumes "pending st = sleb_code (sint x) @ rest"
  shows "ReadSLEB128 st = ret (x, Advance (length (sleb_code (sint x))) st)"
proof -
  define v where "v = sint x"
  define n where "n = length (sleb_code v)"
  define r :: "'a word" where "r = word_of_int (digits (sleb_code v))"
  have c: "continued (sleb_code v)" "digits (sleb_code v) = v + (if v < 0 then 2 ^ (7 * n) else 0)"
    "last (sleb_code v) AND kSignMask \<noteq> 0 \<longleftrightarrow> v < 0"
    using sleb_code_correct [of v] unfolding n_def by (simp_all add: power_mult)
  have "7 * (n - 1) < LENGTH('a)" using signed_code_length [of x] unfolding n_def sleb_code_length v_def .
  then have loop: "leb_loop 0 0 st = ret (r, 7 * n, last (sleb_code v), Advance n st)" and t: "take_bit (7 * n) r = r"
    using leb_loop_digits [OF c(1) assms [folded v_def], of 0 "0 :: 'a word"] unfolding r_def n_def by simp_all
  have r: "r = x + (if v < 0 then 2 ^ (7 * n) else 0)" 
    using c(2) unfolding r_def by (simp add: v_def)
  have "r OR (if v < 0 \<and> 7 * n < LENGTH('a) then NOT (push_bit (7 * n) 1 - 1) else 0) = x"
  proof (cases "v < 0 \<and> 7 * n < LENGTH('a)")
    case True
    have "NOT (push_bit (7 * n) 1 - 1) = push_bit (7 * n) (- 1 :: 'a word)"
      by (simp add: push_bit_eq_mult flip: minus_eq_not_minus_1)
    then show ?thesis using True r or_push_add [OF t, of "- 1"] by (simp add: push_bit_eq_mult)
  next
    case False
    then have "(if v < 0 then 2 ^ (7 * n) else 0) = (0 :: 'a word)" by (auto simp: exp_eq_zero_iff)
    then show ?thesis using r False by auto
  qed
  then show ?thesis using loop c(3) unfolding v_def n_def by (simp add: ReadSLEB128_def Let_def)
qed

section \<open>Reference ids\<close>

lemma scast_byte:
  assumes "u < 128"
  shows "scast (of_nat u :: 8 word) = (of_nat u :: 64 word)" "scast (of_nat (u + 128) :: 8 word) = (of_nat u - 128 :: 64 word)"
proof -
  have 1: "sint (word_of_int (int u) :: 8 word) = int u" "sint (word_of_int (int u - 128) :: 8 word) = int u - 128"
    using assms by (intro sint_of_int; simp)+
  have "scast (word_of_int (int u) :: 8 word) = (word_of_int (int u) :: 64 word)"
    "scast (word_of_int (int u - 128) :: 8 word) = (word_of_int (int u - 128) :: 64 word)"
    unfolding scast_eq 1 by (rule refl)+
  then show "scast (of_nat u :: 8 word) = (of_nat u :: 64 word)" by simp
  have e: "(of_nat (u + 128) :: 8 word) = word_of_int (int u - 128)" by simp
  show "scast (of_nat (u + 128) :: 8 word) = (of_nat u - 128 :: 64 word)"
    unfolding e \<open>scast (word_of_int (int u - 128) :: 8 word) = (word_of_int (int u - 128) :: 64 word)\<close> by simp
qed

lemma ref_stage:
  assumes "u < 128"
  shows "pending st \<noteq> [] \<Longrightarrow> hd (pending st) = of_nat u \<Longrightarrow> ref_stages (Suc n) r st = ref_stages n (of_nat u + push_bit 7 r) (Advance 1 st)"
    "pending st \<noteq> [] \<Longrightarrow> hd (pending st) = of_nat (u + 128) \<Longrightarrow> ref_stages (Suc n) r st = ret (of_nat u - 128 + push_bit 7 r, Advance 1 st)"
proof -
  have "sint (word_of_int (int u) :: 64 word) = int u" "sint (word_of_int (int u - 128) :: 64 word) = int u - 128"
    using assms by (intro sint_of_int; simp)+
  then have s: "\<not> (of_nat u :: 64 word) <s 0" "(of_nat u - 128 :: 64 word) <s 0"
    using assms by (simp_all add: word_sless_alt)
  show "ref_stages (Suc n) r st = ref_stages n (of_nat u + push_bit 7 r) (Advance 1 st)" if "pending st \<noteq> []" "hd (pending st) = of_nat u"
    using that s by (cases "pending st") (simp_all add: scast_byte [OF assms])
  show "ref_stages (Suc n) r st = ret (of_nat u - 128 + push_bit 7 r, Advance 1 st)" 
    if p: "pending st \<noteq> []" "hd (pending st) = of_nat (u + 128)"
  proof -
    obtain bs where "pending st = of_nat (u + 128) # bs" using p by (cases "pending st") simp_all
    then show ?thesis
      unfolding ref_stages.simps ReadByte_pending [OF \<open>pending st = _\<close>] using s
      by (simp only: ebind_simps prod.case scast_byte [OF assms] Let_def if_True)
  qed
qed

lemma ReadRefId_code:
  assumes "pending st = ref_code (unat x) @ rest" "unat x < 2 ^ 28"
  shows "ReadRefId st = ret (x, Advance (length (ref_code (unat x))) st)"
proof -
  define y where "y = unat x"
  define a b c d where "a = y div 2 ^ 21 mod 128" and "b = y div 2 ^ 14 mod 128" and "c = y div 2 ^ 7 mod 128" and "d = y mod 128"
  have u: "a < 128" "b < 128" "c < 128" "d < 128" unfolding a_def b_def c_def d_def by simp_all
  have "y div 2 ^ 14 = y div 2 ^ 7 div 128" "y div 2 ^ 21 = y div 2 ^ 14 div 128" "y div 2 ^ 21 < 128"
    using assms(2) unfolding y_def by (simp_all add: div_mult2_eq [symmetric] less_mult_imp_div_less)
  then have y: "y = ((a * 128 + b) * 128 + c) * 128 + d"
    unfolding a_def b_def c_def d_def by simp
  have x: "x = of_nat y" unfolding y_def by simp
  have code: "ref_code y = (if y div 2 ^ 21 \<noteq> 0 then [of_nat a] else []) @ (if y div 2 ^ 14 \<noteq> 0 then [of_nat b] else []) @
      (if y div 2 ^ 7 \<noteq> 0 then [of_nat c] else []) @ [of_nat (d + 128)]"
    unfolding ref_code_def a_def b_def c_def d_def ..
  note st = ref_stage(1) [OF u(1)] ref_stage(1) [OF u(2)] ref_stage(1) [OF u(3)] ref_stage(2) [OF u(4)]
  have z: "y < 2 ^ 21 \<Longrightarrow> a = 0" "y < 2 ^ 14 \<Longrightarrow> b = 0" "y < 2 ^ 7 \<Longrightarrow> c = 0"
    unfolding a_def b_def c_def by simp_all
  have four: "ref_stages 4 = ref_stages (Suc (Suc (Suc (Suc 0))))" by (simp add: numeral_eq_Suc)
  have nz: "y div 2 ^ k = 0 \<longleftrightarrow> y < 2 ^ k" for k by (simp add: div_eq_0_iff)
  consider "2 ^ 21 \<le> y" "2 ^ 14 \<le> y" "2 ^ 7 \<le> y" | "2 ^ 14 \<le> y" "2 ^ 7 \<le> y" "y < 2 ^ 21"
    | "2 ^ 7 \<le> y" "y < 2 ^ 14" "y < 2 ^ 21" | "y < 2 ^ 7" "y < 2 ^ 14" "y < 2 ^ 21" by (cases "y < 2 ^ 21"; cases "y < 2 ^ 14"; cases "y < 2 ^ 7") simp_all
  then have "ref_stages 4 0 st = ret (of_nat (((a * 128 + b) * 128 + c) * 128 + d) - 128, Advance (length (ref_code y)) st)"
    using assms(1) unfolding y_def [symmetric] code nz four
    by cases (simp_all add: st z push_bit_eq_mult algebra_simps del: ref_stages.simps(2))
  then have "ref_stages 4 0 st = ret (of_nat y - 128, Advance (length (ref_code y)) st)" unfolding y [symmetric] .
  then show ?thesis by (simp add: ReadRefId_def y_def)
qed

end
