(* ===== verification/Stream_Roundtrip.thy ===== *)
theory Stream_Roundtrip
  imports Stream_Codec
begin

unbundle bit_operations_syntax

text \<open>
  Whole sequences of values on the byte streams of \<open>runtime/vm/datastream.h\<close>, and the properties of the
  streams: what is written is read back, the unrolled readers agree with the loop, a write stream stays
  well formed and only appends, and a streaming stream never reuses its buffer.
\<close>

lemma ReadWordWith32BitReads_code:
  fixes x :: "64 word"
  defines "lo \<equiv> signed_code (sint (ucast x :: 32 word))" and "hi \<equiv> signed_code (sint (ucast (drop_bit 32 x) :: 32 word))"
  assumes "pending st = (lo @ hi) @ rest"
  shows "ReadWordWith32BitReads st = ret (x, Advance (length (lo @ hi)) st)"
proof -
  have "Raw_Read4 st = ret (ucast x, Advance (length lo) st)"
    using Raw_Read_code(2) [of st "ucast x" "hi @ rest"] assms(3) unfolding lo_def by simp
  moreover have "Raw_Read4 (Advance (length lo) st) = ret (ucast (drop_bit 32 x), Advance (length hi) (Advance (length lo) st))"
    using Raw_Read_code(2) [of "Advance (length lo) st" "ucast (drop_bit 32 x)" rest] assms(3) unfolding hi_def by simp
  moreover have "(0 OR push_bit 0 (ucast (ucast x :: 32 word))) OR push_bit 32 (ucast (ucast (drop_bit 32 x) :: 32 word)) = x"
    by (intro bit_word_eqI) (auto simp: bit_simps)
  ultimately show ?thesis by (simp add: ReadWordWith32BitReads_def)
qed

lemma ReadBytes_code: "pending st = bs @ rest \<Longrightarrow> rpos st \<le> length (rbuf st) \<Longrightarrow> ReadBytes (length bs) st = ret (bs, Advance (length bs) st)"
proof -
  assume p: "pending st = bs @ rest" and r: "rpos st \<le> length (rbuf st)"
  have "length bs \<le> length (rbuf st) - rpos st" using arg_cong [OF p, of length] unfolding pending_def by simp
  then show ?thesis using p r unfolding pending_def ReadBytes_def by simp
qed

section \<open>Sequences of values\<close>

datatype item =
    ByteItem "8 word"
  | Int16Item "16 word"
  | Int32Item "32 word"
  | Int64Item "64 word"
  | UnsignedItem bool "64 word"
  | LebItem "64 word"
  | SlebItem "64 word"
  | RefItem "64 word"
  | WordItem "64 word"
  | BytesItem "8 word list"
  | AlignItem nat

fun write_item :: "allocator \<Rightarrow> item \<Rightarrow> wstream \<Rightarrow> wstream exec" where
  "write_item A (ByteItem x) = Raw_Write1 A x"
| "write_item A (Int16Item x) = Raw_Write2 A x"
| "write_item A (Int32Item x) = Raw_Write4 A x"
| "write_item A (Int64Item x) = Raw_Write8 A x"
| "write_item A (UnsignedItem is_signed x) = WriteUnsigned A is_signed x"
| "write_item A (LebItem x) = WriteLEB128 A x"
| "write_item A (SlebItem x) = WriteSLEB128 A x"
| "write_item A (RefItem x) = WriteRefId A x"
| "write_item A (WordItem x) = WriteWordWith32BitWrites A x"
| "write_item A (BytesItem bs) = WriteBytes A bs"
| "write_item A (AlignItem k) = Align A (2 ^ k) 0"

text \<open>Reading a value of the same sort; for raw bytes the reader knows how many there are.\<close>

fun read_item :: "item \<Rightarrow> rstream \<Rightarrow> (item \<times> rstream) exec" where
  "read_item (ByteItem _) st = ebind (Raw_Read1 st) (\<lambda>(x, st). ret (ByteItem x, st))"
| "read_item (Int16Item _) st = ebind (Raw_Read2 st) (\<lambda>(x, st). ret (Int16Item x, st))"
| "read_item (Int32Item _) st = ebind (Raw_Read4 st) (\<lambda>(x, st). ret (Int32Item x, st))"
| "read_item (Int64Item _) st = ebind (Raw_Read8 st) (\<lambda>(x, st). ret (Int64Item x, st))"
| "read_item (UnsignedItem is_signed _) st = ebind (ReadUnsigned st) (\<lambda>(x, st). ret (UnsignedItem is_signed x, st))"
| "read_item (LebItem _) st = ebind (ReadLEB128 st) (\<lambda>(x, st). ret (LebItem x, st))"
| "read_item (SlebItem _) st = ebind (ReadSLEB128 st) (\<lambda>(x, st). ret (SlebItem x, st))"
| "read_item (RefItem _) st = ebind (ReadRefId st) (\<lambda>(x, st). ret (RefItem x, st))"
| "read_item (WordItem _) st = ebind (ReadWordWith32BitReads st) (\<lambda>(x, st). ret (WordItem x, st))"
| "read_item (BytesItem bs) st = ebind (ReadBytes (length bs) st) (\<lambda>(x, st). ret (BytesItem x, st))"
| "read_item (AlignItem k) st = ret (AlignItem k, ReadStream_Align (2 ^ k) 0 st)"

fun valid_item :: "item \<Rightarrow> bool" where
  "valid_item (UnsignedItem is_signed x) \<longleftrightarrow> 0 \<le> T_value is_signed x"
| "valid_item (RefItem x) \<longleftrightarrow> unat x < 2 ^ 28"
| "valid_item (BytesItem bs) \<longleftrightarrow> length bs < 2 ^ 61"
| "valid_item (AlignItem k) \<longleftrightarrow> k < 61"
| "valid_item _ \<longleftrightarrow> True"

text \<open>The most bytes that a value can take.\<close>

fun item_size :: "item \<Rightarrow> nat" where
  "item_size (ByteItem _) = 1"
| "item_size (Int16Item _) = 3"
| "item_size (Int32Item _) = 5"
| "item_size (RefItem _) = 4"
| "item_size (BytesItem bs) = length bs"
| "item_size (AlignItem k) = 2 ^ k"
| "item_size _ = 10"

primrec write_items :: "allocator \<Rightarrow> item list \<Rightarrow> wstream \<Rightarrow> wstream exec" where
  "write_items A [] st = ret st"
| "write_items A (it # its) st = ebind (write_item A it st) (write_items A its)"

primrec read_items :: "item list \<Rightarrow> rstream \<Rightarrow> (item list \<times> rstream) exec" where
  "read_items [] st = ret ([], st)"
| "read_items (it # its) st =
     ebind (read_item it st) (\<lambda>(x, st). ebind (read_items its st) (\<lambda>(xs, st). ret (x # xs, st)))"

lemma item_roundtrip:
  assumes "stream_ok st" "wkind st \<noteq> StreamingWriteStream" "valid_item it"
  shows "\<exists>bs. length bs \<le> item_size it \<and> appends A st bs (write_item A it st) \<and>
    (\<forall>r rest. pending r = bs @ rest \<longrightarrow> rpos r = length (contents st) \<longrightarrow> rpos r \<le> length (rbuf r) \<longrightarrow>
      read_item it r = ret (it, Advance (length bs) r))"
proof (cases it)
  case (AlignItem k)
  have "Position st < 2 ^ 62" using assms(1,2) unfolding stream_ok_def Position_def by (cases "wkind st") auto
  then have p: "Position st < 2 ^ 63" by simp
  have k: "k < 61" using assms(3) AlignItem by simp
  then have "(2 :: nat) ^ k < 2 ^ 61" by (rule power_strict_increasing) simp
  then have "round_position (Position st) (2 ^ k) 0 < Position st + 2 ^ k"
    using p k by (intro round_position_eq(3)) simp_all
  moreover have "appends A st (replicate (round_position (Position st) (2 ^ k) 0 - Position st) 0) (write_item A it st)"
    using Align_appends [OF assms(1) k _ p, of 0 A] AlignItem by simp
  ultimately show ?thesis
    using AlignItem Position_output [OF assms(1)]
    by (intro exI [of _ "replicate (round_position (Position st) (2 ^ k) 0 - Position st) 0"]) (auto simp: ReadStream_Align_def Let_def)
next
  case (ByteItem x)
  then show ?thesis using WriteByte_appends [OF assms(1), of A x]
    by (intro exI [of _ "[x]"]) (auto simp: Raw_Write1_def Raw_Read1_def)
next
  case (Int16Item x)
  then show ?thesis using Write_T_appends [OF _ assms(1), of A x] Raw_Read_code(1) signed_code_length [of x]
    by (intro exI [of _ "signed_code (sint x)"]) (auto simp: Raw_Write2_def)
next
  case (Int32Item x)
  then show ?thesis using Write_T_appends [OF _ assms(1), of A x] Raw_Read_code(2) signed_code_length [of x]
    by (intro exI [of _ "signed_code (sint x)"]) (auto simp: Raw_Write4_def)
next
  case (Int64Item x)
  then show ?thesis using Write_T_appends [OF _ assms(1), of A x] Raw_Read_code(3) signed_code_length [of x]
    by (intro exI [of _ "signed_code (sint x)"]) (auto simp: Raw_Write8_def)
next
  case (UnsignedItem is_signed x)
  then have v: "0 \<le> T_value is_signed x" using assms(3) by simp
  have "fits 127 64 (T_value is_signed x)" using T_value_fits [OF v] by simp
  then show ?thesis
    using UnsignedItem v WriteUnsigned_appends [OF _ assms(1), of A is_signed x] ReadUnsigned_code [where 'a = 64]
      terminated_length [OF unsigned_terminated [OF v], of 64]
    by (intro exI [of _ "unsigned_code (T_value is_signed x)"]) auto
next
  case (LebItem x)
  then show ?thesis
    using WriteLEB128_appends [OF _ assms(1), of A x] ReadLEB128_code [where 'a = 64] leb_code_correct(3) [OF uint_ge_0 [of x], of 64] uint_lt2p [of x]
    by (intro exI [of _ "leb_code (uint x)"]) auto
next
  case (SlebItem x)
  then show ?thesis
    using WriteSLEB128_appends [OF _ assms(1), of A x] ReadSLEB128_code [where 'a = 64] signed_code_length [of x] sleb_code_length
    by (intro exI [of _ "sleb_code (sint x)"]) auto
next
  case (RefItem x)
  moreover have "length (ref_code (unat x)) \<le> 4" by (simp add: ref_code_def)
  ultimately show ?thesis using WriteRefId_appends [OF assms(1), of x A] ReadRefId_code assms(3)
    by (intro exI [of _ "ref_code (unat x)"]) auto
next
  case (WordItem x)
  have "length (signed_code (sint (w :: 32 word))) \<le> 5" for w using signed_code_length [of w] by simp
  from add_mono [OF this this, of "ucast x" "ucast (drop_bit 32 x)"]
  show ?thesis using WordItem WriteWordWith32BitWrites_appends [OF assms(1), of A x] ReadWordWith32BitReads_code
    by (intro exI [of _ "signed_code (sint (ucast x :: 32 word)) @ signed_code (sint (ucast (drop_bit 32 x) :: 32 word))"]) auto
next
  case (BytesItem bs)
  then show ?thesis using WriteBytes_appends [OF assms(1), of bs A] ReadBytes_code assms(3) by (intro exI [of _ bs]) auto
qed

lemma items_roundtrip:
  assumes "stream_ok st" "wkind st \<noteq> StreamingWriteStream" "list_all valid_item its"
  shows "write_items A its st = raise_fault OutOfMemory \<and> exhausted A st (sum_list (map item_size its)) \<or>
    (\<exists>st' bs. write_items A its st = ret st' \<and> stream_ok st' \<and> contents st' = contents st @ bs \<and>
      (\<forall>r rest. pending r = bs @ rest \<longrightarrow> rpos r = length (contents st) \<longrightarrow> rpos r \<le> length (rbuf r) \<longrightarrow>
        read_items its r = ret (its, Advance (length bs) r)))"
  using assms
proof (induction its arbitrary: st)
  case (Cons it its)
  obtain bs where len: "length bs \<le> item_size it" and bs: "appends A st bs (write_item A it st)"
    "\<And>r rest. pending r = bs @ rest \<Longrightarrow> rpos r = length (contents st) \<Longrightarrow> rpos r \<le> length (rbuf r) \<Longrightarrow>
      read_item it r = ret (it, Advance (length bs) r)"
    using item_roundtrip [OF Cons.prems(1,2), of it A] Cons.prems(3) by auto
  show ?case
  proof (cases "write_item A it st = raise_fault OutOfMemory")
    case False
    then obtain st1 where st1: "write_item A it st = ret st1" "stream_ok st1" "contents st1 = contents st @ bs" "wkind st1 = wkind st"
      "w_initial st1 = w_initial st"
      using bs(1) unfolding appends_def by auto
    note IH = Cons.IH [OF st1(2)]
    show ?thesis
    proof (cases "write_items A its st1 = raise_fault OutOfMemory")
      case False
      then obtain st2 bs' where st2: "write_items A its st1 = ret st2" "stream_ok st2" "contents st2 = contents st1 @ bs'"
        "\<And>r rest. pending r = bs' @ rest \<Longrightarrow> rpos r = length (contents st1) \<Longrightarrow> rpos r \<le> length (rbuf r) \<Longrightarrow>
          read_items its r = ret (its, Advance (length bs') r)"
        using IH Cons.prems(2,3) st1(4) by auto
      have "read_items (it # its) r = ret (it # its, Advance (length (bs @ bs')) r)"
        if r: "pending r = (bs @ bs') @ rest" "rpos r = length (contents st)" "rpos r \<le> length (rbuf r)" for r rest
      proof -
        have "length bs \<le> length (rbuf r) - rpos r" using arg_cong [OF r(1), of length] unfolding pending_def by simp
        then have "rpos r + length bs \<le> length (rbuf r)" using r(3) by linarith
        then have "read_items its (Advance (length bs) r) = ret (its, Advance (length bs') (Advance (length bs) r))"
          using r st1(3) by (intro st2(4) [of _ rest]) (simp, simp_all add: Advance_def)
        then show ?thesis using bs(2) [of r "bs' @ rest"] r by simp
      qed
      then show ?thesis using st1 st2 by (intro disjI2 exI [of _ st2] exI [of _ "bs @ bs'"]) simp
    next
      case True
      then have "exhausted A st1 (sum_list (map item_size its))" using IH Cons.prems(2,3) st1(4) by simp
      then have "exhausted A st (length bs + sum_list (map item_size its))"
        using st1(3,5) unfolding exhausted_def by (simp add: add.assoc)
      then show ?thesis using True st1(1) len by (auto elim: exhausted_mono)
    qed
  next
    case True
    then show ?thesis using bs(1) len by (auto simp: appends_def elim: exhausted_mono)
  qed
qed simp

section \<open>Properties\<close>

text \<open>C35.  What is written to a stream is read back.  Any sequence of bytes, 16-, 32- and 64-bit integers in
  the signed terminated encoding, 64-bit integers in the unsigned terminated encoding (every value of
  an unsigned type, the non-negative ones of a signed type), 64-bit LEB128 and SLEB128 numbers, reference
  ids below \<open>2 ^ 28\<close>, words in two halves, raw bytes and alignments, written to a new growable
  stream of any initial size, is either aborted because the allocator refuses a block of a size that the
  values account for, or the bytes written are read back by the matching readers, the unrolled ones
  included, as exactly the same sequence, and the reader ends at the end of the bytes.\<close>

theorem data_stream_roundtrip:
  assumes "list_all valid_item its" "0 < n" "n \<le> 2 ^ 61" "kind \<noteq> StreamingWriteStream"
  shows "write_items A its (BaseWriteStream kind n) = raise_fault OutOfMemory \<and>
      (\<exists>m\<le>2 * (sum_list (map item_size its) + n + 4) + 2 ^ 16. refused A m) \<or>
    (\<exists>st r. write_items A its (BaseWriteStream kind n) = ret st \<and> stream_ok st \<and>
      read_items its (ReadStream (contents st)) = ret (its, r) \<and> PendingBytes r = 0)"
proof -
  let ?st = "BaseWriteStream kind n"
  have k: "wkind ?st \<noteq> StreamingWriteStream" using assms(4) by (simp add: BaseWriteStream_def)
  note new = new_stream_ok [OF assms(2,3), of kind]
  from items_roundtrip [OF new(1) k assms(1), of A] show ?thesis
  proof (elim disjE exE conjE)
    fix st bs
    assume w: "write_items A its ?st = ret st" "stream_ok st" "contents st = contents ?st @ bs"
      and r: "\<forall>r rest. pending r = bs @ rest \<longrightarrow> rpos r = length (contents ?st) \<longrightarrow> rpos r \<le> length (rbuf r) \<longrightarrow>
        read_items its r = ret (its, Advance (length bs) r)"
    have "pending (ReadStream (contents st)) = bs @ []" using w(3) new(2) by (simp add: pending_def ReadStream_def)
    then have "read_items its (ReadStream (contents st)) = ret (its, Advance (length bs) (ReadStream (contents st)))"
      using r new(2) by (simp add: ReadStream_def)
    moreover have "PendingBytes (Advance (length bs) (ReadStream (contents st))) = 0"
      using w(3) new(2) by (simp add: PendingBytes_def Advance_def ReadStream_def)
    ultimately show ?thesis using w by blast
  next
    assume "write_items A its ?st = raise_fault OutOfMemory" "exhausted A ?st (sum_list (map item_size its))"
    moreover have "w_initial ?st \<le> 2 * n" by (rule new(3))
    moreover have "m \<le> 2 * (length (contents ?st) + t + 4) + w_initial ?st + 2 ^ 16 \<Longrightarrow> m \<le> 2 * (t + n + 4) + 2 ^ 16" for m t
      using calculation(3) new(2) by simp
    ultimately show ?thesis unfolding exhausted_def by blast
  qed
qed

theorem data_stream_roundtrip_witness:
  "let its = [Int64Item (- 1234567890123), RefItem 300, UnsignedItem False (- 1), UnsignedItem True 200, AlignItem 3, SlebItem (- 65), BytesItem [1, 2]];
       A = \<lparr>fails = \<lambda>_. False, junk = \<lambda>_. 0\<rparr>
   in \<exists>st r. write_items A its (BaseWriteStream MallocWriteStream 16) = ret st \<and> stream_ok st \<and>
      read_items its (ReadStream (contents st)) = ret (its, r) \<and> PendingBytes r = 0"
proof -
  let ?its = "[Int64Item (- 1234567890123), RefItem 300, UnsignedItem False (- 1), UnsignedItem True 200, AlignItem 3, SlebItem (- 65), BytesItem [1, 2]]"
  have "list_all valid_item ?its" by (simp add: T_value_def)
  then show ?thesis
    using data_stream_roundtrip [of ?its 16 MallocWriteStream "\<lparr>fails = \<lambda>_. False, junk = \<lambda>_. 0\<rparr>"]
    by (auto simp: refused_def Let_def)
qed

text \<open>C36.  The unrolled readers agree with the loop.  Whenever the number ends within the bytes that its
  width can need (3, 5 or 10), or the stream ends before, the unrolled 16-, 32- and 64-bit readers
  return the same value, consume the same bytes and fail in the same cases as the general loop, for
  every end marker.\<close>

theorem unrolled_readers_agree:
  "(ends_within 3 st \<longrightarrow> Read16 m st = Read_marker m st) \<and> (ends_within 5 st \<longrightarrow> Read32 m st = Read_marker m st) \<and>
   (ends_within 10 st \<longrightarrow> Read64 m st = Read_marker m st)"
  using Read16_loop Read32_loop Read64_loop by blast

theorem unrolled_readers_agree_witness:
  "let st = ReadStream [5, 200] in ends_within 3 st \<and> Read16 192 st = Read_marker 192 st \<and> Read64 192 st = Read_marker 192 st"
proof -
  have "ends_within 3 (ReadStream [5, 200])" "ends_within 10 (ReadStream [5, 200])"
    by (simp_all add: ends_within_def pending_def ReadStream_def)
  then show ?thesis using unrolled_readers_agree [of "ReadStream [5, 200]" 192] by simp
qed

text \<open>C37.  A write stream stays well formed and only appends.  On every well-formed stream of any of the
  three classes, each of the writing operations either throws because memory is exhausted or returns a
  well-formed stream whose contents are the old contents followed by the bytes of the operation: raw
  bytes, printed text without its terminating zero, the padding of an alignment, the bytes of a fixed-width
  value, a reference id, a word in two halves, or the encoding of an integer of any width of at least
  eight bits.  What a streaming stream has handed out when it is destroyed is everything that was
  written.\<close>

theorem write_stream_appends:
  fixes x :: "'a::len word" and w :: "64 word"
  assumes "stream_ok st" "length bs < 2 ^ 60" "8 \<le> LENGTH('a)" "LENGTH('a) < 2 ^ 60" "unat r < 2 ^ 28"
    and "k < 61" "offset < 2 ^ k" "Position st < 2 ^ 63"
  shows "appends A st [b] (WriteByte A b st) \<and> appends A st bs (WriteBytes A bs st) \<and>
    appends A st bs (WriteString A bs st) \<and> appends A st bs (VPrintf A bs st) \<and>
    appends A st (replicate (round_position (Position st) (2 ^ k) offset - Position st) 0) (Align A (2 ^ k) offset st) \<and>
    appends A st (memory_bytes x) (WriteFixed A x st) \<and> appends A st (signed_code (sint x)) (Write_T A x st) \<and>
    appends A st (unsigned_code (T_value is_signed x)) (WriteUnsigned A is_signed x st) \<and>
    appends A st (leb_code (uint x)) (WriteLEB128 A x st) \<and> appends A st (sleb_code (sint x)) (WriteSLEB128 A x st) \<and>
    appends A st (ref_code (unat r)) (WriteRefId A r st) \<and>
    appends A st (signed_code (sint (ucast w :: 32 word)) @ signed_code (sint (ucast (drop_bit 32 w) :: 32 word)))
      (WriteWordWith32BitWrites A w st) \<and>
    w_flushed (StreamingWriteStream_destroy st) = contents st"
proof -
  have len: "length bs < 2 ^ 61" "length bs < 2 ^ 61 - 1" using assms(2) by simp_all
  moreover have "length (memory_bytes x) < 2 ^ 61" using assms(4) by (simp add: memory_bytes_def)
  moreover have "w_flushed (StreamingWriteStream_destroy st) = contents st"
    by (simp add: StreamingWriteStream_destroy_def Flush_def contents_def Let_def)
  ultimately show ?thesis
    unfolding WriteString_def WriteFixed_def
    by (intro conjI WriteByte_appends WriteBytes_appends VPrintf_appends Align_appends Write_T_appends WriteUnsigned_appends
        WriteLEB128_appends WriteSLEB128_appends WriteRefId_appends WriteWordWith32BitWrites_appends assms)
qed

theorem write_stream_appends_witness:
  "let st = BaseWriteStream StreamingWriteStream 16; A = \<lparr>fails = \<lambda>_. False, junk = \<lambda>_. 0\<rparr>
   in stream_ok st \<and> appends A st [1, 2, 3] (WriteBytes A [1, 2, 3] st) \<and>
      appends A st (sleb_code (- 65)) (WriteSLEB128 A (- 65 :: 32 word) st) \<and>
      appends A st (ref_code 300) (WriteRefId A 300 st)"
proof -
  let ?st = "BaseWriteStream StreamingWriteStream 16"
  have "stream_ok ?st" by (rule new_stream_ok) simp_all
  moreover have "Position ?st = 0" by (simp add: Position_def BaseWriteStream_def)
  ultimately show ?thesis
    using write_stream_appends [of ?st "[1, 2, 3]" 300 0 0 "\<lparr>fails = \<lambda>_. False, junk = \<lambda>_. 0\<rparr>" 0 "- 65 :: 32 word" False 0]
    by (simp add: Let_def)
qed

text \<open>C38.  A streaming stream never reuses its buffer.  Whenever the room left in the buffer is too small,
  the stream hands its contents out and then still reallocates the buffer to at least twice its size,
  also when the emptied buffer would be large enough: the test for that case is never true.\<close>

theorem streaming_buffer_never_reused:
  assumes ok: "stream_ok st" and "wkind st = StreamingWriteStream" "Remaining st < len" "len < 2 ^ 61" "EnsureSpace A len st = ret st'"
  shows "w_flushed st' = contents st \<and> w_current st' = 0 \<and> 2 * w_capacity st \<le> w_capacity st' \<and> w_capacity st < w_capacity st'"
proof -
  define inc where "inc = (if w_capacity st < len then round_position len (w_initial st) 0 else w_capacity st)"
  obtain k where k: "k \<le> 62" "w_initial st = 2 ^ k" using ok unfolding stream_ok_def by blast
  have "(2 :: nat) ^ k \<le> 2 ^ 62" using k(1) by (intro power_increasing) simp_all
  then have r: "len \<le> round_position len (w_initial st) 0" "round_position len (w_initial st) 0 < len + 2 ^ 62"
    using round_position_eq(2,3) [of len k 0] k assms(4) by auto
  have cap: "w_capacity st < 2 ^ 62" using ok unfolding stream_ok_def by simp
  have inc: "w_capacity st \<le> inc" "len \<le> inc" "0 < inc" "w_capacity st + inc < 2 ^ 63"
    using r cap assms(3,4) unfolding inc_def by auto
  define n where "n = w_capacity st + inc"
  have up: "n \<le> round_position n (2 ^ 16) 0" using round_position_eq(2) [of n 16 0] inc(4) unfolding n_def by simp
  have "EnsureSpace A len st = (let s = Streaming_Realloc A n st in if w_buffer s = None then raise_fault OutOfMemory else ret s)"
    using assms(2,3) by (simp add: EnsureSpace_def ensure_space_def Realloc_def n_def inc_def Let_def)
  then have st': "st' = Streaming_Realloc A n st" "w_buffer st' \<noteq> None"
    using assms(5) by (auto simp: Let_def split: if_splits)
  moreover have "\<not> n \<le> w_capacity (Flush st)" using inc(3) by (simp add: Flush_def n_def Let_def)
  ultimately have e: "w_capacity st' = round_position n (2 ^ 16) 0" "w_current st' = 0" "w_flushed st' = w_flushed (Flush st)"
    by (auto simp: Streaming_Realloc_def Let_def split: if_splits)
  moreover have "w_flushed (Flush st) = contents st" by (simp add: Flush_def contents_def Let_def)
  ultimately show ?thesis using up inc unfolding n_def by simp
qed

theorem streaming_buffer_never_reused_witness:
  "let A = \<lparr>fails = \<lambda>_. False, junk = \<lambda>_. 0\<rparr>;
       st = (BaseWriteStream StreamingWriteStream 16)\<lparr>w_buffer := Some (replicate 65536 7), w_capacity := 65536, w_current := 65536\<rparr>
   in \<exists>st'. EnsureSpace A 1 st = ret st' \<and> 131072 \<le> w_capacity st'"
proof -
  define A where "A = \<lparr>fails = \<lambda>_. False, junk = \<lambda>_. 0 :: 8 word\<rparr>"
  define st where "st = (BaseWriteStream StreamingWriteStream 16)\<lparr>w_buffer := Some (replicate 65536 7), w_capacity := 65536, w_current := 65536\<rparr>"
  have ok: "stream_ok st" using new_stream_ok(1) [of 16 StreamingWriteStream]
    by (auto simp: stream_ok_def st_def BaseWriteStream_def)
  have c: "length (contents st) = 65536" by (simp add: contents_def st_def BaseWriteStream_def)
  have i: "w_initial st \<le> 32" using new_stream_ok(3) [of 16 StreamingWriteStream] by (simp add: st_def)
  have "0 < (1 :: nat)" "(1 :: nat) < 2 ^ 61" by simp_all
  from ok this obtain st' where "EnsureSpace A 1 st = ret st'"
  proof (cases rule: EnsureSpace_cases [of _ _ A])
    case exhausted
    then have "exhausted A st 0" by simp
    then show ?thesis using c i by (auto simp: exhausted_def refused_def A_def)
  qed (use that in blast)
  moreover from streaming_buffer_never_reused [OF ok _ _ _ this] have "2 * w_capacity st \<le> w_capacity st'"
    by (simp add: st_def BaseWriteStream_def Remaining_def)
  ultimately show ?thesis unfolding Let_def A_def [symmetric] st_def [symmetric] by (intro exI [of _ st']) (simp add: st_def)
qed

end
