(* ===== verification/Unicode_Codec.thy ===== *)
theory Unicode_Codec
  imports Dart_Utils
begin

unbundle bit_operations_syntax

text \<open>
  The UTF-8 and UTF-16 codecs of \<open>runtime/platform/unicode.h\<close>, \<open>platform/unicode.cc\<close> and \<open>vm/unicode.cc\<close>, and the
  conversions \<open>String::FromUTF8\<close> and \<open>String::ToUTF8\<close> of \<open>vm/object.cc\<close> built on them.  A code point
  (\<open>int32_t\<close> or \<open>uint32_t\<close>) is a \<open>32 word\<close>; a pointer to an array with its length is the list of the array's
  elements, and \<open>&array[i]\<close> is the rest of the list from \<open>i\<close> on.  An output array is a list that is updated
  in place; a store outside it is a fault.  Words of memory are little-endian and have 64 bits.
\<close>

section \<open>Code points\<close>

definition kMaxCodePoint :: "32 word" where "kMaxCodePoint = 0x10FFFF"
definition kReplacementChar :: "32 word" where "kReplacementChar = 0xFFFD"

definition IsOutOfRange :: "32 word \<Rightarrow> bool" where
  "IsOutOfRange code_point \<longleftrightarrow> code_point <s 0 \<or> kMaxCodePoint <s code_point"

definition kMaxOneByteChar :: "32 word" where "kMaxOneByteChar = 0x7F"
definition kMaxTwoByteChar :: "32 word" where "kMaxTwoByteChar = 0x7FF"
definition kMaxThreeByteChar :: "32 word" where "kMaxThreeByteChar = 0xFFFF"

definition IsTrailByte :: "8 word \<Rightarrow> bool" where
  "IsTrailByte code_unit \<longleftrightarrow> code_unit AND 0xC0 = 0x80"

definition kTrailBytes :: "nat list" where
  "kTrailBytes = replicate 128 1 @ replicate 64 0 @ replicate 32 2 @ replicate 16 3 @ replicate 8 4 @ replicate 4 5 @
     [6, 6, 0, 0]"

definition kMagicBits :: "32 word list" where
  "kMagicBits = [0, 0x00000000, 0x00003080, 0x000E2080, 0x03C82080, 0xFA082080, 0x82082080]"

definition kOverlongMinimum :: "32 word list" where
  "kOverlongMinimum = [0, 0x0, 0x80, 0x800, 0x10000, 0xFFFFFFFF, 0xFFFFFFFF]"

definition IsNonShortestForm :: "32 word \<Rightarrow> nat \<Rightarrow> bool" where
  "IsNonShortestForm code_point num_code_units \<longleftrightarrow> code_point < kOverlongMinimum ! num_code_units"

definition IsLatin1SequenceStart :: "8 word \<Rightarrow> bool" where
  "IsLatin1SequenceStart code_unit \<longleftrightarrow> code_unit \<le> 0xC3"

definition IsSupplementarySequenceStart :: "8 word \<Rightarrow> bool" where
  "IsSupplementarySequenceStart code_unit \<longleftrightarrow> 0xF0 \<le> code_unit"

section \<open>UTF-16 units\<close>

definition kMaxCodeUnit :: "32 word" where "kMaxCodeUnit = 0xFFFF"

definition Utf16_Length :: "32 word \<Rightarrow> nat" where
  "Utf16_Length ch = (if ch \<le>s kMaxCodeUnit then 1 else 2)"

definition IsSurrogate :: "32 word \<Rightarrow> bool" where
  "IsSurrogate ch \<longleftrightarrow> ch AND 0xFFFFF800 = 0xD800"

definition IsLeadSurrogate :: "32 word \<Rightarrow> bool" where
  "IsLeadSurrogate ch \<longleftrightarrow> ch AND 0xFFFFFC00 = 0xD800"

definition IsTrailSurrogate :: "32 word \<Rightarrow> bool" where
  "IsTrailSurrogate ch \<longleftrightarrow> ch AND 0xFFFFFC00 = 0xDC00"

definition Utf16_Decode :: "16 word \<Rightarrow> 16 word \<Rightarrow> 32 word" where
  "Utf16_Decode lead trail = 0x10000 + push_bit 10 (ucast lead AND 0x3FF) + (ucast trail AND 0x3FF)"

definition kLeadSurrogateOffset :: "32 word" where
  "kLeadSurrogateOffset = 0xD800 - drop_bit 10 0x10000"

definition Utf16_Encode :: "32 word \<Rightarrow> 16 word list" where
  "Utf16_Encode codepoint =
     [ucast (kLeadSurrogateOffset + signed_drop_bit 10 codepoint), ucast (0xDC00 + (codepoint AND 0x3FF))]"

section \<open>One code point in UTF-8\<close>

definition Utf8_Length :: "32 word \<Rightarrow> nat" where
  "Utf8_Length ch =
     (if ch \<le>s kMaxOneByteChar then 1
      else if ch \<le>s kMaxTwoByteChar then 2
      else if ch \<le>s kMaxThreeByteChar then 3
      else 4)"

text \<open>The bytes stored at \<open>dst\<close>; the returned count is their number.\<close>

definition Utf8_Encode :: "32 word \<Rightarrow> 8 word list" where
  "Utf8_Encode ch =
     (let kMask = NOT (push_bit 6 1) in
      if ch \<le>s kMaxOneByteChar then [ucast ch]
      else if ch \<le>s kMaxTwoByteChar then
        [ucast (0xC0 OR signed_drop_bit 6 ch), ucast (0x80 OR (ch AND kMask))]
      else if ch \<le>s kMaxThreeByteChar then
        [ucast (0xE0 OR signed_drop_bit 12 ch), ucast (0x80 OR (signed_drop_bit 6 ch AND kMask)),
         ucast (0x80 OR (ch AND kMask))]
      else
        [ucast (0xF0 OR signed_drop_bit 18 ch), ucast (0x80 OR (signed_drop_bit 12 ch AND kMask)),
         ucast (0x80 OR (signed_drop_bit 6 ch AND kMask)), ucast (0x80 OR (ch AND kMask))])"

text \<open>
  The loop over the trail bytes, the same in \<open>IsValid\<close> and \<open>Decode\<close>: the bytes are those from offset \<open>i\<close> on;
  \<open>None\<close> is the exit at the end of the array.
\<close>

function trail_loop :: "8 word list \<Rightarrow> nat \<Rightarrow> nat \<Rightarrow> nat \<Rightarrow> 32 word \<Rightarrow> bool \<Rightarrow> (nat \<times> 32 word \<times> bool) option" where
  "trail_loop utf8_array i num_trail_bytes j ch is_malformed =
     (if j < num_trail_bytes then
        if i + j < length utf8_array then
          let code_unit = utf8_array ! (i + j)
          in trail_loop utf8_array i num_trail_bytes (j + 1) (push_bit 6 ch + ucast code_unit)
               (is_malformed \<or> \<not> IsTrailByte code_unit)
        else None
      else Some (j, ch, is_malformed))"
  by pat_completeness auto
termination
  by (relation "measure (\<lambda>(_, _, n, j, _). n - j)") auto

declare trail_loop.simps [simp del]

definition Utf8_Decode :: "8 word list \<Rightarrow> (nat \<times> 32 word) exec" where
  "Utf8_Decode utf8_array =
     (if utf8_array = [] then raise_fault OutOfBounds
      else let ch = ucast (utf8_array ! 0) AND 0xFF in
        if 0x80 \<le> ch then
          let num_trail_bytes = kTrailBytes ! unat ch in
          (case trail_loop utf8_array 0 num_trail_bytes 1 ch False of
             None \<Rightarrow> ret (0, - 1)
           | Some (i, ch, is_malformed) \<Rightarrow>
               let ch = ch - kMagicBits ! num_trail_bytes in
               if \<not> (\<not> is_malformed \<and> i = num_trail_bytes \<and> \<not> IsOutOfRange ch \<and> \<not> IsNonShortestForm ch i)
               then ret (0, - 1)
               else ret (i, ch))
        else ret (1, ch))"

section \<open>Arrays of UTF-8\<close>

datatype Utf8_Type = kLatin1 | kBMP | kSupplementary

fun count_loop :: "8 word list \<Rightarrow> nat \<Rightarrow> Utf8_Type \<Rightarrow> nat \<times> Utf8_Type" where
  "count_loop [] len char_type = (len, char_type)"
| "count_loop (code_unit # rest) len char_type =
     (if \<not> IsTrailByte code_unit then
        let len = len + 1 in
        if \<not> IsLatin1SequenceStart code_unit then
          if IsSupplementarySequenceStart code_unit then count_loop rest (len + 1) kSupplementary
          else count_loop rest len (if char_type = kLatin1 then kBMP else char_type)
        else count_loop rest len char_type
      else count_loop rest len char_type)"

definition CodeUnitCount :: "8 word list \<Rightarrow> nat \<times> Utf8_Type" where
  "CodeUnitCount utf8_array = count_loop utf8_array 0 kLatin1"

partial_function (option) valid_loop :: "8 word list \<Rightarrow> nat \<Rightarrow> bool exec" where
  "valid_loop utf8_array i =
     (if i < length utf8_array then
        let ch = ucast (utf8_array ! i) AND 0xFF in
        if 0x80 \<le> ch then
          let num_trail_bytes = kTrailBytes ! unat ch in
          (case trail_loop utf8_array i num_trail_bytes 1 ch False of
             None \<Rightarrow> ret False
           | Some (j, ch, is_malformed) \<Rightarrow>
               let ch = ch - kMagicBits ! num_trail_bytes in
               if \<not> (\<not> is_malformed \<and> j = num_trail_bytes \<and> \<not> IsOutOfRange ch \<and> \<not> IsNonShortestForm ch j)
               then ret False
               else valid_loop utf8_array (i + j))
        else valid_loop utf8_array (i + 1)
      else ret True)"

definition IsValid :: "8 word list \<Rightarrow> bool exec" where
  "IsValid utf8_array = valid_loop utf8_array 0"

text \<open>A store of consecutive elements at \<open>&dst[j]\<close>.\<close>

definition put_at :: "'u list \<Rightarrow> nat \<Rightarrow> 'u list \<Rightarrow> 'u list exec" where
  "put_at dst j us =
     (if j + length us \<le> length dst then ret (take j dst @ us @ drop (j + length us) dst)
      else raise_fault OutOfBounds)"

partial_function (option) report_loop :: "8 word list \<Rightarrow> nat \<Rightarrow> nat \<Rightarrow> nat \<Rightarrow> nat exec" where
  "report_loop utf8_array len i j =
     (if i < length utf8_array \<and> j < len then
        let is_supplementary = IsSupplementarySequenceStart (utf8_array ! i) in
        ebind (Utf8_Decode (drop i utf8_array)) (\<lambda>(num_bytes, ch).
          if ch = - 1 then ret i
          else report_loop utf8_array len (i + num_bytes) ((if is_supplementary then j + 1 else j) + 1))
      else ret i)"

definition ReportInvalidByte :: "8 word list \<Rightarrow> nat \<Rightarrow> nat exec" where
  "ReportInvalidByte utf8_array len = report_loop utf8_array len 0 0"

partial_function (option) latin1_loop ::
  "8 word list \<Rightarrow> nat \<Rightarrow> nat \<Rightarrow> nat \<Rightarrow> 8 word list \<Rightarrow> (bool \<times> 8 word list) exec" where
  "latin1_loop utf8_array len i j dst =
     (if i < length utf8_array \<and> j < len then
        ebind (Utf8_Decode (drop i utf8_array)) (\<lambda>(num_bytes, ch).
          if ch = - 1 then ret (False, dst)
          else ebind (put_at dst j [ucast ch]) (latin1_loop utf8_array len (i + num_bytes) (j + 1)))
      else if i < length utf8_array \<and> j = len then ret (False, dst)
      else ret (True, dst))"

definition DecodeToLatin1 :: "8 word list \<Rightarrow> 8 word list \<Rightarrow> nat \<Rightarrow> (bool \<times> 8 word list) exec" where
  "DecodeToLatin1 utf8_array dst len = latin1_loop utf8_array len 0 0 dst"

partial_function (option) utf16_loop ::
  "8 word list \<Rightarrow> nat \<Rightarrow> nat \<Rightarrow> nat \<Rightarrow> 16 word list \<Rightarrow> (bool \<times> 16 word list) exec" where
  "utf16_loop utf8_array len i j dst =
     (if i < length utf8_array \<and> j < len then
        let is_supplementary = IsSupplementarySequenceStart (utf8_array ! i) in
        ebind (Utf8_Decode (drop i utf8_array)) (\<lambda>(num_bytes, ch).
          if ch = - 1 then ret (False, dst)
          else if is_supplementary then
            if j = len - 1 then ret (False, dst)
            else ebind (put_at dst j (Utf16_Encode ch)) (utf16_loop utf8_array len (i + num_bytes) (j + 1 + 1))
          else ebind (put_at dst j [ucast ch]) (utf16_loop utf8_array len (i + num_bytes) (j + 1)))
      else if i < length utf8_array \<and> j = len then ret (False, dst)
      else ret (True, dst))"

definition DecodeToUTF16 :: "8 word list \<Rightarrow> 16 word list \<Rightarrow> nat \<Rightarrow> (bool \<times> 16 word list) exec" where
  "DecodeToUTF16 utf8_array dst len = utf16_loop utf8_array len 0 0 dst"

partial_function (option) utf32_loop ::
  "8 word list \<Rightarrow> nat \<Rightarrow> nat \<Rightarrow> nat \<Rightarrow> 32 word list \<Rightarrow> (bool \<times> 32 word list) exec" where
  "utf32_loop utf8_array len i j dst =
     (if i < length utf8_array \<and> j < len then
        ebind (Utf8_Decode (drop i utf8_array)) (\<lambda>(num_bytes, ch).
          if ch = - 1 then ret (False, dst)
          else ebind (put_at dst j [ch]) (utf32_loop utf8_array len (i + num_bytes) (j + 1)))
      else if i < length utf8_array \<and> j = len then ret (False, dst)
      else ret (True, dst))"

definition DecodeToUTF32 :: "8 word list \<Rightarrow> 32 word list \<Rightarrow> nat \<Rightarrow> (bool \<times> 32 word list) exec" where
  "DecodeToUTF32 utf8_array dst len = utf32_loop utf8_array len 0 0 dst"

section \<open>Strings\<close>

text \<open>A string by its class; the external classes hold the same data outside the heap.\<close>

datatype dart_string = OneByteString "8 word list" | TwoByteString "16 word list"

fun code_units :: "dart_string \<Rightarrow> 16 word list" where
  "code_units (OneByteString bs) = map ucast bs"
| "code_units (TwoByteString us) = us"

text \<open>
  \<open>junk\<close> is what a new string contains before it is filled; the result \<open>None\<close> is the null string.
\<close>

definition String_FromUTF8 :: "(nat \<Rightarrow> 16 word) \<Rightarrow> 8 word list \<Rightarrow> dart_string option exec" where
  "String_FromUTF8 junk utf8_array =
     (let (len, type) = CodeUnitCount utf8_array in
      if type = kLatin1 then
        let strobj = map (\<lambda>k. ucast (junk k)) [0..<len] in
        if 0 < len then
          ebind (DecodeToLatin1 utf8_array strobj len) (\<lambda>(ok, strobj).
            if \<not> ok then ebind (ReportInvalidByte utf8_array len) (\<lambda>_. ret None)
            else ret (Some (OneByteString strobj)))
        else ret (Some (OneByteString strobj))
      else
        ebind (DecodeToUTF16 utf8_array (map junk [0..<len]) len) (\<lambda>(ok, strobj).
          if \<not> ok then ebind (ReportInvalidByte utf8_array len) (\<lambda>_. ret None)
          else ret (Some (TwoByteString strobj))))"

subsection \<open>The iterator over the code points\<close>

record cp_iterator =
  cp_str :: dart_string
  cp_ch :: "32 word"
  cp_index :: int
  cp_end :: int

definition CodePointIterator :: "dart_string \<Rightarrow> cp_iterator" where
  "CodePointIterator s = \<lparr>cp_str = s, cp_ch = 0, cp_index = - 1, cp_end = int (length (code_units s))\<rparr>"

definition CharAt :: "dart_string \<Rightarrow> int \<Rightarrow> 16 word exec" where
  "CharAt s index =
     (if 0 \<le> index \<and> index < int (length (code_units s)) then ret (code_units s ! nat index)
      else raise_fault OutOfBounds)"

definition CodePointIterator_Next :: "cp_iterator \<Rightarrow> (bool \<times> cp_iterator) exec" where
  "CodePointIterator_Next it =
     (let len = int (Utf16_Length (cp_ch it)) in
      if cp_index it < cp_end it - len then
        let it = it\<lparr>cp_index := cp_index it + len\<rparr> in
        ebind (CharAt (cp_str it) (cp_index it)) (\<lambda>ch.
        let it = it\<lparr>cp_ch := ucast ch\<rparr> in
        if IsLeadSurrogate (cp_ch it) \<and> cp_index it < cp_end it - 1 then
          ebind (CharAt (cp_str it) (cp_index it + 1)) (\<lambda>ch2.
            if IsTrailSurrogate (ucast ch2) then ret (True, it\<lparr>cp_ch := Utf16_Decode ch ch2\<rparr>)
            else ret (True, it))
        else ret (True, it))
      else ret (False, it\<lparr>cp_index := cp_end it\<rparr>))"

subsection \<open>The length of a string in UTF-8\<close>

definition kAsciiWordMask :: "64 word" where "kAsciiWordMask = 0x8080808080808080"

fun load_word :: "8 word list \<Rightarrow> 64 word" where
  "load_word [] = 0"
| "load_word (b # bs) = ucast b OR push_bit 8 (load_word bs)"

definition store_word :: "64 word \<Rightarrow> 8 word list" where
  "store_word w = map (\<lambda>k. ucast (drop_bit (8 * k) w)) [0..<8]"

definition count_high_bits :: "64 word \<Rightarrow> 64 word" where
  "count_high_bits chunk =
     (let chunk = chunk + drop_bit 32 chunk;
          chunk = chunk + drop_bit 16 chunk;
          chunk = chunk + drop_bit 8 chunk
      in drop_bit 7 chunk AND 0xf)"

text \<open>The pointer \<open>data\<close> moves with \<open>i\<close>: it is at the word that ends before offset \<open>i\<close>.\<close>

function length_chunks :: "8 word list \<Rightarrow> nat \<Rightarrow> nat \<Rightarrow> nat \<times> nat" where
  "length_chunks chars i len =
     (if i \<le> length chars then
        let chunk = load_word (take 8 (drop (i - 8) chars)) AND kAsciiWordMask;
            len = (if chunk \<noteq> 0 then len + unat (count_high_bits chunk) else len)
        in length_chunks chars (i + 8) len
      else (i, len))"
  by pat_completeness auto
termination
  by (relation "measure (\<lambda>(chars, i, _). Suc (length chars) - i)") auto

declare length_chunks.simps [simp del]

function length_tail :: "8 word list \<Rightarrow> nat \<Rightarrow> nat \<Rightarrow> nat" where
  "length_tail chars i len =
     (if i < length chars then
        length_tail chars (i + 1) (if kMaxOneByteChar <s ucast (chars ! i) then len + 1 else len)
      else len)"
  by pat_completeness auto
termination
  by (relation "measure (\<lambda>(chars, i, _). length chars - i)") auto

declare length_tail.simps [simp del]

partial_function (option) length_points :: "cp_iterator \<Rightarrow> nat \<Rightarrow> nat exec" where
  "length_points it len =
     ebind (CodePointIterator_Next it) (\<lambda>(more, it).
       if more then length_points it (len + Utf8_Length (cp_ch it)) else ret len)"

fun Utf8_Length_String :: "dart_string \<Rightarrow> nat exec" where
  "Utf8_Length_String (OneByteString chars) =
     (let (i, len) = length_chunks chars 8 (length chars) in ret (length_tail chars (i - 8) len))"
| "Utf8_Length_String (TwoByteString us) = length_points (CodePointIterator (TwoByteString us)) 0"

subsection \<open>Encoding a string\<close>

text \<open>\<open>Inl\<close> is the early return when the next character does not fit.\<close>

fun encode_chars :: "8 word list \<Rightarrow> nat \<Rightarrow> nat \<Rightarrow> 8 word list \<Rightarrow> ((nat \<times> 8 word list) + (nat \<times> 8 word list)) exec" where
  "encode_chars [] array_len pos dst = ret (Inr (pos, dst))"
| "encode_chars (c # p) array_len pos dst =
     (let bytes = Utf8_Length (ucast c) in
      if pos + bytes > array_len then ret (Inl (pos, dst))
      else ebind (put_at dst pos (Utf8_Encode (ucast c))) (encode_chars p array_len (pos + bytes)))"

text \<open>
  The loop over the words of a one-byte string.  Its \<open>pos\<close> is declared inside the branch and hides the one that
  the function returns at its end; only the early return gives its value.
\<close>

partial_function (option) encode_words ::
  "8 word list \<Rightarrow> nat \<Rightarrow> nat \<Rightarrow> nat \<Rightarrow> 8 word list \<Rightarrow> ((nat \<times> 8 word list) + (nat \<times> 8 word list)) exec" where
  "encode_words chars array_len i pos dst =
     (if i < length chars then
        if i + 8 \<le> length chars \<and> load_word (take 8 (drop i chars)) AND kAsciiWordMask = 0 \<and> pos + 8 \<le> array_len
        then ebind (put_at dst pos (store_word (load_word (take 8 (drop i chars)))))
               (encode_words chars array_len (i + 8) (pos + 8))
        else ebind (encode_chars (take (min 8 (length chars - i)) (drop i chars)) array_len pos dst) (\<lambda>r.
               case r of Inl early \<Rightarrow> ret (Inl early)
               | Inr (pos, dst) \<Rightarrow> encode_words chars array_len (i + 8) pos dst)
      else ret (Inr (pos, dst)))"

partial_function (option) encode_points :: "cp_iterator \<Rightarrow> nat \<Rightarrow> nat \<Rightarrow> 8 word list \<Rightarrow> (nat \<times> 8 word list) exec" where
  "encode_points it len pos dst =
     ebind (CodePointIterator_Next it) (\<lambda>(more, it).
       if more then
         let ch = (if IsSurrogate (cp_ch it) then kReplacementChar else cp_ch it);
             num_bytes = Utf8_Length ch
         in if pos + num_bytes > len then ret (pos, dst)
            else ebind (put_at dst pos (Utf8_Encode ch)) (encode_points it len (pos + num_bytes))
       else ret (pos, dst))"

fun Utf8_Encode_String :: "dart_string \<Rightarrow> 8 word list \<Rightarrow> nat \<Rightarrow> (nat \<times> 8 word list) exec" where
  "Utf8_Encode_String (OneByteString chars) dst len =
     ebind (encode_words chars len 0 0 dst) (\<lambda>r.
       case r of Inl (pos, dst) \<Rightarrow> ret (pos, dst) | Inr (_, dst) \<Rightarrow> ret (0, dst))"
| "Utf8_Encode_String (TwoByteString us) dst len = encode_points (CodePointIterator (TwoByteString us)) len 0 dst"

definition String_ToUTF8 :: "dart_string \<Rightarrow> 8 word list \<Rightarrow> nat \<Rightarrow> 8 word list exec" where
  "String_ToUTF8 s utf8_array array_len =
     ebind (Utf8_Encode_String s utf8_array array_len) (\<lambda>(_, utf8_array). ret utf8_array)"

section \<open>Bytes and code points as numbers\<close>

definition utf8_code :: "nat \<Rightarrow> 8 word list" where
  "utf8_code c =
     (if c < 0x80 then [of_nat c]
      else if c < 0x800 then [of_nat (192 + c div 64), of_nat (128 + c mod 64)]
      else if c < 0x10000 then [of_nat (224 + c div 4096), of_nat (128 + c div 64 mod 64), of_nat (128 + c mod 64)]
      else [of_nat (240 + c div 262144), of_nat (128 + c div 4096 mod 64), of_nat (128 + c div 64 mod 64),
            of_nat (128 + c mod 64)])"

lemma sint_of_nat32: "n < 2 ^ 31 \<Longrightarrow> sint (of_nat n :: 32 word) = int n"
  using sint_of_int [of "int n", where 'a = 32] by simp

lemma sle_of_nat32:
  "m < 2 ^ 31 \<Longrightarrow> n < 2 ^ 31 \<Longrightarrow> (of_nat m :: 32 word) \<le>s of_nat n \<longleftrightarrow> m \<le> n"
  by (simp add: word_sle_eq sint_of_nat32)

lemma byte_all:
  assumes "list_all (\<lambda>n. P (of_nat n)) [0..<256]"
  shows "P (b :: 8 word)"
  using assms unsigned_less [of b, where 'a = nat] unfolding list_all_upt by (auto dest!: spec [of _ "unat b"])

lemma IsTrailByte_iff: "IsTrailByte b \<longleftrightarrow> 128 \<le> unat b \<and> unat b < 192"
  by (rule byte_all [of "\<lambda>b. IsTrailByte b = (128 \<le> unat b \<and> unat b < 192)"]) code_simp

lemma kTrailBytes_nth:
  "n < 256 \<Longrightarrow> kTrailBytes ! n =
     (if n < 128 then 1 else if n < 192 then 0 else if n < 224 then 2 else if n < 240 then 3 else if n < 248 then 4
      else if n < 252 then 5 else if n < 254 then 6 else 0)"
proof -
  have "list_all (\<lambda>n. kTrailBytes ! n =
     (if n < 128 then 1 else if n < 192 then 0 else if n < 224 then 2 else if n < 240 then 3 else if n < 248 then 4
      else if n < 252 then 5 else if n < 254 then 6 else 0)) [0..<256]"
    by code_simp
  then show "n < 256 \<Longrightarrow> ?thesis"
    by (simp add: list_all_iff)
qed

lemma trail_loop_eq:
  "j \<le> n \<Longrightarrow> trail_loop bs i n j ch mal =
     (if j = n \<or> i + n \<le> length bs
      then Some (n, foldl (\<lambda>ch b. push_bit 6 ch + ucast b) ch (take (n - j) (drop (i + j) bs)),
                 mal \<or> (\<exists>b\<in>set (take (n - j) (drop (i + j) bs)). \<not> IsTrailByte b))
      else None)"
proof (induction bs i n j ch mal rule: trail_loop.induct)
  case (1 bs i n j ch mal)
  show ?case
  proof (cases "j < n \<and> i + j < length bs")
    case True
    then have "take (n - j) (drop (i + j) bs) = bs ! (i + j) # take (n - Suc j) (drop (i + Suc j) bs)"
      by (simp add: Cons_nth_drop_Suc [symmetric] take_Cons')
    then show ?thesis
      using True 1 by (subst trail_loop.simps) (auto simp: Let_def)
  qed (use 1 in \<open>auto simp: trail_loop.simps [of bs i n]\<close>)
qed

lemma trail_loop_shift: "i \<le> length bs \<Longrightarrow> trail_loop (drop i bs) 0 n j ch mal = trail_loop bs i n j ch mal"
proof (induction "drop i bs" "0 :: nat" n j ch mal rule: trail_loop.induct)
  case (1 n j ch mal)
  then show ?case
    by (subst (1 2) trail_loop.simps) (auto simp: Let_def less_diff_conv add.commute)
qed

lemma fold_bytes:
  "foldl (\<lambda>ch b. push_bit 6 ch + ucast b) (of_nat a :: 32 word) bs = of_nat (foldl (\<lambda>a b. a * 64 + unat b) a bs)"
proof (induction bs arbitrary: a)
  case (Cons b bs)
  have "push_bit 6 (of_nat a) + ucast b = (of_nat (a * 64 + unat b) :: 32 word)"
    by (simp add: push_bit_eq_mult mult.commute)
  then show ?case
    using Cons [of "a * 64 + unat b"] by simp
qed simp

lemmas fold_lead = fold_bytes [of "unat (b :: 8 word)" for b, simplified]

lemma lead_byte: "(ucast b :: 32 word) AND 0xFF = ucast (b :: 8 word)"
proof (rule bit_word_eqI)
  fix n assume "n < LENGTH(32)"
  moreover have "bit (0xFF :: 32 word) n \<longleftrightarrow> n < 8" if "n < 32"
    using that bit_mask_iff [of 8 n, where 'a = "32 word"] by (simp add: mask_eq_exp_minus_1)
  ultimately show "bit ((ucast b :: 32 word) AND 0xFF) n = bit (ucast b :: 32 word) n"
    using bit_imp_le_length [of b n] by (auto simp: bit_and_iff bit_ucast_iff)
qed

lemma unat_ucast_byte: "unat (ucast (b :: 8 word) :: 32 word) = unat b"
  using unat_of_nat32 [of "unat b"] unsigned_less [of b, where 'a = nat] by simp

lemma Utf8_Decode_ascii: "unat b < 128 \<Longrightarrow> Utf8_Decode (b # bs) = ret (1, ucast b)"
  by (simp add: Utf8_Decode_def lead_byte word_le_nat_alt unat_ucast_byte)

lemma Utf8_Decode_lead:
  assumes "128 \<le> unat b" and n: "n = kTrailBytes ! unat b"
  shows "Utf8_Decode (b # bs) =
    (if n = 0 \<or> length bs < n - 1 \<or> (\<exists>b\<in>set (take (n - 1) bs). \<not> IsTrailByte b) then ret (0, - 1)
     else let ch = of_nat (foldl (\<lambda>a b. a * 64 + unat b) (unat b) (take (n - 1) bs)) - kMagicBits ! n in
       if IsOutOfRange ch \<or> ch < kOverlongMinimum ! n then ret (0, - 1) else ret (n, ch))"
proof -
  have L: "(0x80 :: 32 word) \<le> ucast b"
    using assms(1) by (simp add: word_le_nat_alt unat_ucast_byte)
  have Z: "trail_loop (b # bs) 0 0 1 ch False = Some (1, ch, False)" for ch
    by (simp add: trail_loop.simps)
  have "0 < n \<Longrightarrow> 1 < n"
    using assms(1) n kTrailBytes_nth [of "unat b"] unsigned_less [of b, where 'a = nat] by (auto split: if_splits)
  then consider "n = 0" | "1 < n" by linarith
  then show ?thesis
  proof cases
    case 1
    then show ?thesis
      using L n Z by (simp add: Utf8_Decode_def lead_byte unat_ucast_byte)
  next
    case 2
    then have "trail_loop (b # bs) 0 n 1 ch False =
        (if length bs < n - 1 then None
         else Some (n, foldl (\<lambda>ch b. push_bit 6 ch + ucast b) ch (take (n - 1) bs), \<exists>b\<in>set (take (n - 1) bs). \<not> IsTrailByte b))" for ch
      by (auto simp: trail_loop_eq)
    then show ?thesis
      using L 2 by (simp add: Utf8_Decode_def lead_byte unat_ucast_byte fold_lead IsNonShortestForm_def Let_def flip: n)
  qed
qed

lemma IsOutOfRange_of_nat: "n < 2 ^ 31 \<Longrightarrow> IsOutOfRange (of_nat n) \<longleftrightarrow> 0x10FFFF < n"
  by (simp add: IsOutOfRange_def kMaxCodePoint_def word_sless_alt sint_of_nat32)

lemma below_of_nat32: "n < 2 ^ 32 \<Longrightarrow> (of_nat n :: 32 word) < numeral k \<longleftrightarrow> n < unat (numeral k :: 32 word)"
  by (simp add: word_less_nat_alt unat_of_nat32)

lemma Utf8_Decode_trailing:
  assumes "128 \<le> unat b" "kTrailBytes ! unat b = Suc (length ts)" "list_all IsTrailByte ts" "v < 2 ^ 31"
    and "foldl (\<lambda>a b. a * 64 + unat b) (unat b) ts = unat (kMagicBits ! Suc (length ts)) + v"
  shows "Utf8_Decode (b # ts @ rest) =
    (if 0x10FFFF < v \<or> v < unat (kOverlongMinimum ! Suc (length ts)) then ret (0, - 1) else ret (Suc (length ts), of_nat v))"
proof -
  have "of_nat (unat (kMagicBits ! Suc (length ts)) + v) - kMagicBits ! Suc (length ts) = (of_nat v :: 32 word)"
    by simp
  then show ?thesis
    using assms by (simp add: Utf8_Decode_lead IsOutOfRange_of_nat list_all_iff word_less_nat_alt unat_of_nat32 del: of_nat_add)
qed

lemma Utf8_Decode_2:
  assumes "x < 32" "y < 64"
  shows "Utf8_Decode (of_nat (192 + x) # of_nat (128 + y) # rest) =
    (if x * 64 + y < 0x80 then ret (0, - 1) else ret (2, of_nat (x * 64 + y)))"
proof -
  have "unat (of_nat (192 + x) :: 8 word) = 192 + x" "unat (of_nat (128 + y) :: 8 word) = 128 + y"
    using assms by (simp_all add: unat_of_nat8 del: of_nat_add)
  then show ?thesis
    using assms Utf8_Decode_trailing [of "of_nat (192 + x)" "[of_nat (128 + y)]" "x * 64 + y" rest]
    by (simp add: kTrailBytes_nth IsTrailByte_iff kMagicBits_def kOverlongMinimum_def del: of_nat_add of_nat_mult)
qed

lemma Utf8_Decode_3:
  assumes "x < 16" "y < 64" "z < 64"
  defines "v \<equiv> x * 4096 + y * 64 + z"
  shows "Utf8_Decode (of_nat (224 + x) # of_nat (128 + y) # of_nat (128 + z) # rest) =
    (if v < 0x800 then ret (0, - 1) else ret (3, of_nat v))"
proof -
  have "unat (of_nat (224 + x) :: 8 word) = 224 + x" "unat (of_nat (128 + y) :: 8 word) = 128 + y"
      "unat (of_nat (128 + z) :: 8 word) = 128 + z"
    using assms by (simp_all add: unat_of_nat8 del: of_nat_add)
  then show ?thesis
    using assms(1-3) Utf8_Decode_trailing [of "of_nat (224 + x)" "[of_nat (128 + y), of_nat (128 + z)]" v rest]
    by (simp add: v_def kTrailBytes_nth IsTrailByte_iff kMagicBits_def kOverlongMinimum_def del: of_nat_add of_nat_mult)
qed

lemma Utf8_Decode_4:
  assumes "x < 8" "y < 64" "z < 64" "t < 64"
  defines "v \<equiv> x * 262144 + y * 4096 + z * 64 + t"
  shows "Utf8_Decode (of_nat (240 + x) # of_nat (128 + y) # of_nat (128 + z) # of_nat (128 + t) # rest) =
    (if v < 0x10000 \<or> 0x10FFFF < v then ret (0, - 1) else ret (4, of_nat v))"
proof -
  have "unat (of_nat (240 + x) :: 8 word) = 240 + x" "unat (of_nat (128 + y) :: 8 word) = 128 + y"
      "unat (of_nat (128 + z) :: 8 word) = 128 + z" "unat (of_nat (128 + t) :: 8 word) = 128 + t"
    using assms by (simp_all add: unat_of_nat8 del: of_nat_add)
  then show ?thesis
    using assms(1-4) Utf8_Decode_trailing [of "of_nat (240 + x)" "[of_nat (128 + y), of_nat (128 + z), of_nat (128 + t)]" v rest]
    by (auto simp: v_def kTrailBytes_nth IsTrailByte_iff kMagicBits_def kOverlongMinimum_def simp del: of_nat_add of_nat_mult)
qed

lemma Utf8_Decode_bad_lead:
  assumes "(128 \<le> unat b \<and> unat b < 192) \<or> 248 \<le> unat b"
  shows "Utf8_Decode (b # bs) = ret (0, - 1)"
proof -
  have "kTrailBytes ! unat b \<in> {0, 5, 6}"
    using assms unsigned_less [of b, where 'a = nat] by (auto simp: kTrailBytes_nth)
  moreover have "IsOutOfRange ch \<or> ch < 0xFFFFFFFF" for ch
  proof (cases "ch < 0xFFFFFFFF")
    case False
    moreover have "(0xFFFFFFFF :: 32 word) = - 1"
      by simp
    ultimately have "ch = - 1"
      using word_order.extremum [of ch] by auto
    then show ?thesis
      by (simp add: IsOutOfRange_def word_sless_alt)
  qed simp
  then have "(IsOutOfRange ch \<or> ch < kOverlongMinimum ! 5) = True" "(IsOutOfRange ch \<or> ch < kOverlongMinimum ! 6) = True" for ch
    by (simp_all add: kOverlongMinimum_def)
  ultimately show ?thesis
    using assms by (auto simp only: Utf8_Decode_lead insert_iff empty_iff Let_def if_True simp_thms if_cancel)
qed

section \<open>Encoding and decoding one code point\<close>

lemma Utf8_Decode_code:
  assumes "c \<le> 0x10FFFF"
  shows "Utf8_Decode (utf8_code c @ rest) = ret (length (utf8_code c), of_nat c)"
proof -
  have d: "c div 64 * 64 + c mod 64 = c" "c div 4096 * 4096 + c div 64 mod 64 * 64 + c mod 64 = c"
      "c div 262144 * 262144 + c div 4096 mod 64 * 4096 + c div 64 mod 64 * 64 + c mod 64 = c"
    using div_mult_mod_eq [of c 64] div_mult_mod_eq [of "c div 64" 64] div_mult_mod_eq [of "c div 64 div 64" 64]
    unfolding div_mult2_eq [of c 64 64, simplified] div_mult2_eq [of c 4096 64, simplified] by linarith+
  consider "c < 0x80" | "0x80 \<le> c" "c < 0x800" | "0x800 \<le> c" "c < 0x10000" | "0x10000 \<le> c"
    by linarith
  then show ?thesis
  proof cases
    case 1
    then have "unat (of_nat c :: 8 word) = c"
      by (simp add: unat_of_nat8)
    moreover from this have "ucast (of_nat c :: 8 word) = (of_nat c :: 32 word)"
      by (metis of_nat_unat)
    ultimately show ?thesis
      using 1 Utf8_Decode_ascii [of "of_nat c" rest] by (simp add: utf8_code_def)
  next
    case 2
    then show ?thesis
      using Utf8_Decode_2 [of "c div 64" "c mod 64" rest] by (simp add: utf8_code_def d del: of_nat_add of_nat_mult)
  next
    case 3
    then show ?thesis
      using Utf8_Decode_3 [of "c div 4096" "c div 64 mod 64" "c mod 64" rest]
      by (simp add: utf8_code_def d del: of_nat_add of_nat_mult)
  next
    case 4
    then show ?thesis
      using assms Utf8_Decode_4 [of "c div 262144" "c div 4096 mod 64" "c div 64 mod 64" "c mod 64" rest]
      by (simp add: utf8_code_def d del: of_nat_add of_nat_mult)
  qed
qed

lemma trail_byteE:
  assumes "IsTrailByte b"
  obtains y where "y < 64" "b = of_nat (128 + y)"
proof
  show "unat b - 128 < 64" "b = of_nat (128 + (unat b - 128))"
    using assms by (auto simp: IsTrailByte_iff)
qed

lemma lead_byteE:
  assumes "m \<le> unat (b :: 8 word)" "unat b < m + k"
  obtains x where "x < k" "b = of_nat (m + x)"
proof
  show "unat b - m < k" "b = of_nat (m + (unat b - m))"
    using assms by auto
qed

lemma utf8_code_digits:
  "y < 64 \<Longrightarrow> 0x80 \<le> x * 64 + y \<Longrightarrow> x < 32 \<Longrightarrow> utf8_code (x * 64 + y) = [of_nat (192 + x), of_nat (128 + y)]"
  "y < 64 \<Longrightarrow> z < 64 \<Longrightarrow> 0x800 \<le> x * 4096 + y * 64 + z \<Longrightarrow> x < 16 \<Longrightarrow>
     utf8_code (x * 4096 + y * 64 + z) = [of_nat (224 + x), of_nat (128 + y), of_nat (128 + z)]"
  "y < 64 \<Longrightarrow> z < 64 \<Longrightarrow> t < 64 \<Longrightarrow> 0x10000 \<le> x * 262144 + y * 4096 + z * 64 + t \<Longrightarrow>
     utf8_code (x * 262144 + y * 4096 + z * 64 + t) = [of_nat (240 + x), of_nat (128 + y), of_nat (128 + z), of_nat (128 + t)]"
proof -
  show "y < 64 \<Longrightarrow> 0x80 \<le> x * 64 + y \<Longrightarrow> x < 32 \<Longrightarrow> utf8_code (x * 64 + y) = [of_nat (192 + x), of_nat (128 + y)]"
    by (simp add: utf8_code_def del: of_nat_add of_nat_mult)
next
  let ?v = "x * 4096 + y * 64 + z"
  assume b: "y < 64" "z < 64" "0x800 \<le> ?v" "x < 16"
  have "?v = (x * 64 + y) * 64 + z"
    by simp
  then have "?v div 64 = x * 64 + y" "?v mod 64 = z"
    using b(2) by (simp, simp only: mod_mult_self3 mod_less)
  moreover have "?v div 4096 = x"
    using b by (intro div_nat_eqI) auto
  ultimately show "utf8_code ?v = [of_nat (224 + x), of_nat (128 + y), of_nat (128 + z)]"
    using b by (simp add: utf8_code_def del: of_nat_add of_nat_mult)
next
  let ?v = "x * 262144 + y * 4096 + z * 64 + t"
  assume b: "y < 64" "z < 64" "t < 64" "0x10000 \<le> ?v"
  have "?v = ((x * 64 + y) * 64 + z) * 64 + t"
    by simp
  then have w: "?v div 64 = (x * 64 + y) * 64 + z" "?v mod 64 = t"
    using b(3) by (simp, simp only: mod_mult_self3 mod_less)
  have "?v div 64 mod 64 = z"
    unfolding w(1) using b(2) by (simp only: mod_mult_self3 mod_less)
  moreover have "?v div 262144 = x" "?v div 4096 = x * 64 + y"
    using b by (auto intro!: div_nat_eqI)
  moreover note w(2)
  ultimately show "utf8_code ?v = [of_nat (240 + x), of_nat (128 + y), of_nat (128 + z), of_nat (128 + t)]"
    using b by (simp add: utf8_code_def del: of_nat_add of_nat_mult)
qed

lemma Utf8_Decode_incomplete:
  assumes "128 \<le> unat b" "kTrailBytes ! unat b = Suc n" "\<not> (n \<le> length ts \<and> list_all IsTrailByte (take n ts))"
  shows "Utf8_Decode (b # ts) = ret (0, - 1)"
  using assms by (subst Utf8_Decode_lead) (auto simp: list_all_iff)

definition decodable :: "8 word list \<Rightarrow> bool" where
  "decodable bs \<longleftrightarrow> (\<exists>c rest. c \<le> 0x10FFFF \<and> bs = utf8_code c @ rest)"

lemma decodableI: "c \<le> 0x10FFFF \<Longrightarrow> utf8_code c = cs \<Longrightarrow> decodable (cs @ rest)"
  by (auto simp: decodable_def)

lemma decodable_2:
  assumes "192 \<le> unat b" "unat b < 192 + 32"
  shows "decodable (b # ts) \<or> Utf8_Decode (b # ts) = ret (0, - 1)"
proof (cases "1 \<le> length ts \<and> list_all IsTrailByte (take 1 ts)")
  case True
  then obtain b1 rest where "ts = b1 # rest" "IsTrailByte b1"
    by (auto simp: Suc_le_length_iff)
  moreover from this obtain x y where "x < 32" "b = of_nat (192 + x)" "y < 64" "b1 = of_nat (128 + y)"
    using lead_byteE [OF assms] trail_byteE by metis
  ultimately show ?thesis
    using decodableI [of "x * 64 + y" "[b, b1]" rest] Utf8_Decode_2 [of x y rest] utf8_code_digits(1) [of y x]
    by (auto simp del: of_nat_add of_nat_mult)
qed (use assms Utf8_Decode_incomplete [of b 1 ts] in \<open>simp add: kTrailBytes_nth\<close>)

lemma decodable_3:
  assumes "224 \<le> unat b" "unat b < 224 + 16"
  shows "decodable (b # ts) \<or> Utf8_Decode (b # ts) = ret (0, - 1)"
proof (cases "2 \<le> length ts \<and> list_all IsTrailByte (take 2 ts)")
  case True
  then obtain b1 b2 rest where "ts = b1 # b2 # rest" "IsTrailByte b1" "IsTrailByte b2"
    by (auto simp: Suc_le_length_iff numeral_2_eq_2)
  moreover from this obtain x y z where "x < 16" "b = of_nat (224 + x)" "y < 64" "b1 = of_nat (128 + y)"
      "z < 64" "b2 = of_nat (128 + z)"
    using lead_byteE [OF assms] trail_byteE by metis
  ultimately show ?thesis
    using decodableI [of "x * 4096 + y * 64 + z" "[b, b1, b2]" rest] Utf8_Decode_3 [of x y z rest]
      utf8_code_digits(2) [of y z x]
    by (auto simp del: of_nat_add of_nat_mult)
qed (use assms Utf8_Decode_incomplete [of b 2 ts] in \<open>simp add: kTrailBytes_nth\<close>)

lemma decodable_4:
  assumes "240 \<le> unat b" "unat b < 240 + 8"
  shows "decodable (b # ts) \<or> Utf8_Decode (b # ts) = ret (0, - 1)"
proof (cases "3 \<le> length ts \<and> list_all IsTrailByte (take 3 ts)")
  case True
  then obtain b1 b2 b3 rest where "ts = b1 # b2 # b3 # rest" "IsTrailByte b1" "IsTrailByte b2" "IsTrailByte b3"
    by (auto simp: Suc_le_length_iff numeral_3_eq_3)
  moreover from this obtain x y z t where "x < 8" "b = of_nat (240 + x)" "y < 64" "b1 = of_nat (128 + y)"
      "z < 64" "b2 = of_nat (128 + z)" "t < 64" "b3 = of_nat (128 + t)"
    using lead_byteE [OF assms] trail_byteE by metis
  ultimately show ?thesis
    using decodableI [of "x * 262144 + y * 4096 + z * 64 + t" "[b, b1, b2, b3]" rest] Utf8_Decode_4 [of x y z t rest]
      utf8_code_digits(3) [of y z t x]
    by (auto simp del: of_nat_add of_nat_mult)
qed (use assms Utf8_Decode_incomplete [of b 3 ts] in \<open>simp add: kTrailBytes_nth\<close>)

lemma Utf8_Decode_cases:
  assumes "bs \<noteq> []"
  obtains c rest where "c \<le> 0x10FFFF" "bs = utf8_code c @ rest" | "Utf8_Decode bs = ret (0, - 1)"
proof -
  obtain b ts where bs: "bs = b # ts"
    using assms by (cases bs) auto
  consider "unat b < 128" | "192 \<le> unat b" "unat b < 192 + 32" | "224 \<le> unat b" "unat b < 224 + 16"
    | "240 \<le> unat b" "unat b < 240 + 8" | "(128 \<le> unat b \<and> unat b < 192) \<or> 248 \<le> unat b"
    by linarith
  then have "decodable bs \<or> Utf8_Decode bs = ret (0, - 1)"
    unfolding bs
  proof cases
    case 1
    then show "decodable (b # ts) \<or> Utf8_Decode (b # ts) = ret (0, - 1)"
      using decodableI [of "unat b" "[b]" ts] by (simp add: utf8_code_def)
  qed (use decodable_2 decodable_3 decodable_4 Utf8_Decode_bad_lead in \<open>blast+\<close>)
  then show thesis
    using that by (auto simp: decodable_def)
qed

lemma signed_shift: "c < 2 ^ 31 \<Longrightarrow> signed_drop_bit k (of_nat c :: 32 word) = of_nat (c div 2 ^ k)"
proof (rule signed_word_eqI)
  assume c: "c < 2 ^ 31"
  then have "c div 2 ^ k < 2 ^ 31"
    using div_le_dividend [of c "2 ^ k"] by linarith
  then show "sint (signed_drop_bit k (of_nat c :: 32 word)) = sint (of_nat (c div 2 ^ k) :: 32 word)"
    using c by (simp add: sint_signed_drop_bit_eq sint_of_nat32 drop_bit_eq_div zdiv_int)
qed

lemma ucast_of_nat32: "ucast (of_nat c :: 32 word) = (of_nat c :: 8 word)" "ucast (of_nat c :: 32 word) = (of_nat c :: 16 word)"
  by (rule bit_word_eqI; simp add: bit_ucast_iff bit_of_nat_iff)+

lemma byte_mask: "(4294967231 :: 8 word) = 191"
  by simp

lemma encoded_trail: "(ucast (0x80 OR ((of_nat c :: 32 word) AND NOT (push_bit 6 1))) :: 8 word) = of_nat (128 + c mod 64)"
proof -
  have "(ucast (0x80 OR ((of_nat c :: 32 word) AND NOT (push_bit 6 1))) :: 8 word) = 0x80 OR (of_nat c AND 0xBF)"
    by (simp add: unsigned_or_eq unsigned_and_eq ucast_of_nat32, simp only: byte_mask)
  also have "\<dots> = of_nat (128 + unat (of_nat c :: 8 word) mod 64)"
    by (rule byte_all [of "\<lambda>b. 0x80 OR (b AND 0xBF) = of_nat (128 + unat b mod 64)"]) code_simp
  also have "unat (of_nat c :: 8 word) mod 64 = c mod 64"
    by (simp add: unsigned_of_nat take_bit_eq_mod mod_mod_cancel)
  finally show ?thesis .
qed

lemma encoded_lead:
  "x < 32 \<Longrightarrow> (ucast (0xC0 OR of_nat x :: 32 word) :: 8 word) = of_nat (192 + x)"
  "x < 16 \<Longrightarrow> (ucast (0xE0 OR of_nat x :: 32 word) :: 8 word) = of_nat (224 + x)"
  "x < 8 \<Longrightarrow> (ucast (0xF0 OR of_nat x :: 32 word) :: 8 word) = of_nat (240 + x)"
proof -
  have "list_all (\<lambda>x. (ucast (0xC0 OR of_nat x :: 32 word) :: 8 word) = of_nat (192 + x)) [0..<32]"
    "list_all (\<lambda>x. (ucast (0xE0 OR of_nat x :: 32 word) :: 8 word) = of_nat (224 + x)) [0..<16]"
    "list_all (\<lambda>x. (ucast (0xF0 OR of_nat x :: 32 word) :: 8 word) = of_nat (240 + x)) [0..<8]"
    by code_simp+
  then show "x < 32 \<Longrightarrow> (ucast (0xC0 OR of_nat x :: 32 word) :: 8 word) = of_nat (192 + x)"
    "x < 16 \<Longrightarrow> (ucast (0xE0 OR of_nat x :: 32 word) :: 8 word) = of_nat (224 + x)"
    "x < 8 \<Longrightarrow> (ucast (0xF0 OR of_nat x :: 32 word) :: 8 word) = of_nat (240 + x)"
    by (simp_all only: list_all_upt)
qed

lemma Utf8_Encode_code:
  assumes "c \<le> 0x10FFFF"
  shows "Utf8_Encode (of_nat c) = utf8_code c" "Utf8_Length (of_nat c) = length (utf8_code c)"
proof -
  have k: "of_nat c \<le>s kMaxOneByteChar \<longleftrightarrow> c < 0x80" "of_nat c \<le>s kMaxTwoByteChar \<longleftrightarrow> c < 0x800"
      "of_nat c \<le>s kMaxThreeByteChar \<longleftrightarrow> c < 0x10000"
    using assms sle_of_nat32 [of c 127] sle_of_nat32 [of c 2047] sle_of_nat32 [of c 65535]
    by (auto simp: kMaxOneByteChar_def kMaxTwoByteChar_def kMaxThreeByteChar_def)
  have x: "c < 0x800 \<Longrightarrow> c div 64 < 32" "c < 0x10000 \<Longrightarrow> c div 4096 < 16" "c div 262144 < 8"
    using assms by simp_all
  have "c < 2 ^ 31"
    using assms by simp
  then show "Utf8_Encode (of_nat c) = utf8_code c"
    using x by (simp add: Utf8_Encode_def utf8_code_def k signed_shift encoded_lead encoded_trail ucast_of_nat32 Let_def
        del: of_nat_add push_bit_of_1)
  show "Utf8_Length (of_nat c) = length (utf8_code c)"
    by (simp add: Utf8_Length_def utf8_code_def k)
qed

section \<open>Arrays of encoded code points\<close>

text \<open>A code point of the code is one that is in range; a list of them, encoded.\<close>

definition code_point :: "32 word \<Rightarrow> bool" where
  "code_point c \<longleftrightarrow> \<not> IsOutOfRange c"

definition utf8 :: "32 word list \<Rightarrow> 8 word list" where
  "utf8 cs = concat (map Utf8_Encode cs)"

lemma utf8_simps [simp]: "utf8 [] = []" "utf8 (c # cs) = Utf8_Encode c @ utf8 cs"
  by (simp_all add: utf8_def)

lemma code_pointE:
  assumes "code_point c"
  obtains n where "n \<le> 0x10FFFF" "c = of_nat n"
proof
  have "0 \<le> sint c" "sint c \<le> 0x10FFFF"
    using assms by (simp_all add: code_point_def IsOutOfRange_def word_sless_alt kMaxCodePoint_def)
  then show "nat (sint c) \<le> 0x10FFFF" "c = of_nat (nat (sint c))"
    by (simp_all add: signed_word_eqI sint_of_nat32)
qed

lemma code_point_of_nat: "n \<le> 0x10FFFF \<Longrightarrow> code_point (of_nat n)"
  by (simp add: code_point_def IsOutOfRange_of_nat)

lemma Decode_Encode:
  assumes "code_point c"
  shows "Utf8_Decode (Utf8_Encode c @ rest) = ret (Utf8_Length c, c)" "Utf8_Length c = length (Utf8_Encode c)"
    "Utf8_Encode c \<noteq> []" "c \<noteq> - 1"
proof -
  obtain n where n: "n \<le> 0x10FFFF" "c = of_nat n"
    using assms by (rule code_pointE)
  then show "Utf8_Decode (Utf8_Encode c @ rest) = ret (Utf8_Length c, c)" "Utf8_Length c = length (Utf8_Encode c)"
    by (simp_all add: Utf8_Encode_code Utf8_Decode_code)
  show "Utf8_Encode c \<noteq> []"
    by (simp add: Utf8_Encode_def Let_def)
  show "c \<noteq> - 1"
    using assms by (auto simp: code_point_def IsOutOfRange_def word_sless_alt)
qed

lemma Decode_cases:
  assumes "bs \<noteq> []"
  obtains c rest where "code_point c" "bs = Utf8_Encode c @ rest"
  | "Utf8_Decode bs = ret (0, - 1)" "\<And>c rest. code_point c \<Longrightarrow> bs \<noteq> Utf8_Encode c @ rest"
proof (cases rule: Utf8_Decode_cases [OF assms])
  case (1 c rest)
  then show thesis
    using that(1) [of "of_nat c" rest] by (simp add: code_point_of_nat Utf8_Encode_code)
next
  case 2
  then show thesis
    using that(2) Decode_Encode(1,4) by (metis Pair_inject ret_inject)
qed

lemma utf8_decode_step:
  assumes "utf8 cs = Utf8_Encode c @ rest" "list_all code_point cs" "code_point c"
  obtains ds where "cs = c # ds" "rest = utf8 ds"
proof (cases cs)
  case Nil
  then show thesis
    using assms Decode_Encode(3) by simp
next
  case (Cons d ds)
  have "d = c" "Utf8_Length d = Utf8_Length c"
    using assms Decode_Encode(1) [of d "utf8 ds"] Decode_Encode(1) [of c rest] Cons by simp_all
  then show thesis
    using that assms Cons by simp
qed

lemma utf8_code_lead:
  assumes "n \<le> 0x10FFFF"
  obtains b ts where "utf8_code n = b # ts" "\<not> IsTrailByte b" "list_all IsTrailByte ts"
    "IsLatin1SequenceStart b \<longleftrightarrow> n \<le> 0xFF" "IsSupplementarySequenceStart b \<longleftrightarrow> 0xFFFF < n"
proof -
  have t: "IsTrailByte (of_nat (128 + k mod 64))" for k
    by (simp add: IsTrailByte_iff unat_of_nat8 del: of_nat_add)
  have l: "\<not> IsTrailByte (of_nat m)" "IsLatin1SequenceStart (of_nat m) \<longleftrightarrow> m \<le> 0xC3" "IsSupplementarySequenceStart (of_nat m) \<longleftrightarrow> 240 \<le> m"
    if "m < 256" "m < 128 \<or> 192 \<le> m" for m
    using that by (auto simp: IsTrailByte_iff IsLatin1SequenceStart_def IsSupplementarySequenceStart_def word_le_nat_alt unat_of_nat8)
  consider "n < 0x80" | "0x80 \<le> n" "n < 0x800" | "0x800 \<le> n" "n < 0x10000" | "0x10000 \<le> n"
    by linarith
  then show thesis
  proof cases
    case 1
    then show thesis
      using that [of "of_nat n" "[]"] l [of n] by (simp add: utf8_code_def)
  next
    case 2
    then have "192 + n div 64 \<le> 0xC3 \<longleftrightarrow> n \<le> 0xFF" "n div 64 < 32"
      by auto
    then show thesis
      using 2 that [of "of_nat (192 + n div 64)"] l [of "192 + n div 64"] t by (simp add: utf8_code_def del: of_nat_add)
  next
    case 3
    then have "n div 4096 < 16"
      by auto
    then show thesis
      using 3 that [of "of_nat (224 + n div 4096)"] l [of "224 + n div 4096"] t by (simp add: utf8_code_def del: of_nat_add)
  next
    case 4
    then have "n div 262144 < 8"
      using assms by auto
    then show thesis
      using 4 that [of "of_nat (240 + n div 262144)"] l [of "240 + n div 262144"] t by (simp add: utf8_code_def del: of_nat_add)
  qed
qed

definition utf16_units :: "32 word \<Rightarrow> 16 word list" where
  "utf16_units c = (if kMaxCodeUnit < c then Utf16_Encode c else [ucast c])"

lemma Encode_lead:
  assumes "code_point c"
  obtains b ts where "Utf8_Encode c = b # ts" "\<not> IsTrailByte b" "list_all IsTrailByte ts"
    "IsLatin1SequenceStart b \<longleftrightarrow> c \<le> 0xFF" "IsSupplementarySequenceStart b \<longleftrightarrow> kMaxCodeUnit < c"
proof -
  obtain n where n: "n \<le> 0x10FFFF" "c = of_nat n"
    using assms by (rule code_pointE)
  then have "c \<le> 0xFF \<longleftrightarrow> n \<le> 0xFF" "kMaxCodeUnit < c \<longleftrightarrow> 0xFFFF < n"
    by (simp_all add: kMaxCodeUnit_def word_le_nat_alt word_less_nat_alt unat_of_nat32)
  then show thesis
    using utf8_code_lead [OF n(1)] that n by (metis Utf8_Encode_code(1))
qed

section \<open>The decoding loops\<close>

text \<open>
  The three decoding loops share a contract: they stop at the end of the input or of the output, fail at a byte
  sequence that is no code point or does not fit, and otherwise store the units of the code point and go on
  behind it.
\<close>

locale utf8_decoder =
  fixes loop :: "8 word list \<Rightarrow> nat \<Rightarrow> nat \<Rightarrow> nat \<Rightarrow> 'u list \<Rightarrow> (bool \<times> 'u list) exec"
    and units :: "32 word \<Rightarrow> 'u list"
  assumes units_ne: "units c \<noteq> []"
    and stop: "\<not> (i < length bs \<and> j < len) \<Longrightarrow> loop bs len i j dst = ret (\<not> (i < length bs \<and> j = len), dst)"
    and bad: "i < length bs \<Longrightarrow> j < len \<Longrightarrow> Utf8_Decode (drop i bs) = ret (0, - 1) \<Longrightarrow> loop bs len i j dst = ret (False, dst)"
    and char: "code_point c \<Longrightarrow> drop i bs = Utf8_Encode c @ rest \<Longrightarrow> j + length (units c) \<le> len \<Longrightarrow>
      loop bs len i j dst =
        ebind (put_at dst j (units c)) (loop bs len (i + length (Utf8_Encode c)) (j + length (units c)))"
    and full: "code_point c \<Longrightarrow> drop i bs = Utf8_Encode c @ rest \<Longrightarrow> j < len \<Longrightarrow> len < j + length (units c) \<Longrightarrow>
      loop bs len i j dst = ret (False, dst)"
begin

lemma decode_valid:
  assumes "list_all code_point cs" "drop i bs = utf8 cs" "j + length (concat (map units cs)) \<le> length dst"
  shows "loop bs (length dst) i j dst =
    ret (True, take j dst @ concat (map units cs) @ drop (j + length (concat (map units cs))) dst)"
  using assms
proof (induction cs arbitrary: i j dst)
  case Nil
  then show ?case
    using stop [of i bs j "length dst" dst] by simp
next
  case (Cons c cs)
  let ?dst = "take j dst @ units c @ drop (j + length (units c)) dst"
  have c: "code_point c" and len: "j + length (units c) \<le> length dst" "length ?dst = length dst"
    using Cons.prems by auto
  have "drop (i + length (Utf8_Encode c)) bs = utf8 cs"
    using arg_cong [OF Cons.prems(2), of "drop (length (Utf8_Encode c))"] by (simp add: add.commute)
  then have "loop bs (length ?dst) (i + length (Utf8_Encode c)) (j + length (units c)) ?dst =
      ret (True, take (j + length (units c)) ?dst @ concat (map units cs) @ drop (j + length (units c) + length (concat (map units cs))) ?dst)"
    using Cons.prems len by (intro Cons.IH) simp_all
  then show ?case
    using Cons.prems char [OF c, of i bs "utf8 cs" j "length dst" dst] len by (simp add: put_at_def ac_simps)
qed

lemma decode_sound:
  "j \<le> length dst \<Longrightarrow> returns (loop bs (length dst) i j dst) (\<lambda>(ok, _). ok \<longrightarrow> (\<exists>cs. list_all code_point cs \<and> drop i bs = utf8 cs))"
proof (induction "length bs - i" arbitrary: i j dst rule: less_induct)
  case less
  show ?case
  proof (cases "i < length bs \<and> j < length dst")
    case False
    then show ?thesis
      using less.prems stop [of i bs j "length dst" dst] by (auto intro!: exI [of _ "[]"])
  next
    case True
    then have ne: "drop i bs \<noteq> []" by simp
    show ?thesis
    proof (cases rule: Decode_cases [OF ne])
      case (1 c rest)
      show ?thesis
      proof (cases "j + length (units c) \<le> length dst")
        case fits: True
        let ?dst = "take j dst @ units c @ drop (j + length (units c)) dst"
        have "0 < length (Utf8_Encode c)"
          using Decode_Encode(3) [OF 1(1)] by simp
        then have "length ?dst = length dst" "length bs - (i + length (Utf8_Encode c)) < length bs - i"
          using fits True by (simp, linarith)
        moreover have "drop (i + length (Utf8_Encode c)) bs = rest"
          using arg_cong [OF 1(2), of "drop (length (Utf8_Encode c))"] by (simp add: add.commute)
        ultimately have "returns (loop bs (length dst) (i + length (Utf8_Encode c)) (j + length (units c)) ?dst)
            (\<lambda>(ok, _). ok \<longrightarrow> (\<exists>cs. list_all code_point cs \<and> rest = utf8 cs))"
          using less.hyps [of "i + length (Utf8_Encode c)" "j + length (units c)" ?dst] fits by simp
        then have "returns (loop bs (length dst) (i + length (Utf8_Encode c)) (j + length (units c)) ?dst)
            (\<lambda>(ok, _). ok \<longrightarrow> (\<exists>cs. list_all code_point cs \<and> drop i bs = utf8 cs))"
          by (rule returns_mono) (use 1 in \<open>force intro: exI [of _ "c # _"]\<close>)
        then show ?thesis
          using char [OF 1 fits] fits by (simp add: put_at_def)
      qed (use full [OF 1, of j "length dst" dst] True in simp)
    qed (use bad [of i bs j "length dst" dst] True in simp)
  qed
qed

end

lemma drop_lead: "drop i bs = b # ts \<Longrightarrow> i < length bs \<and> bs ! i = b"
  by (metis drop_all hd_drop_conv_nth list.distinct(1) list.sel(1) not_le_imp_less)

lemma encoded_at:
  assumes "code_point c" "drop i bs = Utf8_Encode c @ rest"
  shows "i < length bs" "IsSupplementarySequenceStart (bs ! i) \<longleftrightarrow> kMaxCodeUnit < c"
    "Utf8_Decode (drop i bs) = ret (length (Utf8_Encode c), c)" "c \<noteq> - 1"
proof -
  obtain b ts where "Utf8_Encode c = b # ts" "IsSupplementarySequenceStart b \<longleftrightarrow> kMaxCodeUnit < c"
    using assms(1) by (rule Encode_lead)
  then show "i < length bs" "IsSupplementarySequenceStart (bs ! i) \<longleftrightarrow> kMaxCodeUnit < c"
    using assms(2) drop_lead [of i bs b "ts @ rest"] by auto
  show "Utf8_Decode (drop i bs) = ret (length (Utf8_Encode c), c)" "c \<noteq> - 1"
    using assms Decode_Encode [OF assms(1)] by simp_all
qed

interpretation to_latin1: utf8_decoder latin1_loop "\<lambda>c. [ucast c]"
proof
  show "code_point c \<Longrightarrow> drop i bs = Utf8_Encode c @ rest \<Longrightarrow> j + length [ucast c :: 8 word] \<le> len \<Longrightarrow>
      latin1_loop bs len i j dst =
        ebind (put_at dst j [ucast c]) (latin1_loop bs len (i + length (Utf8_Encode c)) (j + length [ucast c :: 8 word]))"
    for c i bs rest j len dst
    using encoded_at [of c i bs rest] by (subst latin1_loop.simps) simp
qed ((subst latin1_loop.simps; auto) | simp)+

interpretation to_utf32: utf8_decoder utf32_loop "\<lambda>c. [c]"
proof
  show "code_point c \<Longrightarrow> drop i bs = Utf8_Encode c @ rest \<Longrightarrow> j + length [c] \<le> len \<Longrightarrow>
      utf32_loop bs len i j dst = ebind (put_at dst j [c]) (utf32_loop bs len (i + length (Utf8_Encode c)) (j + length [c]))"
    for c i bs rest j len dst
    using encoded_at [of c i bs rest] by (subst utf32_loop.simps) simp
qed ((subst utf32_loop.simps; auto) | simp)+

interpretation to_utf16: utf8_decoder utf16_loop utf16_units
proof
  show "code_point c \<Longrightarrow> drop i bs = Utf8_Encode c @ rest \<Longrightarrow> j + length (utf16_units c) \<le> len \<Longrightarrow>
      utf16_loop bs len i j dst =
        ebind (put_at dst j (utf16_units c)) (utf16_loop bs len (i + length (Utf8_Encode c)) (j + length (utf16_units c)))"
    for c i bs rest j len dst
    using encoded_at [of c i bs rest] by (subst utf16_loop.simps) (auto simp: utf16_units_def Utf16_Encode_def)
  show "code_point c \<Longrightarrow> drop i bs = Utf8_Encode c @ rest \<Longrightarrow> j < len \<Longrightarrow> len < j + length (utf16_units c) \<Longrightarrow>
      utf16_loop bs len i j dst = ret (False, dst)" for c i bs rest j len dst
    using encoded_at [of c i bs rest] by (subst utf16_loop.simps) (auto simp: utf16_units_def Utf16_Encode_def split: if_splits)
  show "utf16_units c \<noteq> []" for c
    by (simp add: utf16_units_def Utf16_Encode_def)
qed (subst utf16_loop.simps; auto)+

lemma report_returns: "returns (report_loop bs len i j) (\<lambda>_. True)"
proof (induction "length bs - i" arbitrary: i j rule: less_induct)
  case less
  show ?case
  proof (cases "i < length bs \<and> j < len")
    case True
    then have ne: "drop i bs \<noteq> []" by simp
    show ?thesis
    proof (cases rule: Decode_cases [OF ne])
      case (1 c rest)
      then have "0 < length (Utf8_Encode c)"
        using Decode_Encode(3) by simp
      then have "length bs - (i + length (Utf8_Encode c)) < length bs - i"
        using True by linarith
      then show ?thesis
        using True encoded_at [OF 1] less.hyps by (subst report_loop.simps) simp
    next
      case 2
      then show ?thesis
        using True by (subst report_loop.simps) simp
    qed
  qed (subst report_loop.simps; auto)
qed

section \<open>Validity and the number of code units\<close>

lemma valid_step:
  "valid_loop bs i =
     (if i < length bs then ebind (Utf8_Decode (drop i bs)) (\<lambda>(n, ch). if ch = - 1 then ret False else valid_loop bs (i + n))
      else ret True)"
proof (cases "i < length bs")
  case True
  then have "drop i bs \<noteq> []" "drop i bs ! 0 = bs ! i" "i \<le> length bs"
    by simp_all
  moreover have "\<not> IsOutOfRange ch \<Longrightarrow> ch \<noteq> - 1" for ch
    by (auto simp: IsOutOfRange_def word_sless_alt)
  moreover have "ucast (b :: 8 word) \<noteq> (- 1 :: 32 word)" for b
    using unat_ucast_byte [of b] unsigned_less [of b, where 'a = nat] by (auto simp: unsigned_minus_1_eq_mask mask_eq_exp_minus_1)
  ultimately show ?thesis
    using True by (subst valid_loop.simps)
      (auto simp: Utf8_Decode_def Let_def lead_byte trail_loop_shift split: option.splits)
qed (subst valid_loop.simps; simp)

lemma valid_loop_exact:
  "valid_loop bs i = ret (\<exists>cs. list_all code_point cs \<and> drop i bs = utf8 cs)"
proof (induction "length bs - i" arbitrary: i rule: less_induct)
  case less
  show ?case
  proof (cases "i < length bs")
    case False
    then show ?thesis
      by (subst valid_step) (auto intro: exI [of _ "[]"])
  next
    case True
    then have ne: "drop i bs \<noteq> []" by simp
    show ?thesis
    proof (cases rule: Decode_cases [OF ne])
      case (1 c rest)
      then have "0 < length (Utf8_Encode c)"
        using Decode_Encode(3) by simp
      then have "length bs - (i + length (Utf8_Encode c)) < length bs - i"
        using True by linarith
      moreover have "drop (i + length (Utf8_Encode c)) bs = rest"
        using arg_cong [OF 1(2), of "drop (length (Utf8_Encode c))"] by (simp add: add.commute)
      moreover have "(\<exists>cs. list_all code_point cs \<and> drop i bs = utf8 cs) \<longleftrightarrow> (\<exists>cs. list_all code_point cs \<and> rest = utf8 cs)"
        using 1 by (metis list.pred_inject(2) utf8_decode_step utf8_simps(2))
      ultimately show ?thesis
        using True encoded_at [OF 1] less.hyps [of "i + length (Utf8_Encode c)"] by (subst valid_step) simp
    next
      case 2
      have "\<not> (\<exists>cs. list_all code_point cs \<and> drop i bs = utf8 cs)"
        using 2(2) ne by (metis list.exhaust list.pred_inject(2) utf8_simps)
      then show ?thesis
        using True 2(1) by (subst valid_step) simp
    qed
  qed
qed

lemma count_loop_trail: "list_all IsTrailByte ts \<Longrightarrow> count_loop (ts @ rest) len ty = count_loop rest len ty"
  by (induction ts) auto

lemma count_loop_lead:
  assumes "code_point c"
  shows "count_loop (Utf8_Encode c @ rest) len ty =
    count_loop rest (len + length (utf16_units c))
      (if c \<le> 0xFF then ty else if kMaxCodeUnit < c then kSupplementary else if ty = kLatin1 then kBMP else ty)"
proof -
  have "c \<le> 0xFF \<Longrightarrow> \<not> kMaxCodeUnit < c"
    by (auto simp: kMaxCodeUnit_def word_le_nat_alt word_less_nat_alt)
  moreover obtain b ts where "Utf8_Encode c = b # ts" "\<not> IsTrailByte b" "list_all IsTrailByte ts"
      "IsLatin1SequenceStart b \<longleftrightarrow> c \<le> 0xFF" "IsSupplementarySequenceStart b \<longleftrightarrow> kMaxCodeUnit < c"
    using assms by (rule Encode_lead)
  ultimately show ?thesis
    by (auto simp: count_loop_trail utf16_units_def Utf16_Encode_def)
qed

lemma count_loop_utf8:
  "list_all code_point cs \<Longrightarrow>
     fst (count_loop (utf8 cs) len ty) = len + length (concat (map utf16_units cs)) \<and>
     (snd (count_loop (utf8 cs) len ty) = kLatin1 \<longleftrightarrow> ty = kLatin1 \<and> list_all (\<lambda>c. c \<le> 0xFF) cs)"
proof (induction cs arbitrary: len ty)
  case (Cons c cs)
  have "c \<le> 0xFF \<Longrightarrow> \<not> kMaxCodeUnit < c"
    by (auto simp: kMaxCodeUnit_def word_le_nat_alt word_less_nat_alt)
  then show ?case
    using Cons by (simp add: count_loop_lead)
qed simp

lemma count_loop_length:
  "fst (count_loop bs len ty) = len + sum_list (map (\<lambda>b. if IsTrailByte b then 0
     else if \<not> IsLatin1SequenceStart b \<and> IsSupplementarySequenceStart b then 2 else 1) bs)"
  by (induction bs arbitrary: len ty) simp_all

lemma count_loop_trails: "fst (count_loop bs 0 ty) = 0 \<longleftrightarrow> list_all IsTrailByte bs"
  unfolding count_loop_length by (induction bs) simp_all

section \<open>Strings from UTF-8\<close>

text \<open>The string with the given code points, in the class with the smaller units when these are enough.\<close>

definition string_of_points :: "32 word list \<Rightarrow> dart_string" where
  "string_of_points cs =
     (if list_all (\<lambda>c. c \<le> 0xFF) cs then OneByteString (map ucast cs) else TwoByteString (concat (map utf16_units cs)))"

lemma latin1_units:
  "list_all (\<lambda>c. c \<le> 0xFF) cs \<Longrightarrow> length (concat (map utf16_units cs)) = length cs"
  "concat (map (\<lambda>c. [f c]) cs) = map f cs"
proof (induction cs)
  case (Cons c cs)
  have "c \<le> 0xFF \<Longrightarrow> \<not> kMaxCodeUnit < c"
    by (auto simp: kMaxCodeUnit_def word_le_nat_alt word_less_nat_alt)
  then show "list_all (\<lambda>c. c \<le> 0xFF) (c # cs) \<Longrightarrow> length (concat (map utf16_units (c # cs))) = length (c # cs)"
      "concat (map (\<lambda>c. [f c]) (c # cs)) = map f (c # cs)"
    using Cons by (simp_all add: utf16_units_def [of c])
qed simp_all

lemma DecodeToUTF32_utf8:
  "list_all code_point cs \<Longrightarrow> length dst = length cs \<Longrightarrow> DecodeToUTF32 (utf8 cs) dst (length dst) = ret (True, cs)"
  using to_utf32.decode_valid [of cs 0 "utf8 cs" 0 dst] by (simp add: DecodeToUTF32_def latin1_units(2))

lemma FromUTF8_valid:
  assumes cs: "list_all code_point cs"
  shows "String_FromUTF8 junk (utf8 cs) = ret (Some (string_of_points cs))"
proof -
  obtain len ty where count: "CodeUnitCount (utf8 cs) = (len, ty)"
    by fastforce
  then have len: "len = length (concat (map utf16_units cs))" and ty: "ty = kLatin1 \<longleftrightarrow> list_all (\<lambda>c. c \<le> 0xFF) cs"
    using count_loop_utf8 [OF cs, of 0 kLatin1] by (simp_all add: CodeUnitCount_def)
  show ?thesis
  proof (cases "ty = kLatin1")
    case True
    then have "len = length cs"
      using ty len latin1_units(1) by simp
    then show ?thesis
      using True ty count to_latin1.decode_valid [OF cs, of 0 "utf8 cs" 0 "map (\<lambda>k. ucast (junk k)) [0..<len]"]
      by (simp add: String_FromUTF8_def DecodeToLatin1_def latin1_units(2) string_of_points_def Let_def)
  next
    case False
    then show ?thesis
      using ty count len to_utf16.decode_valid [OF cs, of 0 "utf8 cs" 0 "map junk [0..<len]"]
      by (simp add: String_FromUTF8_def DecodeToUTF16_def string_of_points_def)
  qed
qed

lemma FromUTF8_invalid:
  assumes "\<And>cs. list_all code_point cs \<Longrightarrow> bs \<noteq> utf8 cs"
  shows "String_FromUTF8 junk bs = ret (if list_all IsTrailByte bs then Some (OneByteString []) else None)"
proof -
  obtain len ty where count: "CodeUnitCount bs = (len, ty)"
    by fastforce
  then have len: "len = 0 \<longleftrightarrow> list_all IsTrailByte bs" and ty: "len = 0 \<Longrightarrow> ty = kLatin1"
    using count_loop_trails [of bs kLatin1] count_loop_trail [of bs "[]" 0 kLatin1] by (auto simp: CodeUnitCount_def)
  have report: "ebind (ReportInvalidByte bs len) (\<lambda>_. ret None) = ret None"
    using report_returns [of bs len 0 0] by (auto simp: ReportInvalidByte_def returns_def)
  obtain d1 where "latin1_loop bs len 0 0 (map (\<lambda>k. ucast (junk k)) [0..<len]) = ret (False, d1)"
    using assms to_latin1.decode_sound [of 0 "map (\<lambda>k. ucast (junk k)) [0..<len]" bs 0] by (auto simp: returns_def)
  moreover obtain d2 where "utf16_loop bs len 0 0 (map junk [0..<len]) = ret (False, d2)"
    using assms to_utf16.decode_sound [of 0 "map junk [0..<len]" bs 0] by (auto simp: returns_def)
  ultimately show ?thesis
    using count len ty report
    by (cases "len = 0") (auto simp: String_FromUTF8_def DecodeToLatin1_def DecodeToUTF16_def Let_def)
qed

end
