(* ===== verification/Unicode_Strings.thy ===== *)
theory Unicode_Strings
  imports Unicode_Codec
begin

unbundle bit_operations_syntax

text \<open>
  The conversions between strings and UTF-8 (\<open>vm/unicode.cc\<close>, and \<open>String::FromUTF8\<close>, \<open>String::ToUTF8\<close> of
  \<open>vm/object.cc\<close>): the word-wise loops over one-byte strings and the iterator over the code points of two-byte strings compute
  what the definition character by character gives, and decoding inverts encoding.
\<close>

section \<open>Words of characters\<close>

lemma bit_load_word:
  "length bs \<le> 8 \<Longrightarrow> bit (load_word bs) n \<longleftrightarrow> n div 8 < length bs \<and> bit (bs ! (n div 8)) (n mod 8)"
proof (induction bs arbitrary: n)
  case (Cons b bs)
  show ?case
  proof (cases "n < 8")
    case True
    then show ?thesis
      by (auto simp: bit_or_iff bit_push_bit_iff bit_ucast_iff)
  next
    case False
    then have "n div 8 = Suc ((n - 8) div 8)" "n mod 8 = (n - 8) mod 8"
      by (simp_all add: le_div_geq le_mod_geq)
    then show ?thesis
      using False Cons bit_imp_le_length [of b n] bit_imp_le_length [of "load_word bs" "n - 8"]
      by (auto simp: bit_or_iff bit_push_bit_iff bit_ucast_iff)
  qed
qed simp

lemma store_load_word:
  assumes "length bs = 8"
  shows "store_word (load_word bs) = bs"
proof (rule nth_equalityI)
  fix k assume "k < length (store_word (load_word bs))"
  then have k: "k < 8"
    by (simp add: store_word_def)
  have "ucast (drop_bit (8 * k) (load_word bs)) = bs ! k"
  proof (rule bit_word_eqI)
    fix n assume "n < LENGTH(8)"
    then have "n < 8" "(8 * k + n) div 8 = k" "(8 * k + n) mod 8 = n"
      by simp_all
    then show "bit (ucast (drop_bit (8 * k) (load_word bs)) :: 8 word) n = bit (bs ! k) n"
      using k assms bit_load_word [of bs "8 * k + n"] by (simp add: bit_ucast_iff bit_drop_bit_eq)
  qed
  then show "store_word (load_word bs) ! k = bs ! k"
    using k by (simp add: store_word_def)
qed (simp add: store_word_def assms)

lemma bit_kAsciiWordMask: "bit kAsciiWordMask n \<longleftrightarrow> n < 64 \<and> n mod 8 = 7"
proof (cases "n < 64")
  case True
  have "list_all (\<lambda>n. bit kAsciiWordMask n = (n mod 8 = 7)) [0..<64]"
    by code_simp
  then show ?thesis
    using True by (simp add: list_all_upt)
qed (use bit_imp_le_length [of kAsciiWordMask n] in auto)

definition high_byte :: "8 word \<Rightarrow> bool" where
  "high_byte b \<longleftrightarrow> 128 \<le> unat b"

lemma bit_7_high: "bit b 7 \<longleftrightarrow> high_byte b"
  by (rule byte_all [of "\<lambda>b. bit b 7 = high_byte b"]) code_simp

lemma masked_word:
  assumes "length bs = 8"
  shows "load_word bs AND kAsciiWordMask = load_word (map (\<lambda>h. if h then 0x80 else 0) (map high_byte bs))"
proof (rule bit_word_eqI)
  fix n assume "n < LENGTH(64)"
  then have "n div 8 < 8"
    by simp
  moreover have "bit (if h then 0x80 else 0 :: 8 word) k \<longleftrightarrow> h \<and> k = 7" if "k < 8" for h k
    using that bit_exp_iff [of 7 k, where 'a = "8 word"] by auto
  ultimately show "bit (load_word bs AND kAsciiWordMask) n =
      bit (load_word (map (\<lambda>h. if h then 0x80 else 0) (map high_byte bs))) n"
    using assms by (auto simp: bit_and_iff bit_load_word bit_kAsciiWordMask simp flip: bit_7_high)
qed

lemma load_word_number: "load_word bs = of_nat (foldr (\<lambda>b v. unat b + 256 * v) bs 0)"
proof (induction bs)
  case (Cons b bs)
  have "ucast b OR push_bit 8 (load_word bs) = ucast b + push_bit 8 (load_word bs)"
    by (rule disjunctive_add [symmetric]) (auto simp: bit_push_bit_iff bit_ucast_iff dest: bit_imp_le_length)
  then show ?case
    by (simp add: Cons push_bit_eq_mult mult.commute)
qed simp

lemma div_split: "r < m * Suc k \<Longrightarrow> \<exists>e\<le>k. (m * q + r) div m = q + e" for m q r k :: nat
  by (cases "m = 0") (auto intro!: exI [of _ "r div m"] simp: less_mult_imp_div_less mult.commute simp flip: less_Suc_eq_le)

lemma sum_high_bits:
  fixes h0 h1 h2 h3 h4 h5 h6 h7 :: nat
  assumes "h0 \<le> 1" "h1 \<le> 1" "h2 \<le> 1" "h3 \<le> 1" "h4 \<le> 1" "h5 \<le> 1" "h6 \<le> 1" "h7 \<le> 1"
  defines "x0 \<equiv> 128 * h0 + 2 ^ 15 * h1 + 2 ^ 23 * h2 + 2 ^ 31 * h3 + 2 ^ 39 * h4 + 2 ^ 47 * h5 + 2 ^ 55 * h6 + 2 ^ 63 * h7"
  defines "x1 \<equiv> x0 + x0 div 2 ^ 32"
  defines "x2 \<equiv> x1 + x1 div 2 ^ 16"
  defines "x3 \<equiv> x2 + x2 div 2 ^ 8"
  shows "x3 < 2 ^ 64" "x3 div 2 ^ 7 mod 16 = h0 + h1 + h2 + h3 + h4 + h5 + h6 + h7"
proof -
  define H where "H = h4 + 2 ^ 8 * h5 + 2 ^ 16 * h6 + 2 ^ 24 * h7"
  have H: "H \<le> 1 + 2 ^ 8 + 2 ^ 16 + 2 ^ 24"
    using assms(1-8) unfolding H_def by simp
  have x0: "x0 = 2 ^ 32 * (128 * H) + (128 * h0 + 2 ^ 15 * h1 + 2 ^ 23 * h2 + 2 ^ 31 * h3)"
    by (simp add: x0_def H_def)
  have "x0 div 2 ^ 32 = 128 * H"
    unfolding x0 using assms(1-4) by simp
  then have x1: "x1 = 2 ^ 16 * (128 * (h2 + h6) + 2 ^ 15 * (h3 + h7) + 2 ^ 23 * H) + (128 * (h0 + h4) + 2 ^ 15 * (h1 + h5))"
    unfolding x1_def x0 by (simp add: H_def)
  obtain e where e: "e \<le> 1" "x1 div 2 ^ 16 = 128 * (h2 + h6) + 2 ^ 15 * (h3 + h7) + 2 ^ 23 * H + e"
    using div_split [of "128 * (h0 + h4) + 2 ^ 15 * (h1 + h5)" "2 ^ 16" 1
        "128 * (h2 + h6) + 2 ^ 15 * (h3 + h7) + 2 ^ 23 * H"] assms(1-8)
    unfolding x1 by auto
  define T where "T = h1 + h5 + h3 + h7 + 2 ^ 8 * (h2 + h6 + H) + 2 ^ 16 * (h3 + h7) + 2 ^ 24 * H"
  have x2: "x2 = 2 ^ 8 * (128 * T) + (128 * (h0 + h4 + h2 + h6) + e)"
    unfolding x2_def e(2) unfolding x1 T_def by simp
  obtain e' where e': "e' \<le> 2" "x2 div 2 ^ 8 = 128 * T + e'"
    using div_split [of "128 * (h0 + h4 + h2 + h6) + e" "2 ^ 8" 2 "128 * T"] assms(1-8) e(1) unfolding x2 by auto
  have x3: "x3 = 128 * (h0 + h4 + h2 + h6 + T + 2 ^ 8 * T) + (e + e')"
    unfolding x3_def e'(2) unfolding x2 by simp
  have "x3 div 2 ^ 7 = h0 + h4 + h2 + h6 + T + 2 ^ 8 * T"
    unfolding x3 using e(1) e'(1) by simp
  also have "\<dots> = h0 + h1 + h2 + h3 + h4 + h5 + h6 + h7 + 16 * (2 ^ 4 * (h2 + h6 + H) + 2 ^ 12 * (h3 + h7) + 2 ^ 20 * H + 2 ^ 4 * T)"
    unfolding T_def by simp
  finally show "x3 div 2 ^ 7 mod 16 = h0 + h1 + h2 + h3 + h4 + h5 + h6 + h7"
    using assms(1-8) by (simp del: distrib_left_numeral)
  have "T \<le> 4 + 2 ^ 8 * (2 + H) + 2 ^ 17 + 2 ^ 24 * H"
    unfolding T_def using assms(1-8) by simp
  then show "x3 < 2 ^ 64"
    unfolding x3 using H e(1) e'(1) assms(1-8) by simp
qed

lemma unat_count_high_bits:
  fixes w :: "64 word"
  defines "x0 \<equiv> unat w"
  defines "x1 \<equiv> x0 + x0 div 2 ^ 32"
  defines "x2 \<equiv> x1 + x1 div 2 ^ 16"
  defines "x3 \<equiv> x2 + x2 div 2 ^ 8"
  assumes "x3 < 2 ^ 64"
  shows "unat (count_high_bits w) = x3 div 2 ^ 7 mod 16"
proof -
  have small: "unat (v AND 0xf) = unat v mod 16" for v :: "64 word"
  proof -
    have "v AND 0xf = take_bit 4 v"
      by (simp add: take_bit_eq_mask mask_eq_exp_minus_1)
    then show ?thesis
      by (simp only: unsigned_take_bit_eq) (simp add: take_bit_eq_mod)
  qed
  have b: "x1 < 2 ^ 64" "x2 < 2 ^ 64"
    using assms(5) unfolding x3_def x2_def by linarith+
  have "unat (w + drop_bit 32 w) = x1"
    using b(1) by (simp add: unat_word_ariths unat_drop_bit64 x1_def x0_def)
  then have "unat (w + drop_bit 32 w + drop_bit 16 (w + drop_bit 32 w)) = x2"
    using b(2) by (simp add: unat_word_ariths(1) [of _ "drop_bit 16 _"] unat_drop_bit64 x2_def)
  then show ?thesis
    using assms(5) unfolding count_high_bits_def Let_def small unat_drop_bit64
    by (simp add: unat_word_ariths(1) [of _ "drop_bit 8 _"] unat_drop_bit64 x3_def)
qed

lemma of_bool_le: "of_bool h \<le> (1 :: nat)"
  by simp

lemma count_high_bools:
  assumes "length hs = 8"
  shows "unat (count_high_bits (load_word (map (\<lambda>h. if h then 0x80 else 0) hs))) = length (filter id hs)"
proof -
  obtain h0 h1 h2 h3 h4 h5 h6 h7 where hs: "hs = [h0, h1, h2, h3, h4, h5, h6, h7]"
    using assms by (auto simp: length_Suc_conv eval_nat_numeral)
  let ?n = "128 * of_bool h0 + 2 ^ 15 * of_bool h1 + 2 ^ 23 * of_bool h2 + 2 ^ 31 * of_bool h3 + 2 ^ 39 * of_bool h4 +
    2 ^ 47 * of_bool h5 + 2 ^ 55 * of_bool h6 + 2 ^ 63 * of_bool h7 :: nat"
  have byte: "unat (if h then 0x80 else 0 :: 8 word) = 128 * of_bool h" for h
    by simp
  have "foldr (\<lambda>b v. unat b + 256 * v) (map (\<lambda>h. if h then 0x80 else 0 :: 8 word) hs) 0 = ?n"
    unfolding hs list.map foldr.simps o_apply byte by simp
  moreover have "?n < 2 ^ 64"
    by (cases h0; cases h1; cases h2; cases h3; cases h4; cases h5; cases h6; cases h7) simp_all
  ultimately have n: "unat (load_word (map (\<lambda>h. if h then 0x80 else 0) hs)) = ?n"
    by (simp only: load_word_number unat_of_nat64)
  note sum = sum_high_bits [of "of_bool h0" "of_bool h1" "of_bool h2" "of_bool h3" "of_bool h4" "of_bool h5" "of_bool h6" "of_bool h7",
      OF of_bool_le of_bool_le of_bool_le of_bool_le of_bool_le of_bool_le of_bool_le of_bool_le, folded n]
  have "length (filter id hs) = of_bool h0 + of_bool h1 + of_bool h2 + of_bool h3 + of_bool h4 + of_bool h5 + of_bool h6 + of_bool h7"
    unfolding hs by simp
  then show ?thesis
    using unat_count_high_bits [OF sum(1)] sum(2) by (simp only:)
qed

lemma count_high_bytes:
  "length bs = 8 \<Longrightarrow> unat (count_high_bits (load_word bs AND kAsciiWordMask)) = length (filter high_byte bs)"
  using count_high_bools [of "map high_byte bs"] by (simp add: masked_word filter_map comp_def)

lemma masked_word_zero:
  assumes "length bs = 8"
  shows "load_word bs AND kAsciiWordMask = 0 \<longleftrightarrow> list_all (\<lambda>b. \<not> high_byte b) bs"
proof
  assume "load_word bs AND kAsciiWordMask = 0"
  then have "length (filter high_byte bs) = 0"
    using count_high_bytes [OF assms] by (simp add: count_high_bits_def)
  then show "list_all (\<lambda>b. \<not> high_byte b) bs"
    by (simp add: filter_empty_conv list_all_iff)
next
  assume "list_all (\<lambda>b. \<not> high_byte b) bs"
  then have "map (\<lambda>h. if h then 0x80 else 0 :: 8 word) (map high_byte bs) = replicate (length bs) 0"
    by (induction bs) auto
  moreover have "load_word (replicate n 0) = 0" for n
    by (induction n) simp_all
  ultimately show "load_word bs AND kAsciiWordMask = 0"
    by (simp only: masked_word [OF assms])
qed

section \<open>One-byte strings\<close>

lemma byte_point: "code_point (ucast (b :: 8 word))"
  using code_point_of_nat [of "unat b"] unsigned_less [of b, where 'a = nat] by simp

lemma byte_code: "Utf8_Encode (ucast (b :: 8 word)) = utf8_code (unat b)"
  using Utf8_Encode_code(1) [of "unat b"] unsigned_less [of b, where 'a = nat] by simp

lemma ascii_code: "\<not> high_byte b \<Longrightarrow> Utf8_Encode (ucast b) = [b]"
  by (simp add: byte_code high_byte_def utf8_code_def)

lemma byte_length: "length (Utf8_Encode (ucast (b :: 8 word))) = (if high_byte b then 2 else 1)"
  using unsigned_less [of b, where 'a = nat] by (simp add: byte_code utf8_code_def high_byte_def)

lemma length_utf8_bytes: "length (utf8 (map ucast bs)) = length bs + length (filter high_byte bs)"
  by (induction bs) (simp_all add: byte_length)

lemma length_tail_eq: "length_tail chars i len = len + length (filter high_byte (drop i chars))"
proof (induction chars i len rule: length_tail.induct)
  case (1 chars i len)
  have "kMaxOneByteChar <s ucast (b :: 8 word) \<longleftrightarrow> high_byte b" for b
    using sle_of_nat32 [of "unat b" 127] unsigned_less [of b, where 'a = nat]
    by (auto simp: high_byte_def kMaxOneByteChar_def word_sle_eq word_sless_alt)
  then show ?case
    using 1 by (subst length_tail.simps) (auto simp: Cons_nth_drop_Suc [symmetric])
qed

lemma length_chunks_eq:
  assumes "8 \<le> i" "i \<le> length chars + 8"
  shows "(case length_chunks chars i len of (k, l) \<Rightarrow> length_tail chars (k - 8) l) =
    len + length (filter high_byte (drop (i - 8) chars))"
  using assms
proof (induction chars i len rule: length_chunks.induct)
  case (1 chars i len)
  show ?case
  proof (cases "i \<le> length chars")
    case True
    let ?w = "take 8 (drop (i - 8) chars)"
    have w: "length ?w = 8"
      using True 1(2) by simp
    have "drop (i - 8) chars = ?w @ drop i chars"
      using append_take_drop_id [of 8 "drop (i - 8) chars"] 1(2) by simp
    then have "length (filter high_byte (drop (i - 8) chars)) = length (filter high_byte ?w) + length (filter high_byte (drop i chars))"
      by (metis filter_append length_append)
    moreover have "load_word ?w AND kAsciiWordMask = 0 \<Longrightarrow> filter high_byte ?w = []"
      unfolding masked_word_zero [OF w] by (simp add: filter_empty_conv list_all_iff)
    ultimately show ?thesis
      using True 1(1) [OF True refl refl] 1(2) count_high_bytes [OF w] by (subst length_chunks.simps) (simp add: Let_def)
  qed (subst length_chunks.simps; simp add: length_tail_eq)
qed

lemma one_byte_length: "Utf8_Length_String (OneByteString chars) = ret (length (utf8 (map ucast chars)))"
  using length_chunks_eq [of 8 chars "length chars"] by (simp add: length_utf8_bytes split: prod.splits)

text \<open>Encoding: what is stored, and how far the position moves.\<close>

definition stored :: "8 word list \<Rightarrow> nat \<Rightarrow> 8 word list \<Rightarrow> 8 word list" where
  "stored dst pos bs = take pos dst @ bs @ drop (pos + length bs) dst"

lemma stored_Nil [simp]: "stored dst pos [] = dst"
  by (simp add: stored_def)

lemma length_stored: "pos + length bs \<le> length dst \<Longrightarrow> length (stored dst pos bs) = length dst"
  by (simp add: stored_def)

lemma stored_stored:
  "pos + length bs + length cs \<le> length dst \<Longrightarrow>
     stored (stored dst pos bs) (pos + length bs) cs = stored dst pos (bs @ cs)"
  by (simp add: stored_def ac_simps)

lemma put_at_stored: "pos + length bs \<le> length dst \<Longrightarrow> put_at dst pos bs = ret (stored dst pos bs)"
  by (simp add: put_at_def stored_def)

lemma encode_chars_eq:
  assumes "pos + length (utf8 (map ucast p)) \<le> len" "len \<le> length dst"
  shows "encode_chars p len pos dst = ret (Inr (pos + length (utf8 (map ucast p)), stored dst pos (utf8 (map ucast p))))"
  using assms
proof (induction p arbitrary: pos dst)
  case (Cons c p)
  let ?c = "Utf8_Encode (ucast c)"
  have "encode_chars p len (pos + length ?c) (stored dst pos ?c) =
      ret (Inr (pos + length ?c + length (utf8 (map ucast p)), stored (stored dst pos ?c) (pos + length ?c) (utf8 (map ucast p))))"
    using Cons.prems by (intro Cons.IH) (simp_all add: length_stored)
  then show ?case
    using Cons.prems Decode_Encode(2) [OF byte_point, of c] by (simp add: put_at_stored stored_stored)
qed simp

lemma ascii_utf8: "list_all (\<lambda>b. \<not> high_byte b) bs \<Longrightarrow> utf8 (map ucast bs) = bs"
  by (induction bs) (simp_all add: ascii_code)

lemma utf8_append: "utf8 (cs @ ds) = utf8 cs @ utf8 ds"
  by (simp add: utf8_def)

lemma encode_words_step:
  assumes "i < length chars" "pos + length (utf8 (map ucast (take 8 (drop i chars)))) \<le> len" "len \<le> length dst"
  shows "encode_words chars len i pos dst =
    encode_words chars len (i + 8) (pos + length (utf8 (map ucast (take 8 (drop i chars)))))
      (stored dst pos (utf8 (map ucast (take 8 (drop i chars)))))"
proof -
  let ?w = "take 8 (drop i chars)"
  have w: "take (min 8 (length chars - i)) (drop i chars) = ?w"
    by (simp add: min_def)
  show ?thesis
  proof (cases "i + 8 \<le> length chars \<and> load_word ?w AND kAsciiWordMask = 0 \<and> pos + 8 \<le> len")
    case True
    then have "length ?w = 8"
      by (auto simp: min_def)
    then have "utf8 (map ucast ?w) = ?w" "store_word (load_word ?w) = ?w"
      using True masked_word_zero ascii_utf8 store_load_word by blast+
    moreover from this have "put_at dst pos ?w = ret (stored dst pos ?w)" "length ?w = 8"
      using True assms(2,3) by (auto simp: put_at_stored min_def)
    ultimately show ?thesis
      using True assms(1) by (subst encode_words.simps) (simp only: if_True simp_thms ebind_simps)
  next
    case False
    then show ?thesis
      using assms(1) by (subst encode_words.simps)
        (simp only: if_True if_False simp_thms w encode_chars_eq [OF assms(2,3)] ebind_simps sum.case prod.case)
  qed
qed

lemma encode_words_eq:
  assumes "pos + length (utf8 (map ucast (drop i chars))) \<le> len" "len \<le> length dst"
  shows "encode_words chars len i pos dst =
    ret (Inr (pos + length (utf8 (map ucast (drop i chars))), stored dst pos (utf8 (map ucast (drop i chars)))))"
  using assms
proof (induction "length chars - i" arbitrary: i pos dst rule: less_induct)
  case less
  show ?case
  proof (cases "i < length chars")
    case True
    let ?w = "utf8 (map ucast (take 8 (drop i chars)))" and ?r = "utf8 (map ucast (drop (i + 8) chars))"
    have "drop i chars = take 8 (drop i chars) @ drop (i + 8) chars"
      using append_take_drop_id [of 8 "drop i chars"] by (simp add: add.commute)
    then have split: "utf8 (map ucast (drop i chars)) = ?w @ ?r"
      by (metis map_append utf8_append)
    then have "encode_words chars len (i + 8) (pos + length ?w) (stored dst pos ?w) =
        ret (Inr (pos + length ?w + length ?r, stored (stored dst pos ?w) (pos + length ?w) ?r))"
      using True less.prems by (intro less.hyps) (simp_all add: length_stored)
    moreover have "encode_words chars len i pos dst = encode_words chars len (i + 8) (pos + length ?w) (stored dst pos ?w)"
      using True less.prems unfolding split by (intro encode_words_step) simp_all
    moreover have "stored (stored dst pos ?w) (pos + length ?w) ?r = stored dst pos (?w @ ?r)"
      using less.prems unfolding split by (intro stored_stored) simp
    ultimately show ?thesis
      unfolding split by (simp add: add.assoc)
  qed (subst encode_words.simps; simp)
qed

lemma one_byte_encode:
  assumes "length (utf8 (map ucast chars)) \<le> len" "len \<le> length dst"
  shows "Utf8_Encode_String (OneByteString chars) dst len = ret (0, stored dst 0 (utf8 (map ucast chars)))"
  using encode_words_eq [of 0 0 chars len dst] assms by simp

section \<open>Two-byte strings\<close>

text \<open>The code points of a sequence of UTF-16 units; a surrogate without its partner stands for itself.\<close>

fun points :: "16 word list \<Rightarrow> 32 word list" where
  "points [] = []"
| "points [u] = [ucast u]"
| "points (u # v # us) =
     (if IsLeadSurrogate (ucast u) \<and> IsTrailSurrogate (ucast v) then Utf16_Decode u v # points us
      else ucast u # points (v # us))"

lemma low_ten: "(x :: 32 word) AND 0x3FF = of_nat (unat x mod 1024)"
proof -
  have "x AND 0x3FF = take_bit 10 x"
    by (simp add: take_bit_eq_mask mask_eq_exp_minus_1)
  then have "unat (x AND 0x3FF) = unat x mod 1024"
    by (simp only: unsigned_take_bit_eq) (simp add: take_bit_eq_mod)
  then show ?thesis
    by (metis of_nat_unat unsigned_ucast_eq ucast_id)
qed

lemma unat_ucast_unit: "unat (ucast (u :: 16 word) :: 32 word) = unat u"
  using unat_of_nat32 [of "unat u"] unsigned_less [of u, where 'a = nat] by simp

lemma Utf16_Decode_number: "Utf16_Decode u v = of_nat (0x10000 + 1024 * (unat u mod 1024) + unat v mod 1024)"
  unfolding Utf16_Decode_def low_ten unat_ucast_unit by (simp add: push_bit_eq_mult mult.commute)

lemma Utf16_Length_number: "n < 2 ^ 31 \<Longrightarrow> Utf16_Length (of_nat n) = (if n \<le> 0xFFFF then 1 else 2)"
  using sle_of_nat32 [of n 65535] by (simp add: Utf16_Length_def kMaxCodeUnit_def)

lemma Utf16_Length_point: "Utf16_Length (ucast (u :: 16 word)) = 1" "Utf16_Length (Utf16_Decode u v) = 2"
proof -
  show "Utf16_Length (ucast u) = 1"
    using Utf16_Length_number [of "unat u"] unsigned_less [of u, where 'a = nat] by simp
  have "0x10000 + 1024 * (unat u mod 1024) + unat v mod 1024 < 2 ^ 31"
    by (simp add: mod_less_divisor [of 1024 "unat u"] add_strict_mono)
  then show "Utf16_Length (Utf16_Decode u v) = 2"
    unfolding Utf16_Decode_number by (subst Utf16_Length_number) simp_all
qed

text \<open>The iterator stands before unit \<open>k\<close>.\<close>

definition at_unit :: "16 word list \<Rightarrow> nat \<Rightarrow> cp_iterator \<Rightarrow> bool" where
  "at_unit us k it \<longleftrightarrow> cp_str it = TwoByteString us \<and> cp_end it = int (length us) \<and> k \<le> length us \<and>
     cp_index it + int (Utf16_Length (cp_ch it)) = int k"

lemma at_unit_start: "at_unit us 0 (CodePointIterator (TwoByteString us))"
  by (simp add: at_unit_def CodePointIterator_def Utf16_Length_def kMaxCodeUnit_def word_sle_eq)

lemma Next_end: "at_unit us (length us) it \<Longrightarrow> \<exists>it'. CodePointIterator_Next it = ret (False, it')"
  by (simp add: at_unit_def CodePointIterator_Next_def)

lemma Next_more:
  assumes "at_unit us k it" "k < length us"
  obtains it' k' where "CodePointIterator_Next it = ret (True, it')" "at_unit us k' it'" "k < k'"
    "points (drop k us) = cp_ch it' # points (drop k' us)"
proof -
  have it: "cp_index it < cp_end it - int (Utf16_Length (cp_ch it))"
      "cp_index it + int (Utf16_Length (cp_ch it)) = int k" "cp_str it = TwoByteString us" "cp_end it = int (length us)"
    using assms by (simp_all add: at_unit_def)
  let ?u = "us ! k" and ?it = "it\<lparr>cp_index := int k, cp_ch := ucast (us ! k)\<rparr>"
  have step: "CodePointIterator_Next it =
      (if IsLeadSurrogate (ucast ?u) \<and> k + 1 < length us \<and> IsTrailSurrogate (ucast (us ! (k + 1)))
       then ret (True, ?it\<lparr>cp_ch := Utf16_Decode ?u (us ! (k + 1))\<rparr>) else ret (True, ?it))"
  proof -
    have "int k < int (length us) - 1 \<longleftrightarrow> Suc k < length us" "nat (int k + 1) = Suc k" "int k + 1 < int (length us) \<longleftrightarrow> Suc k < length us"
      by linarith+
    then show ?thesis
      using it assms(2) by (auto simp: CodePointIterator_Next_def CharAt_def Let_def)
  qed
  show thesis
  proof (cases "IsLeadSurrogate (ucast ?u) \<and> k + 1 < length us \<and> IsTrailSurrogate (ucast (us ! (k + 1)))")
    case True
    then have "drop k us = ?u # us ! (k + 1) # drop (k + 2) us"
      by (simp add: Cons_nth_drop_Suc)
    then show thesis
      using True step that [of "?it\<lparr>cp_ch := Utf16_Decode ?u (us ! (k + 1))\<rparr>" "k + 2"] it
      by (simp add: at_unit_def Utf16_Length_point)
  next
    case False
    have "drop k us = ?u # drop (k + 1) us"
      using assms(2) by (simp add: Cons_nth_drop_Suc)
    moreover have "points (?u # drop (k + 1) us) = ucast ?u # points (drop (k + 1) us)"
      using False Cons_nth_drop_Suc [of "k + 1" us] by (cases "drop (k + 1) us") (auto dest!: arg_cong [of _ _ length])
    moreover have "CodePointIterator_Next it = ret (True, ?it)"
      using step False by (simp only: if_False)
    ultimately show thesis
      using that [of ?it "k + 1"] it assms(2) by (simp add: at_unit_def Utf16_Length_point)
  qed
qed

lemma high_and_low:
  fixes x y :: "32 word"
  assumes "x AND NOT (mask n) = y"
  shows "x = y + of_nat (unat x mod 2 ^ n)"
proof -
  have "x = (x AND NOT (mask n)) OR take_bit n x"
    by (intro bit_word_eqI) (auto simp: bit_simps)
  also have "\<dots> = (x AND NOT (mask n)) + take_bit n x"
    by (rule disjunctive_add [symmetric]) (auto simp: bit_simps)
  finally have "x = y + take_bit n x"
    using assms by simp
  moreover have "unat (take_bit n x) = unat x mod 2 ^ n"
    by (simp only: unsigned_take_bit_eq) (simp add: take_bit_eq_mod)
  then have "take_bit n x = of_nat (unat x mod 2 ^ n)"
    by (metis of_nat_unat ucast_id)
  ultimately show ?thesis
    by simp
qed

lemma surrogate_number:
  "IsSurrogate c \<Longrightarrow> c = of_nat (0xD800 + unat c mod 2048)"
  "IsLeadSurrogate c \<Longrightarrow> c = of_nat (0xD800 + unat c mod 1024)"
  "IsTrailSurrogate c \<Longrightarrow> c = of_nat (0xDC00 + unat c mod 1024)"
proof -
  have masks: "NOT (mask 11) = (0xFFFFF800 :: 32 word)" "NOT (mask 10) = (0xFFFFFC00 :: 32 word)"
    by (simp_all add: mask_eq_exp_minus_1)
  show "IsSurrogate c \<Longrightarrow> c = of_nat (0xD800 + unat c mod 2048)"
    using high_and_low [of c 11 "0xD800"] unfolding IsSurrogate_def masks by simp
  show "IsLeadSurrogate c \<Longrightarrow> c = of_nat (0xD800 + unat c mod 1024)"
    "IsTrailSurrogate c \<Longrightarrow> c = of_nat (0xDC00 + unat c mod 1024)"
    using high_and_low [of c 10 "0xD800"] high_and_low [of c 10 "0xDC00"]
    unfolding IsLeadSurrogate_def IsTrailSurrogate_def masks by simp_all
qed

definition scalar :: "32 word \<Rightarrow> 32 word" where
  "scalar c = (if IsSurrogate c then kReplacementChar else c)"

text \<open>The code points that the UTF-8 encoding of a string holds.\<close>

fun code_points :: "dart_string \<Rightarrow> 32 word list" where
  "code_points (OneByteString chars) = map ucast chars"
| "code_points (TwoByteString us) = map scalar (points us)"

lemma scalar_length: "Utf8_Length (scalar c) = Utf8_Length c"
proof (cases "IsSurrogate c")
  case True
  define n where "n = 0xD800 + unat c mod 2048"
  have "0xD800 \<le> n" "n < 0xD800 + 2048"
    using mod_less_divisor [of 2048 "unat c"] by (simp_all add: n_def)
  then have "Utf8_Length (of_nat n) = 3"
    by (subst Utf8_Encode_code(2)) (simp_all add: utf8_code_def)
  moreover have "Utf8_Length kReplacementChar = 3"
    by (simp add: kReplacementChar_def Utf8_Length_def kMaxOneByteChar_def kMaxTwoByteChar_def kMaxThreeByteChar_def word_sle_eq)
  ultimately show ?thesis
    using True surrogate_number(1) [OF True] by (simp add: scalar_def flip: n_def)
qed (simp add: scalar_def)

lemma Utf16_Decode_point: "code_point (Utf16_Decode u v)"
proof -
  have "unat u mod 1024 < 1024" "unat v mod 1024 < 1024"
    by simp_all
  then have "0x10000 + 1024 * (unat u mod 1024) + unat v mod 1024 \<le> 0x10FFFF"
    by linarith
  then show ?thesis
    unfolding Utf16_Decode_number by (rule code_point_of_nat)
qed

lemma unit_point: "code_point (ucast (u :: 16 word))"
  using code_point_of_nat [of "unat u"] unsigned_less [of u, where 'a = nat] by simp

lemma points_code_point: "list_all code_point (points us)"
  by (induction us rule: points.induct) (simp_all add: Utf16_Decode_point unit_point)

lemma scalar_point: "code_point c \<Longrightarrow> code_point (scalar c)"
  using code_point_of_nat [of 65533] by (simp add: scalar_def kReplacementChar_def)

lemma code_points_ok: "list_all code_point (code_points s)"
  by (cases s) (use points_code_point in \<open>auto simp: list_all_iff byte_point intro: scalar_point\<close>)

lemma length_points_eq:
  assumes "at_unit us k it"
  shows "length_points it len = ret (len + length (utf8 (map scalar (points (drop k us)))))"
  using assms
proof (induction "length us - k" arbitrary: k it len rule: less_induct)
  case less
  show ?case
  proof (cases "k < length us")
    case True
    obtain it' k' where n: "CodePointIterator_Next it = ret (True, it')" "at_unit us k' it'" "k < k'"
      "points (drop k us) = cp_ch it' # points (drop k' us)"
      using Next_more [OF less.prems True] .
    then have "code_point (cp_ch it')"
      using points_code_point [of "drop k us"] by simp
    then have "length (Utf8_Encode (scalar (cp_ch it'))) = Utf8_Length (cp_ch it')"
      using Decode_Encode(2) [of "scalar (cp_ch it')"] scalar_point scalar_length by simp
    moreover have "length us - k' < length us - k"
      using n(3) True by linarith
    ultimately show ?thesis
      using less.hyps [OF _ n(2)] n by (subst length_points.simps) simp
  next
    case False
    then have "k = length us"
      using less.prems by (simp add: at_unit_def)
    then show ?thesis
      using less.prems Next_end by (subst length_points.simps) force
  qed
qed

lemma encode_points_eq:
  assumes "at_unit us k it" "pos + length (utf8 (map scalar (points (drop k us)))) \<le> len" "len \<le> length dst"
  shows "encode_points it len pos dst =
    ret (pos + length (utf8 (map scalar (points (drop k us)))), stored dst pos (utf8 (map scalar (points (drop k us)))))"
  using assms
proof (induction "length us - k" arbitrary: k it pos dst rule: less_induct)
  case less
  show ?case
  proof (cases "k < length us")
    case True
    obtain it' k' where n: "CodePointIterator_Next it = ret (True, it')" "at_unit us k' it'" "k < k'"
      "points (drop k us) = cp_ch it' # points (drop k' us)"
      using Next_more [OF less.prems(1) True] .
    let ?c = "Utf8_Encode (scalar (cp_ch it'))" and ?r = "utf8 (map scalar (points (drop k' us)))"
    have "code_point (cp_ch it')"
      using n(4) points_code_point [of "drop k us"] by simp
    then have c: "Utf8_Length (scalar (cp_ch it')) = length ?c"
      using Decode_Encode(2) scalar_point by blast
    have fits: "pos + length ?c + length ?r \<le> len" "len \<le> length dst"
      using less.prems(2,3) n(4) by simp_all
    have "length us - k' < length us - k"
      using n(3) True by linarith
    then have "encode_points it' len (pos + length ?c) (stored dst pos ?c) =
        ret (pos + length ?c + length ?r, stored (stored dst pos ?c) (pos + length ?c) ?r)"
      using less.hyps [OF _ n(2), of "pos + length ?c" "stored dst pos ?c"] fits by (simp add: length_stored)
    also have "stored (stored dst pos ?c) (pos + length ?c) ?r = stored dst pos (?c @ ?r)"
      using fits by (intro stored_stored) simp
    finally show ?thesis
      using n(1,4) c fits by (subst encode_points.simps) (simp add: put_at_stored Let_def add.assoc flip: scalar_def)
  next
    case False
    then have "k = length us"
      using less.prems(1) by (simp add: at_unit_def)
    then show ?thesis
      using less.prems(1) Next_end by (subst encode_points.simps) force
  qed
qed

section \<open>Decoding gives the string back\<close>

text \<open>Every surrogate is one half of a pair.\<close>

fun well_formed :: "16 word list \<Rightarrow> bool" where
  "well_formed [] \<longleftrightarrow> True"
| "well_formed [u] \<longleftrightarrow> \<not> IsSurrogate (ucast u)"
| "well_formed (u # v # us) \<longleftrightarrow>
     (if IsLeadSurrogate (ucast u) \<and> IsTrailSurrogate (ucast v) then well_formed us
      else \<not> IsSurrogate (ucast u) \<and> well_formed (v # us))"

lemma unit_cast: "ucast (ucast (u :: 16 word) :: 32 word) = u"
  by (rule bit_word_eqI) (simp add: bit_ucast_iff)

lemma unit_units: "utf16_units (ucast (u :: 16 word)) = [u]"
proof -
  have "\<not> kMaxCodeUnit < ucast u"
    using unsigned_less [of u, where 'a = nat] by (simp add: kMaxCodeUnit_def word_less_nat_alt unat_ucast_unit)
  then show ?thesis
    by (simp add: utf16_units_def unit_cast)
qed

lemma pair_units:
  assumes "IsLeadSurrogate (ucast u)" "IsTrailSurrogate (ucast v)"
  shows "utf16_units (Utf16_Decode u v) = [u, v]"
proof -
  define a b where "a = unat u mod 1024" and "b = unat v mod 1024"
  define n where "n = 0x10000 + 1024 * a + b"
  have lim: "a < 1024" "b < 1024"
    by (simp_all add: a_def b_def)
  then have n: "n < 2 ^ 31" "n div 1024 = 64 + a" "0xFFFF < n"
    unfolding n_def by (auto intro: div_nat_eqI)
  have "n = (64 + a) * 1024 + b"
    by (simp add: n_def)
  then have low: "n mod 1024 = b"
    using lim(2) by (simp only: mod_mult_self3 mod_less)
  have d: "Utf16_Decode u v = of_nat n"
    by (simp only: Utf16_Decode_number n_def a_def b_def)
  have "kMaxCodeUnit < Utf16_Decode u v"
    using n(1,3) unfolding d by (simp add: kMaxCodeUnit_def word_less_nat_alt unat_of_nat32)
  moreover have "ucast (kLeadSurrogateOffset + signed_drop_bit 10 (Utf16_Decode u v)) = u"
  proof -
    have "kLeadSurrogateOffset + signed_drop_bit 10 (Utf16_Decode u v) = of_nat (0xD800 + a)"
      unfolding d signed_shift [OF n(1)] using n(2) by (simp add: kLeadSurrogateOffset_def)
    also have "\<dots> = ucast u"
      using surrogate_number(2) [OF assms(1)] by (simp only: unat_ucast_unit a_def)
    finally show ?thesis
      by (simp add: unit_cast)
  qed
  moreover have "ucast (0xDC00 + (Utf16_Decode u v AND 0x3FF)) = v"
  proof -
    have "0xDC00 + (Utf16_Decode u v AND 0x3FF) = of_nat (0xDC00 + b)"
      unfolding low_ten d using n(1) low by (simp add: unat_of_nat32)
    also have "\<dots> = ucast v"
      using surrogate_number(3) [OF assms(2)] by (simp only: unat_ucast_unit b_def)
    finally show ?thesis
      by (simp add: unit_cast)
  qed
  ultimately show ?thesis
    by (simp add: utf16_units_def Utf16_Encode_def)
qed

lemma points_units: "well_formed us \<Longrightarrow> concat (map utf16_units (map scalar (points us))) = us"
proof (induction us rule: points.induct)
  case (3 u v us)
  have "\<not> IsSurrogate (Utf16_Decode u v)"
  proof
    assume "IsSurrogate (Utf16_Decode u v)"
    then have "Utf16_Decode u v = of_nat (0xD800 + unat (Utf16_Decode u v) mod 2048)"
      by (rule surrogate_number)
    moreover have "unat (Utf16_Decode u v) mod 2048 < 2048"
      by simp
    ultimately have "Utf16_Length (Utf16_Decode u v) = 1"
      using Utf16_Length_number [of "0xD800 + unat (Utf16_Decode u v) mod 2048"] by simp
    then show False
      by (simp add: Utf16_Length_point)
  qed
  then show ?case
    using 3 by (auto simp: pair_units unit_units scalar_def split: if_splits)
qed (simp_all add: unit_units scalar_def)

lemma byte_string: "string_of_points (map ucast (chars :: 8 word list)) = OneByteString chars"
proof -
  have "(ucast b :: 32 word) \<le> 0xFF" for b :: "8 word"
    using unsigned_less [of b, where 'a = nat] by (simp add: word_le_nat_alt unat_ucast_byte)
  moreover have "ucast (ucast b :: 32 word) = b" for b :: "8 word"
    by (rule bit_word_eqI) (simp add: bit_ucast_iff)
  ultimately show ?thesis
    by (simp add: string_of_points_def list_all_iff comp_def)
qed

lemma string_units: "code_units (string_of_points cs) = concat (map utf16_units cs)"
proof (cases "list_all (\<lambda>c. c \<le> 0xFF) cs")
  case True
  then have "map (\<lambda>c. ucast (ucast c :: 8 word)) cs = concat (map utf16_units cs)"
  proof (induction cs)
    case (Cons c cs)
    have "\<not> kMaxCodeUnit < c"
      using Cons.prems by (auto simp: kMaxCodeUnit_def word_le_nat_alt word_less_nat_alt)
    moreover have "ucast (ucast c :: 8 word) = (ucast c :: 16 word)"
    proof -
      have "unat c < 256"
        using Cons.prems by (simp add: word_le_nat_alt)
      then show ?thesis
        using ucast_of_nat32(1) [of "unat c"] ucast_of_nat32(2) [of "unat c"] unat_of_nat8 [of "unat c"]
        by (metis of_nat_unat ucast_id)
    qed
    ultimately show ?case
      using Cons by (simp add: utf16_units_def)
  qed simp
  then show ?thesis
    using True by (simp add: string_of_points_def comp_def)
qed (simp add: string_of_points_def)

section \<open>Properties\<close>

text \<open>
  C39.  \<open>String::FromUTF8\<close> accepts exactly the UTF-8 encodings of sequences of code points up to U+10FFFF, which are
  the arrays \<open>Utf8::IsValid\<close> accepts, and returns the string of these code points; for every other array it
  returns null, except that an array with nothing but trail bytes, which is not valid either, gives the empty
  string.  Both functions return for every array, and no store leaves the new string.
\<close>

theorem from_utf8_exact:
  "\<exists>valid. IsValid bs = ret valid \<and> (valid \<longleftrightarrow> (\<exists>cs. list_all code_point cs \<and> bs = utf8 cs)) \<and>
     (if valid then \<exists>cs. list_all code_point cs \<and> bs = utf8 cs \<and> String_FromUTF8 junk bs = ret (Some (string_of_points cs))
      else String_FromUTF8 junk bs = ret (if list_all IsTrailByte bs then Some (OneByteString []) else None))"
proof (cases "\<exists>cs. list_all code_point cs \<and> bs = utf8 cs")
  case True
  then obtain cs where "list_all code_point cs" "bs = utf8 cs"
    by blast
  then show ?thesis
    using True FromUTF8_valid [of cs junk] valid_loop_exact [of bs 0] by (auto simp: IsValid_def)
next
  case False
  then show ?thesis
    using FromUTF8_invalid [of bs junk] valid_loop_exact [of bs 0] by (auto simp: IsValid_def)
qed

text \<open>
  C40.  \<open>Utf8::Length\<close> of a string is the number of bytes of its encoding; for an array of at least that many bytes,
  \<open>Utf8::Encode\<close> stores the encodings of the code points, unpaired surrogates replaced by U+FFFD, at its start and
  leaves the rest alone; the string read back with \<open>String::FromUTF8\<close> has the same code units when the surrogates of
  the string are paired, and is the same string when it is a one-byte string.  The count that \<open>Utf8::Encode\<close>
  returns is right for a two-byte string; for a one-byte string it is 0.
\<close>

theorem utf8_string_roundtrip:
  assumes "length (utf8 (code_points s)) \<le> len" "len \<le> length dst"
  shows "Utf8_Length_String s = ret (length (utf8 (code_points s))) \<and>
    Utf8_Encode_String s dst len =
      ret (case s of OneByteString _ \<Rightarrow> 0 | TwoByteString _ \<Rightarrow> length (utf8 (code_points s)),
           utf8 (code_points s) @ drop (length (utf8 (code_points s))) dst) \<and>
    String_ToUTF8 s dst len = ret (utf8 (code_points s) @ drop (length (utf8 (code_points s))) dst) \<and>
    (\<exists>s'. String_FromUTF8 junk (utf8 (code_points s)) = ret (Some s') \<and>
      (case s of OneByteString _ \<Rightarrow> s' = s | TwoByteString us \<Rightarrow> well_formed us \<longrightarrow> code_units s' = us))"
proof -
  have decoded: "String_FromUTF8 junk (utf8 (code_points s)) = ret (Some (string_of_points (code_points s)))"
    using code_points_ok by (rule FromUTF8_valid)
  show ?thesis
  proof (cases s)
    case (OneByteString chars)
    then show ?thesis
      using decoded assms one_byte_length one_byte_encode [of chars len dst]
      by (simp add: stored_def String_ToUTF8_def byte_string del: Utf8_Length_String.simps Utf8_Encode_String.simps)
  next
    case (TwoByteString us)
    then show ?thesis
      using decoded assms length_points_eq [OF at_unit_start, of us 0] encode_points_eq [OF at_unit_start, of 0 us len dst]
      by (simp add: stored_def String_ToUTF8_def string_units points_units [simplified])
  qed
qed

theorem utf8_string_roundtrip_witness:
  "Utf8_Encode_String (OneByteString [0x41, 0xE6]) [42, 42, 42, 42] 3 = ret (0, [0x41, 0xC3, 0xA6, 42]) \<and>
   Utf8_Encode_String (TwoByteString [0x48, 0x20AC, 0xD83D, 0xDE00]) [42, 42, 42, 42, 42, 42, 42, 42, 42, 42] 8 =
     ret (8, [0x48, 0xE2, 0x82, 0xAC, 0xF0, 0x9F, 0x98, 0x80, 42, 42]) \<and>
   (\<exists>s'. String_FromUTF8 (\<lambda>_. 0) [0x48, 0xE2, 0x82, 0xAC, 0xF0, 0x9F, 0x98, 0x80] = ret (Some s') \<and>
     code_units s' = [0x48, 0x20AC, 0xD83D, 0xDE00])"
proof -
  have u1: "utf8 (code_points (OneByteString [0x41, 0xE6])) = [0x41, 0xC3, 0xA6]"
    by code_simp
  have u2: "utf8 (code_points (TwoByteString [0x48, 0x20AC, 0xD83D, 0xDE00])) = [0x48, 0xE2, 0x82, 0xAC, 0xF0, 0x9F, 0x98, 0x80]"
    by code_simp
  have w: "well_formed [0x48, 0x20AC, 0xD83D, 0xDE00]"
    by code_simp
  show ?thesis
    using utf8_string_roundtrip [of "OneByteString [0x41, 0xE6]" 3 "[42, 42, 42, 42]", unfolded u1]
      utf8_string_roundtrip [of "TwoByteString [0x48, 0x20AC, 0xD83D, 0xDE00]" 8 "[42, 42, 42, 42, 42, 42, 42, 42, 42, 42]" "\<lambda>_. 0", unfolded u2] w
    by (simp del: Utf8_Encode_String.simps Utf8_Length_String.simps well_formed.simps)
qed

end
