(* ===== verification/Spec2Isabelle.thy ===== *)
theory Spec2Isabelle
  imports Port_Map Arm64_Division Stream_Roundtrip Unicode_Strings
begin

text \<open>
  A verification of self-contained parts of the Dart virtual machine (\<open>src/runtime\<close>).  Each theory models one part
  of the C++ code, function by function, and proves what the part promises to its callers.

  \<^bold>\<open>The parts and how they interact.\<close>  Isolates communicate by messages sent to ports.  The port map
  (\<open>vm/port.cc\<close>) finds the message handler of a port in a hash set (\<open>vm/port_set.h\<close>) whose keys are drawn from a
  random number generator (\<open>vm/random.cc\<close>); the message handler (\<open>vm/message_handler.cc\<close>) keeps two queues of
  messages (\<open>vm/message.cc\<close>) and runs their callbacks.  The compiler's ARM64 assembler
  (\<open>vm/compiler/assembler/assembler_arm64.cc\<close>) emits words that the ARM64 simulator (\<open>vm/simulator_arm64.cc\<close>)
  executes; both rest on the encoding of \<open>vm/constants_arm64.h\<close> and the integer helpers of \<open>platform/utils.cc\<close>,
  and the code generator for divisions (\<open>vm/compiler/backend/il_arm64.cc\<close>) uses the assembler and the magic
  numbers of \<open>platform/utils.cc\<close>.  Snapshots and messages are written to and read from the byte streams of
  \<open>vm/datastream.h\<close>; strings are converted by the codecs of \<open>platform/unicode.cc\<close> and \<open>vm/unicode.cc\<close>.

  \<^bold>\<open>Conventions\<close> (\<open>Dart_Prelude\<close>).  A function that may loop or run into undefined behaviour has a result of type
  \<open>'a exec\<close>: no result (it runs forever), a fault (out of bounds, null, freed memory, unreachable code, division by
  zero, bad shift, out of memory), or a value.  A loop that may not end is a \<open>partial_function\<close>, so the theorems
  about it also show that it returns; no loop runs on fuel.  Machine integers are words of their width wherever
  wrap-around can matter; sizes and positions of memory are natural numbers.  Assertions, which are compiled out, are
  not part of the code.  The machine has 64-bit words and is little-endian.

  \<^bold>\<open>Ports and messages.\<close>
  \<^item> \<open>Linear_Probing\<close>: the walk \<open>index = (index + 1) % capacity\<close> of a hash table; locale \<open>probe_loop\<close>, interpreted for
    the three loops of \<open>PortSet\<close>: one stopping cell makes the walk return at the first such cell.
  \<^item> \<open>Port_Set\<close>: record \<open>port_set\<close>, \<open>Insert\<close>, \<open>Delete\<close>, \<open>Rebalance\<close>, \<open>Rehash\<close>, \<open>TryLookup\<close> (\<open>port_set.h\<close>).  The set refines a finite map
    (C1), locale \<open>port_table\<close>; lookups are exact (C2).  C3 to C5 say what happens outside the contract: a full table
    makes a lookup run forever, the marker of deleted cells is found when the walk meets a deleted cell first, a
    negative port leaves the table.
  \<^item> \<open>Message_Queue\<close>: the linked list of messages over an explicit store of nodes, and the data with finalizers
    (\<open>message.cc\<close>, \<open>finalizable_data.h\<close>).  The queue refines a list (C6), locale \<open>message_queue\<close>, as long as no message
    object is enqueued twice; control messages stay in front (C7); every finalizer that is neither taken nor dropped runs once (C8).
  \<^item> \<open>Message_Handler\<close>: record \<open>handler\<close> and all operations that change it.  Virtual methods, callbacks and what other
    threads do while the monitor is released are the parameter \<open>env\<close>; its contract are the locales \<open>sound_env\<close> and
    \<open>bounded_env\<close>, interpreted for scripted environments.  Message loop (C9, C10), task (C11), posting (C12); a
    shutdown received while paused on exit is forgotten (C13).
  \<^item> \<open>Dart_Random\<close>: the generator is a Lehmer generator (C21).
  \<^item> \<open>Port_Map\<close>: the composition.  Reachability \<open>pm_reach\<close> has one rule per operation; the invariant ties the table, the
    handlers' own port sets and the counters of live ports together (C14).  Closing and delivery (C15 to C17); the
    defects of the error paths, each for every reachable map in which it can occur (C18 to C20).

  \<^bold>\<open>Integer helpers.\<close>  \<open>Dart_Utils\<close>: the string hash does not depend on the alignment of its data (C22), powers of
  two (C23), overflow tests (C24), ranges (C25), bit reversal (C26).  \<open>Magic_Division\<close>: the search for the
  multiplier and the shift ends for every divisor and the result gives the exact quotient (C33).

  \<^bold>\<open>ARM64.\<close>
  \<^item> \<open>Arm64_Instr\<close>: registers, conditions, opcodes and the fields of an instruction word (\<open>constants_arm64.h\<close>).
  \<^item> \<open>Arm64_Simulator\<close>: record \<open>sim\<close> with the registers, the flags and the data memory, decoding and execution of
    integer, branch and load and store instructions.  Conditions after a
    comparison mean what they say (C27); shifts of 32-bit operands (C28).
  \<^item> \<open>Arm64_Assembler\<close>: the encoders, the addressing modes, the logical immediates and the macros for constants, with
    the load of a constant from the object pool.
  \<^item> \<open>Arm64_Immediate\<close>: the assembler accepts exactly the immediates the simulator decodes (C30).
  \<^item> \<open>Arm64_Exec\<close>: every emitted integer instruction is executed with the meaning of the architecture (C29), lifted to
    sequences of instructions.
  \<^item> \<open>Arm64_Pool\<close>: an emitted \<open>ldr\<close> loads the word at its address.
  \<^item> \<open>Arm64_Constants\<close>, \<open>Arm64_Division\<close>: the code for constants (C31, C32) and for divisions by constants of absolute
    value at least two at optimization levels above 2 (C34), run in the simulator, returns the right values, with
    and without the object pool.  The index at which the pool builder files a constant is the parameter
    \<open>find_immediate\<close>; what is needed of the pool, \<open>pool_ready\<close>, is that a constant the code takes from it is stored at
    that index behind the register \<open>PP\<close>.  The code for general divisors is a parameter.

  \<^bold>\<open>Byte streams.\<close>  \<open>Data_Stream\<close>: records \<open>rstream\<close> and \<open>wstream\<close> and the operations of \<open>datastream.h\<close>; the C allocator is a
  parameter, which for zone streams stands for the allocator of the zone too.  Locale \<open>realloc_contract\<close>,
  interpreted for both ways of growing the buffer.  \<open>Stream_Codec\<close>: the
  encodings as functions on integers, what each writer appends and each reader reads.  \<open>Stream_Roundtrip\<close>: what is
  written is read back (C35), the unrolled readers agree with the loop (C36), writing keeps a stream well formed and
  only appends (C37),
  and a streaming stream never reuses its buffer (C38).

  \<^bold>\<open>Unicode.\<close>  \<open>Unicode_Codec\<close>: both codecs, validity, and \<open>String::FromUTF8\<close>; the three decoding loops interpret the
  locale \<open>utf8_decoder\<close>.  \<open>Unicode_Strings\<close>: decoding accepts exactly what encoding produces (C39); the word-wise
  loops over one-byte strings and the iterator over two-byte strings compute the encoding, which is read back (C40).

  \<^bold>\<open>Bounds.\<close>  Lookups in a port set need a free cell, which the invariant gives.  The message loop ends when
  callbacks post only finitely many messages, the measure of \<open>bounded_env\<close>.  The bytes of a stream stay
  below \<open>2 ^ 62\<close>.  Reference ids of streams are below \<open>2 ^ 28\<close>, the four groups of seven bits the code writes.

  \<^bold>\<open>Not modelled.\<close>  The garbage-collected heap, the object model, the flow-graph compiler, snapshots of object graphs,
  the kernel loader, the regular expression engine, the debugger and service protocol and the embedder API work on raw
  memory layouts of heap objects that generated code and other threads change; there is no small state to give them.
  The assemblers and simulators of the other architectures are left out; ARM64 stands for them.  Floating point, SIMD,
  and the exclusive, atomic, literal and paired loads and stores of ARM64 are the parameter \<open>other\<close> of the simulator.  Operating-system layers, \<open>dart:io\<close>, profiling and
  all trace and debugging output are input and output only.  The tables of the case mapping of \<open>platform/unicode.h\<close> are
  data without a contract in the code.
\<close>

end
